(* ===== verification/Wcat_Prelude.thy ===== *)
theory Wcat_Prelude
  imports Main "HOL-Library.Word" "HOL-Library.Sublist"
begin

text \<open>
  What every component of the wirecat development shares: the types that stand for C data
  (bytes, C strings that may be NULL, descriptors), the parts of the C library the sources call
  on strings (\<open>strtol\<close>, \<open>strtoul\<close>, \<open>strchr\<close>, \<open>strrchr\<close>, \<open>strstr\<close>, \<open>snprintf\<close>'s numeric
  conversions) and the lemmas on them.

  A byte is a \<open>char\<close>, which in HOL is exactly eight bits; its value as an \<open>unsigned char\<close> is
  \<open>code c\<close>. A C string is the list of its bytes without the terminating NUL, and a
  \<open>const char *\<close> that may be NULL is a \<open>string option\<close>. \<open>int\<close> results such as -1 are HOL
  integers; \<open>size_t\<close> is \<open>nat\<close> with the bound \<open>SIZE_MAX\<close> written out where the code
  checks it; \<open>unsigned int\<close> counters that may wrap are 32-bit words.
\<close>

section \<open>Collections of facts\<close>

named_theorems wcat_bounds \<open>size and range facts of the library functions\<close>
named_theorems sys_frame \<open>which parts of the system state an operation leaves alone\<close>
named_theorems wcat_str \<open>evaluation of string functions on concatenations\<close>

section \<open>Types and limits\<close>

type_synonym byte = char
type_synonym bytes = "char list"
type_synonym cstr = "string option"
type_synonym fd = int
type_synonym u8 = "8 word"
type_synonym u32 = "32 word"

definition SIZE_MAX :: nat where "SIZE_MAX = 2 ^ 64 - 1"
definition INT_MAX :: int where "INT_MAX = 2 ^ 31 - 1"
definition LONG_MAX :: int where "LONG_MAX = 2 ^ 63 - 1"
definition LONG_MIN :: int where "LONG_MIN = - (2 ^ 63)"
definition ULONG_MAX :: int where "ULONG_MAX = 2 ^ 64 - 1"
definition UINT_MAX :: int where "UINT_MAX = 2 ^ 32 - 1"

lemmas c_limits = SIZE_MAX_def INT_MAX_def LONG_MAX_def LONG_MIN_def ULONG_MAX_def UINT_MAX_def

section \<open>Bytes\<close>

abbreviation code :: "char \<Rightarrow> nat" where "code c \<equiv> of_char c"

definition isspace :: "char \<Rightarrow> bool" where
  "isspace c \<longleftrightarrow> (9 \<le> code c \<and> code c \<le> 13) \<or> code c = 32"

definition isdigit :: "char \<Rightarrow> bool" where
  "isdigit c \<longleftrightarrow> 48 \<le> code c \<and> code c \<le> 57"

definition iscntrl :: "char \<Rightarrow> bool" where
  "iscntrl c \<longleftrightarrow> code c < 32 \<or> code c = 127"

definition digit_char :: "nat \<Rightarrow> char" where
  "digit_char n = char_of (48 + n mod 10)"

definition digit_val :: "char \<Rightarrow> nat" where
  "digit_val c = code c - 48"

lemma code_less_256 [simp, wcat_bounds]: "code c < 256"
  by (cases c) (simp add: of_char_def)

lemma code_inj: "code c = code d \<longleftrightarrow> c = d"
  by simp

lemma code_char_of [simp]: "n < 256 \<Longrightarrow> code (char_of n) = n"
  by simp

lemma isdigit_not_space: "isdigit c \<Longrightarrow> \<not> isspace c"
  by (auto simp: isdigit_def isspace_def)

lemma isdigit_digit_char [simp]: "isdigit (digit_char n)"
  by (simp add: isdigit_def digit_char_def)

lemma digit_val_digit_char [simp]: "digit_val (digit_char n) = n mod 10"
  by (simp add: digit_val_def digit_char_def)

section \<open>Decimal and hexadecimal text\<close>

text \<open>\<open>%u\<close>, \<open>%zu\<close> and \<open>%d\<close> of a value that is not negative.\<close>

fun dec_string :: "nat \<Rightarrow> string" where
  "dec_string n = (if n < 10 then [digit_char n] else dec_string (n div 10) @ [digit_char n])"

declare dec_string.simps [simp del]

definition dec_value :: "string \<Rightarrow> nat" where
  "dec_value ds = foldl (\<lambda>v c. 10 * v + digit_val c) 0 ds"

lemma dec_value_Nil [simp]: "dec_value [] = 0"
  by (simp add: dec_value_def)

lemma dec_value_snoc [simp]: "dec_value (ds @ [c]) = 10 * dec_value ds + digit_val c"
  by (simp add: dec_value_def)

lemma dec_string_not_Nil [simp]: "dec_string n \<noteq> []" "[] \<noteq> dec_string n"
  by (subst dec_string.simps, simp)+

lemma dec_string_digits: "list_all isdigit (dec_string n)"
proof (induction n rule: dec_string.induct)
  case (1 n)
  then show ?case
    by (cases "n < 10") (simp_all add: dec_string.simps [of n])
qed

lemma dec_value_dec_string [simp]: "dec_value (dec_string n) = n"
proof (induction n rule: dec_string.induct)
  case (1 n)
  show ?case
  proof (cases "n < 10")
    case True
    then show ?thesis
      by (simp add: dec_string.simps [of n] dec_value_def)
  next
    case False
    with 1 show ?thesis by (simp add: dec_string.simps [of n])
  qed
qed

lemma length_dec_string_le: "n < 10 ^ k \<Longrightarrow> 0 < k \<Longrightarrow> length (dec_string n) \<le> k"
proof (induction k arbitrary: n)
  case 0
  then show ?case by simp
next
  case (Suc k)
  show ?case
  proof (cases "n < 10")
    case True
    then show ?thesis by (simp add: dec_string.simps [of n])
  next
    case False
    then have "0 < k" using Suc.prems by (cases k) auto
    moreover have "n div 10 < 10 ^ k"
      using Suc.prems by (simp add: less_mult_imp_div_less mult.commute)
    ultimately have "length (dec_string (n div 10)) \<le> k" by (rule Suc.IH [rotated])
    with False show ?thesis by (simp add: dec_string.simps [of n])
  qed
qed

text \<open>\<open>%02x\<close>, \<open>%04x\<close>, \<open>%08zx\<close>: a minimum number of lower-case hexadecimal digits.\<close>

definition hex_char :: "nat \<Rightarrow> char" where
  "hex_char d = (if d < 10 then char_of (48 + d) else char_of (87 + d))"

fun hex_string :: "nat \<Rightarrow> string" where
  "hex_string n = (if n < 16 then [hex_char n] else hex_string (n div 16) @ [hex_char (n mod 16)])"

declare hex_string.simps [simp del]

definition hex_pad :: "nat \<Rightarrow> nat \<Rightarrow> string" where
  "hex_pad w n = replicate (w - length (hex_string n)) (CHR ''0'') @ hex_string n"

definition hex_val :: "char \<Rightarrow> nat option" where
  "hex_val c = (if 48 \<le> code c \<and> code c \<le> 57 then Some (code c - 48)
                else if 97 \<le> code c \<and> code c \<le> 102 then Some (code c - 87) else None)"

lemma hex_val_hex_char [simp]: "d < 16 \<Longrightarrow> hex_val (hex_char d) = Some d"
  by (auto simp: hex_val_def hex_char_def)

lemma hex_string_byte: "n < 256 \<Longrightarrow>
  hex_string n = (if n < 16 then [hex_char n] else [hex_char (n div 16), hex_char (n mod 16)])"
  by (simp add: hex_string.simps [of n] hex_string.simps [of "n div 16"]
      less_mult_imp_div_less)

lemma hex_char_0 [simp]: "hex_char 0 = CHR ''0''"
  by code_simp

lemma hex_pad_2_byte: "n < 256 \<Longrightarrow> hex_pad 2 n = [hex_char (n div 16), hex_char (n mod 16)]"
  by (simp add: hex_pad_def hex_string_byte)

lemma hex_pad_4_byte: "n < 256 \<Longrightarrow>
  hex_pad 4 n = [CHR ''0'', CHR ''0'', hex_char (n div 16), hex_char (n mod 16)]"
proof -
  have r: "replicate 3 (CHR ''0'') = ''000''" "replicate 2 (CHR ''0'') = ''00''" by code_simp+
  assume "n < 256"
  then show ?thesis by (simp add: hex_pad_def hex_string_byte r)
qed

section \<open>The string functions of the C library\<close>

text \<open>
  \<open>strtol (s, &end, 10)\<close> gives the value, the text \<open>end\<close> points at and whether \<open>errno\<close> was
  set to \<open>ERANGE\<close>. With no digits \<open>end\<close> is the whole text, which is how \<open>end == s\<close> reads
  here: a proper suffix of a list is a different list.
\<close>

fun split_sign :: "string \<Rightarrow> bool \<times> string" where
  "split_sign [] = (False, [])"
| "split_sign (c # cs) =
     (if c = CHR ''-'' then (True, cs) else if c = CHR ''+'' then (False, cs) else (False, c # cs))"

definition strtol :: "string \<Rightarrow> int \<times> string \<times> bool" where
  "strtol s =
     (let (neg, u) = split_sign (dropWhile isspace s);
          ds = takeWhile isdigit u;
          v = (if neg then - int (dec_value ds) else int (dec_value ds))
      in if ds = [] then (0, s, False)
         else if v > LONG_MAX then (LONG_MAX, dropWhile isdigit u, True)
         else if v < LONG_MIN then (LONG_MIN, dropWhile isdigit u, True)
         else (v, dropWhile isdigit u, False))"

text \<open>
  \<open>strtoul\<close> accepts the same texts; a minus sign negates the value in \<open>unsigned long\<close>, so the
  result wraps modulo \<open>2^64\<close>.
\<close>

definition strtoul :: "string \<Rightarrow> int \<times> string \<times> bool" where
  "strtoul s =
     (let (neg, u) = split_sign (dropWhile isspace s);
          ds = takeWhile isdigit u;
          v = int (dec_value ds)
      in if ds = [] then (0, s, False)
         else if v > ULONG_MAX then (ULONG_MAX, dropWhile isdigit u, True)
         else ((if neg then (- v) mod (ULONG_MAX + 1) else v), dropWhile isdigit u, False))"

text \<open>\<open>strrchr\<close>: the text before the last occurrence of \<open>c\<close> and the text after it.\<close>

fun split_last :: "char \<Rightarrow> string \<Rightarrow> (string \<times> string) option" where
  "split_last c [] = None"
| "split_last c (x # xs) =
     (case split_last c xs of
        Some (l, r) \<Rightarrow> Some (x # l, r)
      | None \<Rightarrow> if x = c then Some ([], xs) else None)"

text \<open>\<open>strchr\<close>: the text before the first occurrence of \<open>c\<close> and the text after it.\<close>

fun split_first :: "char \<Rightarrow> string \<Rightarrow> (string \<times> string) option" where
  "split_first c [] = None"
| "split_first c (x # xs) =
     (if x = c then Some ([], xs)
      else case split_first c xs of Some (l, r) \<Rightarrow> Some (x # l, r) | None \<Rightarrow> None)"

text \<open>\<open>strstr (s, pat) != NULL\<close>.\<close>

fun contains :: "string \<Rightarrow> string \<Rightarrow> bool" where
  "contains pat [] = (pat = [])"
| "contains pat (x # xs) = (prefix pat (x # xs) \<or> contains pat xs)"

text \<open>\<open>snprintf (buf, size, ...)\<close> stores at most \<open>size - 1\<close> bytes of the text.\<close>

definition snprintf_trunc :: "nat \<Rightarrow> string \<Rightarrow> string" where
  "snprintf_trunc sz s = take (sz - 1) s"

text \<open>A buffer read as a C string ends at its first NUL byte.\<close>

definition c_string :: "bytes \<Rightarrow> string" where
  "c_string b = takeWhile (\<lambda>c. c \<noteq> CHR 0x00) b"

lemma split_last_Some: "split_last c s = Some (l, r) \<longleftrightarrow> s = l @ c # r \<and> c \<notin> set r"
proof (induction s arbitrary: l r)
  case Nil
  then show ?case by simp
next
  case (Cons x xs)
  show ?case
  proof (cases "split_last c xs")
    case None
    then have "c \<notin> set xs"
      using Cons.IH by (metis option.distinct(1) split_list_last)
    with None show ?thesis by (cases l) auto
  next
    case (Some p)
    then obtain l' r' where p: "split_last c xs = Some (l', r')" by (cases p) auto
    then have "xs = l' @ c # r'" "c \<notin> set r'" using Cons.IH by auto
    with p Cons.IH show ?thesis by (cases l) auto
  qed
qed

lemma split_last_None: "split_last c s = None \<longleftrightarrow> c \<notin> set s"
  by (induction s) (auto split: option.splits)

lemma split_first_Some: "split_first c s = Some (l, r) \<longleftrightarrow> s = l @ c # r \<and> c \<notin> set l"
proof (induction s arbitrary: l r)
  case Nil
  then show ?case by simp
next
  case (Cons x xs)
  show ?case
  proof (cases l)
    case Nil
    then show ?thesis by (auto split: option.splits)
  next
    case (Cons y ys)
    then show ?thesis
      using Cons.IH [of ys r] by (cases "split_first c xs") auto
  qed
qed

lemma split_first_None: "split_first c s = None \<longleftrightarrow> c \<notin> set s"
  by (induction s) (auto split: option.splits)

lemma contains_iff: "contains pat s \<longleftrightarrow> (\<exists>l r. s = l @ pat @ r)"
proof (induction s)
  case Nil
  then show ?case by auto
next
  case (Cons x xs)
  then show ?case
    by (auto simp: prefix_def) (metis append_Cons append_Nil neq_Nil_conv list.inject)+
qed

lemma length_snprintf_trunc [wcat_bounds]: "0 < sz \<Longrightarrow> length (snprintf_trunc sz s) < sz"
  by (simp add: snprintf_trunc_def)

lemma snprintf_trunc_fits: "length s < sz \<Longrightarrow> snprintf_trunc sz s = s"
  by (simp add: snprintf_trunc_def)

lemma c_string_id: "CHR 0x00 \<notin> set b \<Longrightarrow> c_string b = b"
  by (simp add: c_string_def takeWhile_eq_all_conv) blast

text \<open>What \<open>strtol\<close> computes on a text of the shape it accepts.\<close>

lemma split_sign_digits:
  "list_all isdigit ds \<Longrightarrow> ds \<noteq> [] \<Longrightarrow> split_sign ds = (False, ds)"
  by (cases ds) (auto simp: isdigit_def)

lemma takeWhile_list_all: "list_all P xs \<Longrightarrow> takeWhile P xs = xs"
  by (induction xs) auto

lemma dropWhile_list_all: "list_all P xs \<Longrightarrow> dropWhile P xs = []"
  by (induction xs) auto

lemma dropWhile_space_digits:
  "list_all isdigit ds \<Longrightarrow> dropWhile isspace ds = ds"
  by (cases ds) (auto dest: isdigit_not_space)

lemma strtol_digits:
  assumes "list_all isdigit ds" and "ds \<noteq> []" and "int (dec_value ds) \<le> LONG_MAX"
  shows "strtol ds = (int (dec_value ds), [], False)"
  using assms
  by (simp add: strtol_def Let_def dropWhile_space_digits split_sign_digits takeWhile_list_all
      dropWhile_list_all c_limits)

lemma strtol_dec_string:
  "int n \<le> LONG_MAX \<Longrightarrow> strtol (dec_string n) = (int n, [], False)"
  using strtol_digits [OF dec_string_digits dec_string_not_Nil(1)] by simp

lemma strtol_range [wcat_bounds]:
  "strtol s = (v, e, r) \<Longrightarrow> LONG_MIN \<le> v \<and> v \<le> LONG_MAX"
  by (auto simp: strtol_def Let_def c_limits split: prod.splits if_splits)

text \<open>A complete conversion: the text is white space, a sign and at least one digit.\<close>

definition int_text :: "string \<Rightarrow> bool \<Rightarrow> string \<Rightarrow> bool" where
  "int_text s neg ds \<longleftrightarrow>
     ds \<noteq> [] \<and> list_all isdigit ds \<and>
     (\<exists>ws sg. s = ws @ sg @ ds \<and> list_all isspace ws \<and>
        (sg = ''-'' \<and> neg \<or> (sg = ''+'' \<or> sg = []) \<and> \<not> neg))"

lemma int_text_parts:
  assumes "int_text s neg ds"
  shows "split_sign (dropWhile isspace s) = (neg, ds)"
    and "takeWhile isdigit ds = ds" and "dropWhile isdigit ds = []" and "ds \<noteq> []"
proof -
  from assms obtain ws sg where s: "s = ws @ sg @ ds" and ws: "list_all isspace ws"
    and sg: "sg = ''-'' \<and> neg \<or> (sg = ''+'' \<or> sg = []) \<and> \<not> neg"
    and ds: "ds \<noteq> []" "list_all isdigit ds"
    by (auto simp: int_text_def)
  have drop: "dropWhile isspace s = dropWhile isspace (sg @ ds)"
    using ws by (simp add: s dropWhile_append2 list_all_iff)
  have keep: "dropWhile isspace (sg @ ds) = sg @ ds"
    using sg ds by (auto simp: dropWhile_space_digits isspace_def)
  show "split_sign (dropWhile isspace s) = (neg, ds)"
    unfolding drop keep using sg split_sign_digits [OF ds(2,1)] by auto
  show "takeWhile isdigit ds = ds" "dropWhile isdigit ds = []" "ds \<noteq> []"
    using ds by (simp_all add: takeWhile_list_all dropWhile_list_all)
qed

lemma int_textI:
  assumes "split_sign (dropWhile isspace s) = (neg, u)" and "takeWhile isdigit u \<noteq> []"
    and "dropWhile isdigit u = []"
  shows "int_text s neg (takeWhile isdigit u)"
proof -
  have u: "takeWhile isdigit u = u"
    using assms(3) by (simp add: dropWhile_eq_Nil_conv takeWhile_eq_all_conv)
  have dig: "list_all isdigit u"
    using assms(3) by (simp add: dropWhile_eq_Nil_conv list_all_iff)
  have ws: "list_all isspace (takeWhile isspace s)"
    by (auto simp: list_all_iff dest: set_takeWhileD)
  have s: "s = takeWhile isspace s @ dropWhile isspace s" by simp
  obtain sg where "dropWhile isspace s = sg @ u"
    and "sg = ''-'' \<and> neg \<or> (sg = ''+'' \<or> sg = []) \<and> \<not> neg"
    using assms(1,2) u by (cases "dropWhile isspace s") (auto split: if_splits)
  with s ws dig u assms(2) show ?thesis
    unfolding int_text_def by (metis append_assoc)
qed

lemma strtol_complete:
  "(let (v, e, erange) = strtol s in e \<noteq> s \<and> e = [] \<and> \<not> erange \<and> v = n) \<longleftrightarrow>
   (\<exists>neg ds. int_text s neg ds \<and> n = (if neg then - int (dec_value ds) else int (dec_value ds))
      \<and> LONG_MIN \<le> n \<and> n \<le> LONG_MAX)"
  (is "?L \<longleftrightarrow> ?R")
proof
  assume ?L
  obtain neg u where nu: "split_sign (dropWhile isspace s) = (neg, u)" by force
  with \<open>?L\<close> have "takeWhile isdigit u \<noteq> []" "dropWhile isdigit u = []"
    by (auto simp: strtol_def Let_def split: if_splits)
  with nu have "int_text s neg (takeWhile isdigit u)" by (rule int_textI)
  with \<open>?L\<close> nu show ?R
    by (auto simp: strtol_def Let_def split: if_splits)
next
  assume ?R
  then obtain neg ds where t: "int_text s neg ds"
    and n: "n = (if neg then - int (dec_value ds) else int (dec_value ds))"
    and b: "LONG_MIN \<le> n" "n \<le> LONG_MAX" by blast
  from t have s: "s \<noteq> []" by (auto simp: int_text_def)
  have "strtol s = (n, [], False)"
    unfolding strtol_def Let_def int_text_parts(1) [OF t] prod.case int_text_parts(2,3) [OF t]
    using int_text_parts(4) [OF t] n b by auto
  with s show ?L by simp
qed

end
