(* ===== verification/Wcat_Sys.thy ===== *)
theory Wcat_Sys
  imports Wcat_Prelude
begin

text \<open>
  The operating system as the sources see it. POSIX calls are not part of the program, so their
  answers are data of the state: for every descriptor the answers that successive \<open>read\<close>,
  \<open>write\<close> and \<open>accept\<close> calls will give, and the answers of successive \<open>poll\<close> and \<open>close\<close>
  calls. Every theorem quantifies over these scripts, hence over every finite behaviour of the
  kernel and of the peers. When a script is used up, \<open>read\<close> reports end of file, \<open>write\<close>
  accepts everything, \<open>accept\<close> and \<open>poll\<close> fail: the run of a program that stops after finitely
  many calls never gets there.

  The state also records what the calls did: the bytes each descriptor has delivered (\<open>got\<close>)
  and accepted (\<open>sent\<close>), the open descriptors, the text on standard error. The \<open>volatile\<close>
  flag \<open>wcat_stop\<close> of signalx.c is a field; the script \<open>sig_q\<close> says before which reads of the
  flag a signal arrives.
\<close>

section \<open>Errors, events and answers\<close>

datatype errno =
    EINTR | EAGAIN | EIO | EPIPE | EBADF | ENOMEM | ENOTSOCK | EINVAL | EINPROGRESS | ETIMEDOUT
  | ENAMETOOLONG | EMSGSIZE | ECONNABORTED | ECONNREFUSED | ECONNRESET | EAFNOSUPPORT | ENOTSUP
  | EMFILE | ENOENT | ECHILD

datatype pflag = POLLIN | POLLOUT | POLLERR | POLLHUP | POLLNVAL

datatype rd_ans = RdData bytes | RdErr errno
datatype wr_ans = WrOk nat | WrErr errno
datatype poll_ans = PollErr errno | PollReady "fd \<Rightarrow> pflag set"

text \<open>The address \<open>getpeername\<close> reports for a connected descriptor.\<close>

datatype peer = PeerInet "u8 list" | PeerInet6 "u8 list" | PeerOther | PeerErr errno

text \<open>\<open>accept\<close>: an error, or a new connection with its peer and its numeric host and port.\<close>

datatype acc_ans = AccErr errno | AccOk peer string string

text \<open>
  Socket addresses: a resolved internet address (opaque text), the path of a UNIX socket, the
  context and port of a VM socket. \<open>getaddrinfo\<close> gives an error text or a list of addresses.
\<close>

datatype sockaddr = SaInet string | SaUnix string | SaVm u32 u32
datatype gai_ans = GaiErr string | GaiOk "sockaddr list"

text \<open>
  The TLS library, as the sources call it: an \<open>SSL_read\<close> delivers plaintext, asks to be called
  again (\<open>SSL_ERROR_WANT_READ\<close> or \<open>_WRITE\<close>), reports the closure of the peer or fails; an
  \<open>SSL_write\<close> takes some bytes (\<open>SslWrote k\<close> is a result of \<open>k + 1\<close>, since 0 is an error), asks
  to be called again or fails; ending the stream succeeds, asks to be called again or fails.
\<close>

datatype ssl_want = WANT_READ | WANT_WRITE
datatype ssl_rd = SslData bytes | SslRdWant ssl_want | SslClosed | SslRdFatal
datatype ssl_wr = SslWrote nat | SslWrWant ssl_want | SslWrFatal
datatype ssl_end = SslEnded | SslEndWant ssl_want | SslEndFatal

text \<open>The hints the sources pass: address family, socket type with protocol, \<open>AI_PASSIVE\<close>.\<close>

datatype af = AF_UNSPEC | AF_INET | AF_INET6
datatype sock_kind = TCP_STREAM | SCTP_STREAM | UDP_DGRAM

record gai_hints =
  ai_host :: "string option"
  ai_service :: "string option"
  ai_family :: af
  ai_kind :: sock_kind
  ai_passive :: bool

record sys =
  rd_q :: "fd \<Rightarrow> rd_ans list"
  wr_q :: "fd \<Rightarrow> wr_ans list"
  got :: "fd \<Rightarrow> bytes"
  sent :: "fd \<Rightarrow> bytes"
  poll_q :: "poll_ans list"
  acc_q :: "fd \<Rightarrow> acc_ans list"
  close_q :: "errno option list"
  gai_q :: "gai_ans list"
  gai_asked :: "gai_hints list"
  socket_q :: "errno option list"
  connect_q :: "errno option list"
  sockopt_q :: "(errno + errno option) list"
  bind_q :: "errno option list"
  listen_q :: "errno option list"
  open_q :: "errno option list"
  alloc_q :: "bool list"
  ssl_ok_q :: "bool list"
  ssl_verify_q :: "string option list"
  ssl_err_q :: "string option list"
  ssl_ev_q :: "bool list"
  ssl_pend_q :: "nat list"
  ssl_end_q :: "ssl_end list"
  ssl_rd_q :: "fd \<Rightarrow> ssl_rd list"
  ssl_wr_q :: "fd \<Rightarrow> ssl_wr list"
  shutdown_q :: "errno option list"
  sig_q :: "bool list"
  wcat_stop :: bool
  open_fds :: "fd list"
  peer_of :: "fd \<Rightarrow> peer"
  nonblocking :: "fd list"
  cloexec :: "fd list"
  sock_peer :: "fd \<Rightarrow> sockaddr option"
  sock_name :: "fd \<Rightarrow> sockaddr option"
  shut_wr :: "fd list"
  listening :: "(fd \<times> int) list"
  unlinked :: "string list"
  errno_of :: errno
  stderr_out :: string
  g_json :: bool
  g_verbose :: bool
  clock :: int
  strerror :: "errno \<Rightarrow> string"
  pipe_q :: "errno option list"
  fork_q :: "(errno + nat) list"
  wait_q :: "(errno + int) list"
  children :: "int list"
  tty :: "fd \<Rightarrow> bool"
  term_q :: "bool list"
  term_raw :: bool
  ssl_tmo_q :: "(int \<times> int) option list"

definition sys0 :: sys where
  "sys0 = \<lparr>rd_q = (\<lambda>_. []), wr_q = (\<lambda>_. []), got = (\<lambda>_. []), sent = (\<lambda>_. []),
     poll_q = [], acc_q = (\<lambda>_. []), close_q = [], gai_q = [], gai_asked = [], socket_q = [], connect_q = [],
     sockopt_q = [], bind_q = [], listen_q = [], open_q = [], alloc_q = [], ssl_ok_q = [], ssl_verify_q = [], ssl_err_q = [],
     ssl_ev_q = [], ssl_pend_q = [], ssl_end_q = [], ssl_rd_q = (\<lambda>_. []), ssl_wr_q = (\<lambda>_. []),
     shutdown_q = [], sig_q = [], wcat_stop = False,
     open_fds = [0, 1, 2], peer_of = (\<lambda>_. PeerErr ENOTSOCK), nonblocking = [],
     cloexec = [], sock_peer = (\<lambda>_. None), sock_name = (\<lambda>_. None), shut_wr = [], listening = [], unlinked = [],
     errno_of = ENOENT, stderr_out = [], g_json = False, g_verbose = False, clock = 0,
     strerror = (\<lambda>_. ''error''), pipe_q = [], fork_q = [], wait_q = [], children = [],
     tty = (\<lambda>_. False), term_q = [], term_raw = False, ssl_tmo_q = []\<rparr>"

section \<open>Descriptors\<close>

text \<open>
  A new descriptor is the lowest number that is not open; it starts without the flags, addresses
  and history of an earlier descriptor of that number.
\<close>

definition fresh_fd :: "sys \<Rightarrow> fd" where
  "fresh_fd s = int (hd (filter (\<lambda>n. int n \<notin> set (open_fds s)) [0..<Suc (length (open_fds s))]))"

definition add_fd :: "fd \<Rightarrow> sys \<Rightarrow> sys" where
  "add_fd fd s =
     s\<lparr>open_fds := open_fds s @ [fd], sent := (sent s)(fd := []), got := (got s)(fd := []),
       nonblocking := removeAll fd (nonblocking s), cloexec := removeAll fd (cloexec s),
       shut_wr := removeAll fd (shut_wr s),
       listening := filter (\<lambda>l. fst l \<noteq> fd) (listening s), sock_peer := (sock_peer s)(fd := None),
       sock_name := (sock_name s)(fd := None)\<rparr>"

lemma fresh_candidates:
  "filter (\<lambda>n. int n \<notin> set xs) [0..<Suc (length xs)] \<noteq> []"
proof
  assume none: "filter (\<lambda>n. int n \<notin> set xs) [0..<Suc (length xs)] = []"
  have sub: "int ` {0..<Suc (length xs)} \<subseteq> set xs"
  proof
    fix x
    assume "x \<in> int ` {0..<Suc (length xs)}"
    then obtain n where n: "x = int n" "n < Suc (length xs)" by fastforce
    then have "n \<in> set [0..<Suc (length xs)]" by (simp del: upt_Suc)
    with none n show "x \<in> set xs" unfolding filter_empty_conv by blast
  qed
  have "Suc (length xs) = card (int ` {0..<Suc (length xs)})"
    by (simp add: card_image)
  also have "\<dots> \<le> card (set xs)" using sub by (rule card_mono [rotated]) simp
  also have "\<dots> \<le> length xs" by (rule card_length)
  finally show False by simp
qed

lemma fresh_fd_not_open [simp]: "fresh_fd s \<notin> set (open_fds s)"
  using hd_in_set [OF fresh_candidates [of "open_fds s"]] by (simp add: fresh_fd_def del: upt_Suc)

lemma fresh_fd_nonneg [simp]: "0 \<le> fresh_fd s"
  by (simp add: fresh_fd_def)

text \<open>
  \<open>close\<close> releases the descriptor even when it reports an error, as on Linux; a second call on
  it reports \<open>EBADF\<close>.
\<close>

definition sys_close :: "fd \<Rightarrow> sys \<Rightarrow> int \<times> sys" where
  "sys_close fd s =
     (if fd \<notin> set (open_fds s) then (- 1, s\<lparr>errno_of := EBADF\<rparr>)
      else let s' = s\<lparr>open_fds := removeAll fd (open_fds s), close_q := tl (close_q s)\<rparr>
           in case close_q s of
                Some e # _ \<Rightarrow> (- 1, s'\<lparr>errno_of := e\<rparr>)
              | _ \<Rightarrow> (0, s'))"

section \<open>Reading and writing\<close>

text \<open>
  \<open>read\<close> gives \<open>None\<close> for -1 and otherwise the bytes stored; no bytes is end of file. Data
  beyond the requested length stays for the next call.
\<close>

definition sys_read :: "fd \<Rightarrow> nat \<Rightarrow> sys \<Rightarrow> bytes option \<times> sys" where
  "sys_read fd len s =
     (case rd_q s fd of
        [] \<Rightarrow> (Some [], s)
      | RdErr e # q \<Rightarrow> (None, s\<lparr>rd_q := (rd_q s)(fd := q), errno_of := e\<rparr>)
      | RdData d # q \<Rightarrow>
          (Some (take len d),
           s\<lparr>rd_q := (rd_q s)(fd := (if length d \<le> len then q else RdData (drop len d) # q)),
             got := (got s)(fd := got s fd @ take len d)\<rparr>))"

definition sys_write :: "fd \<Rightarrow> bytes \<Rightarrow> sys \<Rightarrow> int \<times> sys" where
  "sys_write fd buf s =
     (case wr_q s fd of
        [] \<Rightarrow> (int (length buf), s\<lparr>sent := (sent s)(fd := sent s fd @ buf)\<rparr>)
      | WrErr e # q \<Rightarrow> (- 1, s\<lparr>wr_q := (wr_q s)(fd := q), errno_of := e\<rparr>)
      | WrOk k # q \<Rightarrow>
          (int (min k (length buf)),
           s\<lparr>wr_q := (wr_q s)(fd := q), sent := (sent s)(fd := sent s fd @ take k buf)\<rparr>))"

text \<open>The loop \<open>do n = read (...); while (n < 0 && errno == EINTR);\<close> of several sources.\<close>

lemma sys_read_None: "sys_read fd len s = (None, s') \<Longrightarrow> length (rd_q s' fd) < length (rd_q s fd)"
  by (auto simp: sys_read_def split: list.splits rd_ans.splits)

function read_retry :: "fd \<Rightarrow> nat \<Rightarrow> sys \<Rightarrow> bytes option \<times> sys" where
  "read_retry fd len s =
     (case sys_read fd len s of
        (None, s') \<Rightarrow> if errno_of s' = EINTR then read_retry fd len s' else (None, s')
      | (Some b, s') \<Rightarrow> (Some b, s'))"
  by pat_completeness auto
termination
  by (relation "measure (\<lambda>(fd, len, s). length (rd_q s fd))")
    (auto dest!: sym [of "(None, _)"] sys_read_None)

declare read_retry.simps [simp del]

section \<open>Waiting\<close>

text \<open>
  \<open>poll\<close> on a list of descriptors and requested events: the number of descriptors with events
  (-1 on error) and the returned events, in the order of the list. A negative descriptor is
  ignored, and error conditions are reported whether requested or not.
\<close>

definition poll_revents :: "(fd \<Rightarrow> pflag set) \<Rightarrow> fd \<times> pflag set \<Rightarrow> pflag set" where
  "poll_revents f p = (if fst p < 0 then {} else f (fst p) \<inter> (snd p \<union> {POLLERR, POLLHUP, POLLNVAL}))"

definition sys_poll :: "(fd \<times> pflag set) list \<Rightarrow> sys \<Rightarrow> int \<times> pflag set list \<times> sys" where
  "sys_poll pfds s =
     (case poll_q s of
        [] \<Rightarrow> (- 1, map (\<lambda>_. {}) pfds, s\<lparr>errno_of := ENOMEM\<rparr>)
      | PollErr e # q \<Rightarrow> (- 1, map (\<lambda>_. {}) pfds, s\<lparr>poll_q := q, errno_of := e\<rparr>)
      | PollReady f # q \<Rightarrow>
          (let rev = map (poll_revents f) pfds
           in (int (length (filter (\<lambda>r. r \<noteq> {}) rev)), rev, s\<lparr>poll_q := q\<rparr>)))"

definition sys_accept :: "fd \<Rightarrow> sys \<Rightarrow> (fd \<times> string \<times> string) option \<times> sys" where
  "sys_accept listener s =
     (case acc_q s listener of
        [] \<Rightarrow> (None, s\<lparr>errno_of := EMFILE\<rparr>)
      | AccErr e # q \<Rightarrow> (None, s\<lparr>acc_q := (acc_q s)(listener := q), errno_of := e\<rparr>)
      | AccOk p h sv # q \<Rightarrow>
          (let fd = fresh_fd s
           in (Some (fd, h, sv),
               add_fd fd (s\<lparr>acc_q := (acc_q s)(listener := q), peer_of := (peer_of s)(fd := p)\<rparr>))))"

section \<open>Making sockets\<close>

text \<open>
  A call that only succeeds or fails takes its answer from a script: \<open>None\<close> for 0, \<open>Some e\<close>
  for -1 with \<open>errno\<close> set. \<open>EMFILE\<close> and the like stand for a script that is used up.
\<close>

definition sys_gai :: "gai_hints \<Rightarrow> sys \<Rightarrow> gai_ans \<times> sys" where
  "sys_gai h s =
     (case gai_q s of
        [] \<Rightarrow> (GaiErr ''no answer'', s\<lparr>gai_asked := gai_asked s @ [h]\<rparr>)
      | a # q \<Rightarrow> (a, s\<lparr>gai_q := q, gai_asked := gai_asked s @ [h]\<rparr>))"

definition sys_socket :: "sys \<Rightarrow> int \<times> sys" where
  "sys_socket s =
     (case socket_q s of
        [] \<Rightarrow> (- 1, s\<lparr>errno_of := EMFILE\<rparr>)
      | Some e # q \<Rightarrow> (- 1, s\<lparr>socket_q := q, errno_of := e\<rparr>)
      | None # q \<Rightarrow> (fresh_fd s, add_fd (fresh_fd s) (s\<lparr>socket_q := q\<rparr>)))"

text \<open>A connection that is in progress has its peer too; \<open>SO_ERROR\<close> tells whether it failed.\<close>

definition sys_connect :: "fd \<Rightarrow> sockaddr \<Rightarrow> sys \<Rightarrow> int \<times> sys" where
  "sys_connect fd a s =
     (case connect_q s of
        [] \<Rightarrow> (- 1, s\<lparr>errno_of := ECONNREFUSED\<rparr>)
      | Some e # q \<Rightarrow>
          (- 1, s\<lparr>connect_q := q, errno_of := e,
                  sock_peer := (if e = EINPROGRESS then (sock_peer s)(fd := Some a) else sock_peer s)\<rparr>)
      | None # q \<Rightarrow> (0, s\<lparr>connect_q := q, sock_peer := (sock_peer s)(fd := Some a)\<rparr>))"

definition sys_so_error :: "fd \<Rightarrow> sys \<Rightarrow> (errno + errno option) \<times> sys" where
  "sys_so_error fd s =
     (case sockopt_q s of [] \<Rightarrow> (Inl ENOTSOCK, s) | a # q \<Rightarrow> (a, s\<lparr>sockopt_q := q\<rparr>))"

definition sys_bind :: "fd \<Rightarrow> sockaddr \<Rightarrow> sys \<Rightarrow> int \<times> sys" where
  "sys_bind fd a s =
     (case bind_q s of
        [] \<Rightarrow> (- 1, s\<lparr>errno_of := EINVAL\<rparr>)
      | Some e # q \<Rightarrow> (- 1, s\<lparr>bind_q := q, errno_of := e\<rparr>)
      | None # q \<Rightarrow> (0, s\<lparr>bind_q := q, sock_name := (sock_name s)(fd := Some a)\<rparr>))"

definition sys_listen :: "fd \<Rightarrow> int \<Rightarrow> sys \<Rightarrow> int \<times> sys" where
  "sys_listen fd backlog s =
     (case listen_q s of
        [] \<Rightarrow> (- 1, s\<lparr>errno_of := EINVAL\<rparr>)
      | Some e # q \<Rightarrow> (- 1, s\<lparr>listen_q := q, errno_of := e\<rparr>)
      | None # q \<Rightarrow> (0, s\<lparr>listen_q := q, listening := (fd, backlog) # listening s\<rparr>))"

text \<open>\<open>open\<close> of a file.\<close>

definition sys_open :: "sys \<Rightarrow> int \<times> sys" where
  "sys_open s =
     (case open_q s of
        [] \<Rightarrow> (- 1, s\<lparr>errno_of := ENOENT\<rparr>)
      | Some e # q \<Rightarrow> (- 1, s\<lparr>open_q := q, errno_of := e\<rparr>)
      | None # q \<Rightarrow> (fresh_fd s, add_fd (fresh_fd s) (s\<lparr>open_q := q\<rparr>)))"

text \<open>\<open>malloc\<close> and \<open>realloc\<close>: whether memory was available; it is once the script is used up.\<close>

definition sys_alloc :: "sys \<Rightarrow> bool \<times> sys" where
  "sys_alloc s = (case alloc_q s of [] \<Rightarrow> (True, s) | b # q \<Rightarrow> (b, s\<lparr>alloc_q := q\<rparr>))"

text \<open>\<open>shutdown (fd, SHUT_WR)\<close>.\<close>

definition sys_shutdown_wr :: "fd \<Rightarrow> sys \<Rightarrow> int \<times> sys" where
  "sys_shutdown_wr fd s =
     (case shutdown_q s of
        Some e # q \<Rightarrow> (- 1, s\<lparr>shutdown_q := q, errno_of := e\<rparr>)
      | _ \<Rightarrow> (0, s\<lparr>shutdown_q := tl (shutdown_q s), shut_wr := fd # shut_wr s\<rparr>))"

section \<open>Processes and the terminal\<close>

text \<open>
  A pipe has a read end and a write end. \<open>fork\<close> is seen from the parent: a failure or the number
  of the child, which is positive (\<open>Inr n\<close> in the script is the child \<open>n + 1\<close>) and is one of
  \<open>children\<close> until it has been waited for. \<open>forkpty\<close> also gives the master of a terminal.
\<close>

definition sys_pipe :: "sys \<Rightarrow> (fd \<times> fd) option \<times> sys" where
  "sys_pipe s =
     (case pipe_q s of
        [] \<Rightarrow> (None, s\<lparr>errno_of := EMFILE\<rparr>)
      | Some e # q \<Rightarrow> (None, s\<lparr>pipe_q := q, errno_of := e\<rparr>)
      | None # q \<Rightarrow>
          (let s1 = add_fd (fresh_fd s) (s\<lparr>pipe_q := q\<rparr>)
           in (Some (fresh_fd s, fresh_fd s1), add_fd (fresh_fd s1) s1)))"

definition sys_fork :: "sys \<Rightarrow> int \<times> sys" where
  "sys_fork s =
     (case fork_q s of
        [] \<Rightarrow> (- 1, s\<lparr>errno_of := ENOMEM\<rparr>)
      | Inl e # q \<Rightarrow> (- 1, s\<lparr>fork_q := q, errno_of := e\<rparr>)
      | Inr n # q \<Rightarrow> (int n + 1, s\<lparr>fork_q := q, children := (int n + 1) # children s\<rparr>))"

definition sys_forkpty :: "sys \<Rightarrow> int \<times> fd \<times> sys" where
  "sys_forkpty s =
     (let (pid, s1) = sys_fork s
      in if pid < 0 then (pid, - 1, s1) else (pid, fresh_fd s1, add_fd (fresh_fd s1) s1))"

definition sys_waitpid :: "int \<Rightarrow> sys \<Rightarrow> int option \<times> sys" where
  "sys_waitpid pid s =
     (case wait_q s of
        [] \<Rightarrow> (None, s\<lparr>errno_of := ECHILD\<rparr>)
      | Inl e # q \<Rightarrow> (None, s\<lparr>wait_q := q, errno_of := e\<rparr>)
      | Inr status # q \<Rightarrow> (Some status, s\<lparr>wait_q := q, children := remove1 pid (children s)\<rparr>))"

text \<open>
  \<open>tcgetattr\<close> and \<open>tcsetattr\<close> succeed or fail; \<open>term_raw\<close> says whether the terminal has been
  taken out of its saved mode.
\<close>

definition sys_tcgetattr :: "sys \<Rightarrow> bool \<times> sys" where
  "sys_tcgetattr s = (case term_q s of [] \<Rightarrow> (False, s) | b # q \<Rightarrow> (b, s\<lparr>term_q := q\<rparr>))"

definition sys_tcsetattr :: "bool \<Rightarrow> sys \<Rightarrow> bool \<times> sys" where
  "sys_tcsetattr raw s =
     (case term_q s of
        [] \<Rightarrow> (True, s\<lparr>term_raw := raw\<rparr>)
      | b # q \<Rightarrow> (b, s\<lparr>term_q := q, term_raw := (if b then raw else term_raw s)\<rparr>))"

section \<open>The TLS library\<close>

text \<open>
  A set-up call that must return 1, the verification result of the handshake (\<open>None\<close> is
  \<open>X509_V_OK\<close>, otherwise the text of the error), and the text of the error queue. The plaintext of a TLS connection is recorded in \<open>got\<close> and \<open>sent\<close> of its
  descriptor.
\<close>

definition ssl_call :: "sys \<Rightarrow> bool \<times> sys" where
  "ssl_call s = (case ssl_ok_q s of [] \<Rightarrow> (False, s) | b # q \<Rightarrow> (b, s\<lparr>ssl_ok_q := q\<rparr>))"

definition ssl_verify :: "sys \<Rightarrow> string option \<times> sys" where
  "ssl_verify s = (case ssl_verify_q s of [] \<Rightarrow> (Some ''no result'', s) | r # q \<Rightarrow> (r, s\<lparr>ssl_verify_q := q\<rparr>))"

definition ssl_error_text :: "sys \<Rightarrow> string option \<times> sys" where
  "ssl_error_text s = (case ssl_err_q s of [] \<Rightarrow> (None, s) | e # q \<Rightarrow> (e, s\<lparr>ssl_err_q := q\<rparr>))"

definition ssl_handle_events :: "sys \<Rightarrow> bool \<times> sys" where
  "ssl_handle_events s = (case ssl_ev_q s of [] \<Rightarrow> (True, s) | b # q \<Rightarrow> (b, s\<lparr>ssl_ev_q := q\<rparr>))"

definition ssl_pending :: "sys \<Rightarrow> nat \<times> sys" where
  "ssl_pending s = (case ssl_pend_q s of [] \<Rightarrow> (0, s) | n # q \<Rightarrow> (n, s\<lparr>ssl_pend_q := q\<rparr>))"

definition ssl_finish :: "sys \<Rightarrow> ssl_end \<times> sys" where
  "ssl_finish s = (case ssl_end_q s of [] \<Rightarrow> (SslEndFatal, s) | a # q \<Rightarrow> (a, s\<lparr>ssl_end_q := q\<rparr>))"

definition ssl_read :: "fd \<Rightarrow> nat \<Rightarrow> sys \<Rightarrow> ssl_rd \<times> sys" where
  "ssl_read fd len s =
     (case ssl_rd_q s fd of
        [] \<Rightarrow> (SslClosed, s)
      | SslData d # q \<Rightarrow>
          if d = [] \<or> len = 0 then (SslClosed, s\<lparr>ssl_rd_q := (ssl_rd_q s)(fd := q)\<rparr>)
          else (SslData (take len d),
                s\<lparr>ssl_rd_q := (ssl_rd_q s)(fd := (if length d \<le> len then q else SslData (drop len d) # q)),
                  got := (got s)(fd := got s fd @ take len d)\<rparr>)
      | a # q \<Rightarrow> (a, s\<lparr>ssl_rd_q := (ssl_rd_q s)(fd := q)\<rparr>))"

definition ssl_write :: "fd \<Rightarrow> bytes \<Rightarrow> sys \<Rightarrow> ssl_wr \<times> sys" where
  "ssl_write fd buf s =
     (case ssl_wr_q s fd of
        [] \<Rightarrow> (SslWrote (length buf - 1), s\<lparr>sent := (sent s)(fd := sent s fd @ buf)\<rparr>)
      | SslWrote k # q \<Rightarrow>
          (SslWrote (min k (length buf - 1)),
           s\<lparr>ssl_wr_q := (ssl_wr_q s)(fd := q), sent := (sent s)(fd := sent s fd @ take (k + 1) buf)\<rparr>)
      | a # q \<Rightarrow> (a, s\<lparr>ssl_wr_q := (ssl_wr_q s)(fd := q)\<rparr>))"

section \<open>Signals\<close>

text \<open>signalx.c: the handler of SIGINT and SIGTERM.\<close>

definition on_signal :: "sys \<Rightarrow> sys" where
  "on_signal s = s\<lparr>wcat_stop := True\<rparr>"

text \<open>One read of the flag by a loop condition; a signal may have arrived just before it.\<close>

definition observe_stop :: "sys \<Rightarrow> bool \<times> sys" where
  "observe_stop s =
     (let s' = (case sig_q s of [] \<Rightarrow> s
                | b # q \<Rightarrow> (if b then on_signal (s\<lparr>sig_q := q\<rparr>) else s\<lparr>sig_q := q\<rparr>))
      in (wcat_stop s', s'))"

section \<open>What the calls leave alone\<close>

lemma sys_read_frame [sys_frame]:
  "sys_read fd len s = (r, s') \<Longrightarrow>
     sent s' = sent s \<and> wr_q s' = wr_q s \<and> open_fds s' = open_fds s \<and> wcat_stop s' = wcat_stop s
     \<and> peer_of s' = peer_of s \<and> stderr_out s' = stderr_out s \<and> poll_q s' = poll_q s
     \<and> sig_q s' = sig_q s \<and> acc_q s' = acc_q s \<and> nonblocking s' = nonblocking s
     \<and> close_q s' = close_q s
     \<and> (\<forall>f. f \<noteq> fd \<longrightarrow> got s' f = got s f \<and> rd_q s' f = rd_q s f)
     \<and> got s' fd = got s fd @ (case r of None \<Rightarrow> [] | Some b \<Rightarrow> b)"
  by (auto simp: sys_read_def split: list.splits rd_ans.splits)

lemma sys_read_length [wcat_bounds]: "sys_read fd len s = (Some b, s') \<Longrightarrow> length b \<le> len"
  by (auto simp: sys_read_def split: list.splits rd_ans.splits)

lemma read_retry_frame [sys_frame]:
  "read_retry fd len s = (r, s') \<Longrightarrow>
     sent s' = sent s \<and> wr_q s' = wr_q s \<and> open_fds s' = open_fds s \<and> wcat_stop s' = wcat_stop s
     \<and> peer_of s' = peer_of s \<and> stderr_out s' = stderr_out s \<and> poll_q s' = poll_q s
     \<and> sig_q s' = sig_q s \<and> acc_q s' = acc_q s \<and> nonblocking s' = nonblocking s
     \<and> close_q s' = close_q s
     \<and> (\<forall>f. f \<noteq> fd \<longrightarrow> got s' f = got s f \<and> rd_q s' f = rd_q s f)
     \<and> got s' fd = got s fd @ (case r of None \<Rightarrow> [] | Some b \<Rightarrow> b)"
proof (induction fd len s rule: read_retry.induct)
  case (1 fd len s)
  obtain r1 s1 where r1: "sys_read fd len s = (r1, s1)" by force
  note f1 = sys_read_frame [OF r1]
  show ?case
  proof (cases "r1 = None \<and> errno_of s1 = EINTR")
    case True
    then have "read_retry fd len s1 = (r, s')"
      using "1.prems" r1 by (simp add: read_retry.simps [of fd len s])
    with "1.IH" [OF r1 [symmetric]] True f1 show ?thesis by simp
  next
    case False
    then have "r1 = r \<and> s1 = s'"
      using "1.prems" r1 by (auto simp: read_retry.simps [of fd len s] split: option.splits)
    with f1 show ?thesis by simp
  qed
qed

lemma read_retry_length [wcat_bounds]: "read_retry fd len s = (Some b, s') \<Longrightarrow> length b \<le> len"
proof (induction fd len s rule: read_retry.induct)
  case (1 fd len s)
  then show ?case
    by (subst (asm) (2) read_retry.simps)
      (auto split: prod.splits option.splits if_splits dest: sys_read_length)
qed

lemma read_retry_not_EINTR: "read_retry fd len s = (None, s') \<Longrightarrow> errno_of s' \<noteq> EINTR"
proof (induction fd len s rule: read_retry.induct)
  case (1 fd len s)
  then show ?case
    by (subst (asm) (2) read_retry.simps) (auto split: prod.splits option.splits if_splits)
qed

lemma sys_write_frame [sys_frame]:
  "sys_write fd buf s = (n, s') \<Longrightarrow>
     got s' = got s \<and> rd_q s' = rd_q s \<and> open_fds s' = open_fds s \<and> wcat_stop s' = wcat_stop s
     \<and> peer_of s' = peer_of s \<and> stderr_out s' = stderr_out s \<and> poll_q s' = poll_q s
     \<and> sig_q s' = sig_q s \<and> acc_q s' = acc_q s \<and> nonblocking s' = nonblocking s
     \<and> close_q s' = close_q s
     \<and> (\<forall>f. f \<noteq> fd \<longrightarrow> sent s' f = sent s f \<and> wr_q s' f = wr_q s f)
     \<and> sent s' fd = sent s fd @ take (nat n) buf \<and> - 1 \<le> n \<and> n \<le> int (length buf)"
  by (auto simp: sys_write_def min_def split: list.splits wr_ans.splits)

lemma sys_write_queue:
  "sys_write fd buf s = (n, s') \<Longrightarrow> length (wr_q s' fd) \<le> length (wr_q s fd)
     \<and> (n < 0 \<longrightarrow> length (wr_q s' fd) < length (wr_q s fd))"
  by (auto simp: sys_write_def split: list.splits wr_ans.splits)

lemma sys_close_frame [sys_frame]:
  "sys_close fd s = (n, s') \<Longrightarrow>
     got s' = got s \<and> sent s' = sent s \<and> rd_q s' = rd_q s \<and> wr_q s' = wr_q s
     \<and> wcat_stop s' = wcat_stop s \<and> peer_of s' = peer_of s \<and> stderr_out s' = stderr_out s
     \<and> poll_q s' = poll_q s \<and> sig_q s' = sig_q s \<and> acc_q s' = acc_q s
     \<and> nonblocking s' = nonblocking s \<and> open_fds s' = removeAll fd (open_fds s)
     \<and> children s' = children s \<and> term_raw s' = term_raw s \<and> term_q s' = term_q s"
  by (auto simp: sys_close_def Let_def split: list.splits option.splits if_splits)

end
