(* ===== verification/Wcat_Config.thy ===== *)
theory Wcat_Config
  imports Wcat_Sys
begin

text \<open>
  The data of include/cli.h: the command's mode and the configuration record that the command
  line parser fills and every other component reads. A \<open>const char *\<close> field is a
  \<open>string option\<close>, with \<open>None\<close> for NULL.
\<close>

datatype wcat_mode =
    WCAT_MODE_NONE | WCAT_MODE_CONNECT | WCAT_MODE_LISTEN | WCAT_MODE_SEND | WCAT_MODE_RECV
  | WCAT_MODE_RELAY | WCAT_MODE_BROKER | WCAT_MODE_PROXY

record wcat_config =
  mode :: wcat_mode
  host :: cstr
  port :: cstr
  file_path :: cstr
  left :: cstr
  right :: cstr
  exec_path :: cstr
  cert_file :: cstr
  key_file :: cstr
  ca_file :: cstr
  sni :: cstr
  proxy_url :: cstr
  alpn :: cstr
  client_cert_file :: cstr
  client_key_file :: cstr
  allow_list :: cstr
  deny_list :: cstr
  udp :: bool
  tls :: bool
  tls_verify :: bool
  keep_open :: bool
  multi :: bool
  verbose :: bool
  json :: bool
  hex :: bool
  pty :: bool
  chat :: bool
  unix_socket :: bool
  sctp :: bool
  vsock :: bool
  tls_require_client_cert :: bool
  quic :: bool
  family :: af
  timeout_ms :: int
  broker_max_clients :: int
  broker_buffer_bytes :: int

text \<open>The values the enumerators have in C, in the order of their declaration.\<close>

fun mode_code :: "wcat_mode \<Rightarrow> int" where
  "mode_code WCAT_MODE_NONE = 0"
| "mode_code WCAT_MODE_CONNECT = 1"
| "mode_code WCAT_MODE_LISTEN = 2"
| "mode_code WCAT_MODE_SEND = 3"
| "mode_code WCAT_MODE_RECV = 4"
| "mode_code WCAT_MODE_RELAY = 5"
| "mode_code WCAT_MODE_BROKER = 6"
| "mode_code WCAT_MODE_PROXY = 7"

lemma mode_code_inj: "mode_code a = mode_code b \<longleftrightarrow> a = b"
  by (cases a; cases b) simp_all

end
