(* ===== verification/Wcat_Util.thy ===== *)
theory Wcat_Util
  imports Wcat_Config Wcat_Sys
begin

text \<open>
  src/util.c: parsing of ports and timeouts, the loops that write a whole buffer and close a
  descriptor in spite of interrupted calls, and the names of the modes.
\<close>

section \<open>Definitions\<close>

definition wcat_parse_port :: "cstr \<Rightarrow> int" where
  "wcat_parse_port cs =
     (case cs of
        None \<Rightarrow> - 1
      | Some s \<Rightarrow>
          if s = [] then - 1
          else let (v, e, erange) = strtol s
               in if erange \<or> e = s \<or> e \<noteq> [] \<or> v < 1 \<or> v > 65535 then - 1 else v)"

definition wcat_parse_timeout_ms :: "cstr \<Rightarrow> int" where
  "wcat_parse_timeout_ms cs =
     (case cs of
        None \<Rightarrow> - 1
      | Some s \<Rightarrow>
          if s = [] then - 1
          else let (v, e, erange) = strtol s
               in if erange \<or> e = s \<or> e \<noteq> [] \<or> v < 0 \<or> v > INT_MAX div 1000 then - 1
                  else v * 1000)"

text \<open>The loop of \<open>wcat_full_write\<close>; \<open>off\<close> counts the bytes already written.\<close>

function full_write_loop :: "fd \<Rightarrow> bytes \<Rightarrow> nat \<Rightarrow> sys \<Rightarrow> int \<times> sys" where
  "full_write_loop fd buf off s =
     (if off < length buf
      then let (n, s') = sys_write fd (drop off buf) s
           in if n < 0 then (if errno_of s' = EINTR then full_write_loop fd buf off s' else (- 1, s'))
              else if n = 0 then (int off, s')
              else full_write_loop fd buf (off + nat n) s'
      else (int off, s))"
  by pat_completeness auto
termination
proof (relation "measure (\<lambda>(fd, buf, off, s). length buf - off + length (wr_q s fd))", goal_cases)
  case 1
  show ?case by simp
next
  case (2 fd buf off s x n s')
  with sys_write_queue [of fd "drop off buf" s n s'] show ?case by auto
next
  case (3 fd buf off s x n s')
  with sys_write_queue [of fd "drop off buf" s n s'] show ?case by auto
qed

declare full_write_loop.simps [simp del]

definition wcat_full_write :: "fd \<Rightarrow> bytes \<Rightarrow> sys \<Rightarrow> int \<times> sys" where
  "wcat_full_write fd buf s = full_write_loop fd buf 0 s"

function close_loop :: "fd \<Rightarrow> sys \<Rightarrow> sys" where
  "close_loop fd s =
     (let (n, s') = sys_close fd s
      in if n < 0 \<and> errno_of s' = EINTR then close_loop fd s' else s')"
  by pat_completeness auto
termination
  by (relation "measure (\<lambda>(fd, s). if fd \<in> set (open_fds s) then 1 else 0)")
    (auto simp: sys_close_def Let_def split: if_splits list.splits option.splits)

declare close_loop.simps [simp del]

definition wcat_close_quiet :: "fd \<Rightarrow> sys \<Rightarrow> int \<times> sys" where
  "wcat_close_quiet fd s = (- 1, if 0 \<le> fd then close_loop fd s else s)"

text \<open>\<open>(void) wcat_close_quiet (fd)\<close>.\<close>

abbreviation close_quiet :: "fd \<Rightarrow> sys \<Rightarrow> sys" where
  "close_quiet fd s \<equiv> snd (wcat_close_quiet fd s)"

definition wcat_mode_name :: "int \<Rightarrow> string" where
  "wcat_mode_name m =
     (if m = mode_code WCAT_MODE_CONNECT then ''connect''
      else if m = mode_code WCAT_MODE_LISTEN then ''listen''
      else if m = mode_code WCAT_MODE_SEND then ''send''
      else if m = mode_code WCAT_MODE_RECV then ''recv''
      else if m = mode_code WCAT_MODE_RELAY then ''relay''
      else if m = mode_code WCAT_MODE_BROKER then ''broker''
      else if m = mode_code WCAT_MODE_PROXY then ''proxy''
      else ''none'')"

section \<open>Ports and timeouts\<close>

lemma wcat_parse_port_range [wcat_bounds]:
  "wcat_parse_port cs = - 1 \<or> 1 \<le> wcat_parse_port cs \<and> wcat_parse_port cs \<le> 65535"
  by (auto simp: wcat_parse_port_def Let_def split: option.splits prod.splits)

lemma wcat_parse_port_iff:
  assumes "1 \<le> n" and "n \<le> 65535"
  shows "wcat_parse_port (Some s) = n \<longleftrightarrow> (\<exists>ds. int_text s False ds \<and> int (dec_value ds) = n)"
    (is "?L \<longleftrightarrow> ?R")
proof -
  have "?L \<longleftrightarrow> (let (v, e, erange) = strtol s in e \<noteq> s \<and> e = [] \<and> \<not> erange \<and> v = n)"
    using assms by (auto simp: wcat_parse_port_def Let_def split: prod.splits)
  also have "\<dots> \<longleftrightarrow> ?R"
    unfolding strtol_complete using assms by (auto simp: c_limits)
  finally show ?thesis .
qed

lemma wcat_parse_port_dec_string:
  assumes "1 \<le> n" and "n \<le> 65535"
  shows "wcat_parse_port (Some (dec_string n)) = int n"
  using assms by (simp add: wcat_parse_port_def strtol_dec_string c_limits)

lemma wcat_parse_timeout_ms_range [wcat_bounds]:
  "wcat_parse_timeout_ms cs = - 1 \<or>
   0 \<le> wcat_parse_timeout_ms cs \<and> wcat_parse_timeout_ms cs \<le> INT_MAX \<and>
   wcat_parse_timeout_ms cs mod 1000 = 0"
  by (auto simp: wcat_parse_timeout_ms_def Let_def c_limits split: option.splits prod.splits)

section \<open>Writing a whole buffer\<close>

text \<open>
  What one call of \<open>wcat_full_write\<close> does to the state: it appends to the descriptor's output
  a prefix of the buffer, and touches no other descriptor.
\<close>

definition write_effect :: "fd \<Rightarrow> bytes \<Rightarrow> sys \<Rightarrow> sys \<Rightarrow> bool" where
  "write_effect fd out s s' \<longleftrightarrow>
     sent s' = (sent s)(fd := sent s fd @ out) \<and> got s' = got s \<and> rd_q s' = rd_q s
     \<and> open_fds s' = open_fds s \<and> wcat_stop s' = wcat_stop s \<and> peer_of s' = peer_of s
     \<and> stderr_out s' = stderr_out s \<and> poll_q s' = poll_q s \<and> sig_q s' = sig_q s
     \<and> acc_q s' = acc_q s \<and> nonblocking s' = nonblocking s \<and> close_q s' = close_q s
     \<and> (\<forall>f. f \<noteq> fd \<longrightarrow> wr_q s' f = wr_q s f)"

lemma write_effect_refl: "write_effect fd [] s s"
  by (simp add: write_effect_def)

lemma write_effect_trans:
  "write_effect fd a s s1 \<Longrightarrow> write_effect fd b s1 s2 \<Longrightarrow> write_effect fd (a @ b) s s2"
  by (simp add: write_effect_def)

lemma sys_write_effect:
  "sys_write fd buf s = (n, s') \<Longrightarrow> write_effect fd (take (nat n) buf) s s'"
  by (auto simp: write_effect_def fun_eq_iff dest: sys_write_frame)

lemma full_write_loop_effect:
  "full_write_loop fd buf off s = (n, s') \<Longrightarrow> off \<le> length buf \<Longrightarrow>
     \<exists>k \<le> length buf - off. write_effect fd (take k (drop off buf)) s s'
        \<and> (n = int (off + k) \<or> n = - 1 \<and> k < length buf - off \<and> errno_of s' \<noteq> EINTR)"
proof (induction fd buf off s rule: full_write_loop.induct)
  case (1 fd buf off s)
  show ?case
  proof (cases "off < length buf")
    case False
    with "1.prems" show ?thesis
      by (intro exI [of _ 0]) (simp add: full_write_loop.simps [of fd buf off s] write_effect_refl)
  next
    case True
    obtain m s1 where w: "sys_write fd (drop off buf) s = (m, s1)" by force
    note eff = sys_write_effect [OF w]
    have m: "- 1 \<le> m" "m \<le> int (length buf - off)"
      using sys_write_frame [OF w] by auto
    consider (intr) "m < 0" "errno_of s1 = EINTR" | (fail) "m < 0" "errno_of s1 \<noteq> EINTR"
      | (zero) "m = 0" | (pos) "m > 0" by linarith
    then show ?thesis
    proof cases
      case intr
      have "full_write_loop fd buf off s1 = (n, s')"
        using "1.prems"(1) True w intr by (simp add: full_write_loop.simps [of fd buf off s])
      from "1.IH"(1) [OF True w [symmetric] refl intr this "1.prems"(2)] eff intr
      show ?thesis using write_effect_trans [of fd "[]" s s1] by fastforce
    next
      case fail
      then have "n = - 1" "s' = s1"
        using "1.prems"(1) True w by (simp_all add: full_write_loop.simps [of fd buf off s])
      with fail eff True show ?thesis by (intro exI [of _ 0]) simp
    next
      case zero
      then have "n = int off" "s' = s1"
        using "1.prems"(1) True w by (simp_all add: full_write_loop.simps [of fd buf off s])
      with zero eff show ?thesis by (intro exI [of _ 0]) simp
    next
      case pos
      have rec: "full_write_loop fd buf (off + nat m) s1 = (n, s')"
        using "1.prems"(1) True w pos by (simp add: full_write_loop.simps [of fd buf off s])
      have off': "off + nat m \<le> length buf" using m pos by linarith
      from "1.IH"(2) [OF True w [symmetric] refl _ _ rec off'] pos
      obtain k where k: "k \<le> length buf - (off + nat m)"
        and e2: "write_effect fd (take k (drop (off + nat m) buf)) s1 s'"
        and r: "n = int (off + nat m + k) \<or>
                n = - 1 \<and> k < length buf - (off + nat m) \<and> errno_of s' \<noteq> EINTR" by auto
      have "take (nat m) (drop off buf) @ take k (drop (off + nat m) buf)
            = take (nat m + k) (drop off buf)"
        by (simp add: take_add [of "nat m" k] add.commute [of off])
      with write_effect_trans [OF eff e2] k r off' show ?thesis
        by (intro exI [of _ "nat m + k"]) auto
    qed
  qed
qed

lemma wcat_full_write_effect:
  assumes "wcat_full_write fd buf s = (n, s')"
  shows "\<exists>k \<le> length buf. write_effect fd (take k buf) s s'
           \<and> (n = int k \<or> n = - 1 \<and> k < length buf \<and> errno_of s' \<noteq> EINTR)"
  using full_write_loop_effect [of fd buf 0 s n s'] assms by (simp add: wcat_full_write_def)

lemma wcat_full_write_all:
  assumes "wcat_full_write fd buf s = (int (length buf), s')"
  shows "write_effect fd buf s s'"
  using wcat_full_write_effect [OF assms] by auto

text \<open>Interrupted and short writes are retried: without a real error everything is written.\<close>

definition writable :: "wr_ans list \<Rightarrow> bool" where
  "writable q \<longleftrightarrow> (\<forall>a \<in> set q. (\<exists>k. a = WrOk (Suc k)) \<or> a = WrErr EINTR)"

lemma sys_write_writable:
  assumes "sys_write fd buf s = (n, s')" and "writable (wr_q s fd)" and "buf \<noteq> []"
  shows "writable (wr_q s' fd) \<and> (0 < n \<or> n < 0 \<and> errno_of s' = EINTR)"
  using assms
  by (auto simp: sys_write_def writable_def split: list.splits wr_ans.splits)

lemma full_write_loop_total:
  "writable (wr_q s fd) \<Longrightarrow> off \<le> length buf \<Longrightarrow>
     fst (full_write_loop fd buf off s) = int (length buf)"
proof (induction fd buf off s rule: full_write_loop.induct)
  case (1 fd buf off s)
  show ?case
  proof (cases "off < length buf")
    case False
    with "1.prems"(2) show ?thesis by (subst full_write_loop.simps) simp
  next
    case True
    obtain m s1 where w: "sys_write fd (drop off buf) s = (m, s1)" by force
    have "drop off buf \<noteq> []" using True by simp
    note good = sys_write_writable [OF w "1.prems"(1) this]
    have m: "m \<le> int (length buf - off)" using sys_write_frame [OF w] by auto
    from good consider (intr) "m < 0" "errno_of s1 = EINTR" | (pos) "m > 0" by blast
    then show ?thesis
    proof cases
      case intr
      with "1.IH"(1) [OF True w [symmetric] refl intr] good True w "1.prems"(2) show ?thesis
        by (simp add: full_write_loop.simps [of fd buf off s])
    next
      case pos
      have "off + nat m \<le> length buf" using m pos by linarith
      with "1.IH"(2) [OF True w [symmetric] refl] pos good True w show ?thesis
        by (simp add: full_write_loop.simps [of fd buf off s])
    qed
  qed
qed

lemma wcat_full_write_total:
  assumes "writable (wr_q s fd)"
  shows "\<exists>s'. wcat_full_write fd buf s = (int (length buf), s') \<and> write_effect fd buf s s'"
proof -
  obtain n s' where w: "wcat_full_write fd buf s = (n, s')" by force
  with full_write_loop_total [OF assms, of 0 buf] have n: "n = int (length buf)"
    by (simp add: wcat_full_write_def)
  with w wcat_full_write_all show ?thesis by blast
qed

section \<open>Closing\<close>

lemma close_loop_open: "open_fds (close_loop fd s) = removeAll fd (open_fds s)"
proof (induction fd s rule: close_loop.induct)
  case (1 fd s)
  obtain n s1 where c: "sys_close fd s = (n, s1)" by force
  with sys_close_frame [OF c] "1.IH" [OF c [symmetric] refl] show ?case
    by (auto simp: close_loop.simps [of fd s])
qed

lemma close_loop_frame [sys_frame]:
  "got (close_loop fd s) = got s \<and> sent (close_loop fd s) = sent s
   \<and> rd_q (close_loop fd s) = rd_q s \<and> wr_q (close_loop fd s) = wr_q s
   \<and> wcat_stop (close_loop fd s) = wcat_stop s \<and> peer_of (close_loop fd s) = peer_of s
   \<and> stderr_out (close_loop fd s) = stderr_out s \<and> poll_q (close_loop fd s) = poll_q s
   \<and> sig_q (close_loop fd s) = sig_q s \<and> acc_q (close_loop fd s) = acc_q s
   \<and> nonblocking (close_loop fd s) = nonblocking s \<and> children (close_loop fd s) = children s
   \<and> term_raw (close_loop fd s) = term_raw s \<and> term_q (close_loop fd s) = term_q s"
proof (induction fd s rule: close_loop.induct)
  case (1 fd s)
  obtain n s1 where c: "sys_close fd s = (n, s1)" by force
  with sys_close_frame [OF c] "1.IH" [OF c [symmetric] refl] show ?case
    by (auto simp: close_loop.simps [of fd s])
qed

lemma wcat_close_quiet_result [simp]: "fst (wcat_close_quiet fd s) = - 1"
  by (simp add: wcat_close_quiet_def)

lemma close_quiet_open [simp]:
  "open_fds (close_quiet fd s) = (if 0 \<le> fd then removeAll fd (open_fds s) else open_fds s)"
  by (simp add: wcat_close_quiet_def close_loop_open)

lemma close_quiet_frame [simp]:
  "got (close_quiet fd s) = got s" "sent (close_quiet fd s) = sent s"
  "rd_q (close_quiet fd s) = rd_q s" "wr_q (close_quiet fd s) = wr_q s"
  "wcat_stop (close_quiet fd s) = wcat_stop s" "peer_of (close_quiet fd s) = peer_of s"
  "stderr_out (close_quiet fd s) = stderr_out s" "poll_q (close_quiet fd s) = poll_q s"
  "sig_q (close_quiet fd s) = sig_q s" "acc_q (close_quiet fd s) = acc_q s"
  "nonblocking (close_quiet fd s) = nonblocking s" "children (close_quiet fd s) = children s"
  "term_raw (close_quiet fd s) = term_raw s" "term_q (close_quiet fd s) = term_q s"
  using close_loop_frame [of fd s] by (simp_all add: wcat_close_quiet_def)

lemma wcat_mode_name_inj:
  "wcat_mode_name (mode_code a) = wcat_mode_name (mode_code b) \<longleftrightarrow> a = b"
  by (cases a; cases b) (simp_all add: wcat_mode_name_def)

end
