(* ===== verification/Wcat_Log.thy ===== *)
theory Wcat_Log
  imports Wcat_Util
begin

text \<open>
  src/log.c: the levels, the escaping of JSON strings, the two forms of a log record and the hex
  dump. The text goes to \<open>stderr_out\<close>. A call \<open>wcat_log (level, event, fmt, ...)\<close> is
  \<open>wcat_log level event msg\<close> with the formatted message; the truncation by
  \<open>vsnprintf (msg, 1024, ...)\<close> is part of the model. The lemmas show that the escaping can be
  decoded and that a JSON record is one line, and give the hex dump line by line.
\<close>

section \<open>Definitions\<close>

datatype wcat_log_level = WCAT_LOG_ERROR | WCAT_LOG_WARN | WCAT_LOG_INFO | WCAT_LOG_DEBUG

fun level_code :: "wcat_log_level \<Rightarrow> nat" where
  "level_code WCAT_LOG_ERROR = 0"
| "level_code WCAT_LOG_WARN = 1"
| "level_code WCAT_LOG_INFO = 2"
| "level_code WCAT_LOG_DEBUG = 3"

lemma level_code_inj: "level_code a = level_code b \<Longrightarrow> a = b"
  by (cases a; cases b) simp_all

instantiation wcat_log_level :: linorder
begin

definition less_eq_wcat_log_level :: "wcat_log_level \<Rightarrow> wcat_log_level \<Rightarrow> bool" where
  "less_eq_wcat_log_level a b \<longleftrightarrow> level_code a \<le> level_code b"

definition less_wcat_log_level :: "wcat_log_level \<Rightarrow> wcat_log_level \<Rightarrow> bool" where
  "less_wcat_log_level a b \<longleftrightarrow> level_code a < level_code b"

instance
  by standard (auto simp: less_eq_wcat_log_level_def less_wcat_log_level_def dest: level_code_inj)

end

fun level_name :: "wcat_log_level \<Rightarrow> string" where
  "level_name WCAT_LOG_ERROR = ''error''"
| "level_name WCAT_LOG_WARN = ''warn''"
| "level_name WCAT_LOG_INFO = ''info''"
| "level_name WCAT_LOG_DEBUG = ''debug''"

text \<open>The body of the loop of \<open>json_escape\<close>, then the loop; a NULL string prints nothing.\<close>

definition json_escape_char :: "char \<Rightarrow> string" where
  "json_escape_char c =
     (if c = CHR 0x22 \<or> c = CHR 0x5C then [CHR 0x5C, c]
      else if c = CHR 0x0A then [CHR 0x5C, CHR ''n'']
      else if c = CHR 0x0D then [CHR 0x5C, CHR ''r'']
      else if c = CHR 0x09 then [CHR 0x5C, CHR ''t'']
      else if iscntrl c then [CHR 0x5C, CHR ''u''] @ hex_pad 4 (code c)
      else [c])"

fun json_escape :: "string \<Rightarrow> string" where
  "json_escape [] = []"
| "json_escape (c # cs) = json_escape_char c @ json_escape cs"

definition wcat_log_init :: "bool \<Rightarrow> bool \<Rightarrow> sys \<Rightarrow> sys" where
  "wcat_log_init js vb s = s\<lparr>g_json := js, g_verbose := vb\<rparr>"

definition int_string :: "int \<Rightarrow> string" where
  "int_string n = (if n < 0 then CHR ''-'' # dec_string (nat (- n)) else dec_string (nat n))"

text \<open>The two forms of a record; \<open>'' '' '' ''\<close>-free literals use the code of the quote.\<close>

definition json_record :: "int \<Rightarrow> wcat_log_level \<Rightarrow> string \<Rightarrow> string \<Rightarrow> string" where
  "json_record ts level event msg =
     [CHR ''{'', CHR 0x22] @ ''ts'' @ [CHR 0x22, CHR '':''] @ int_string ts
     @ [CHR '','', CHR 0x22] @ ''level'' @ [CHR 0x22, CHR '':'', CHR 0x22] @ level_name level
     @ [CHR 0x22, CHR '','', CHR 0x22] @ ''event'' @ [CHR 0x22, CHR '':'', CHR 0x22]
     @ json_escape event
     @ [CHR 0x22, CHR '','', CHR 0x22] @ ''message'' @ [CHR 0x22, CHR '':'', CHR 0x22]
     @ json_escape msg @ [CHR 0x22, CHR ''}'', CHR 0x0A]"

definition plain_record :: "wcat_log_level \<Rightarrow> string \<Rightarrow> string" where
  "plain_record level msg = ''wcat: '' @ level_name level @ '': '' @ msg @ [CHR 0x0A]"

definition wcat_log :: "wcat_log_level \<Rightarrow> string \<Rightarrow> string \<Rightarrow> sys \<Rightarrow> sys" where
  "wcat_log level event text s =
     (if level = WCAT_LOG_DEBUG \<and> \<not> g_verbose s then s
      else let msg = snprintf_trunc 1024 text
           in s\<lparr>stderr_out := stderr_out s @
                 (if g_json s then json_record (clock s) level event msg
                  else plain_record level msg)\<rparr>)"

definition wcat_log_errno :: "string \<Rightarrow> string \<Rightarrow> sys \<Rightarrow> sys" where
  "wcat_log_errno event context_text s =
     wcat_log WCAT_LOG_ERROR event (context_text @ '': '' @ strerror s (errno_of s)) s"

fun hexdump_from :: "nat \<Rightarrow> nat \<Rightarrow> bytes \<Rightarrow> string" where
  "hexdump_from len i [] = []"
| "hexdump_from len i (b # bs) =
     (if i mod 16 = 0 then hex_pad 8 i @ ''  '' else []) @ hex_pad 2 (code b) @ '' ''
     @ (if i mod 16 = 15 \<or> i + 1 = len then [CHR 0x0A] else []) @ hexdump_from len (i + 1) bs"

definition hexdump_text :: "string \<Rightarrow> bytes \<Rightarrow> string" where
  "hexdump_text label buf =
     label @ '' '' @ dec_string (length buf) @ '' bytes'' @ [CHR 0x0A]
     @ hexdump_from (length buf) 0 buf"

definition wcat_hexdump :: "string \<Rightarrow> bytes \<Rightarrow> sys \<Rightarrow> sys" where
  "wcat_hexdump label buf s = s\<lparr>stderr_out := stderr_out s @ hexdump_text label buf\<rparr>"

section \<open>Escaping can be decoded\<close>

text \<open>
  A decoder for the body of a JSON string, after RFC 8259: a quote or a control character may not
  stand by itself, a backslash starts an escape. It handles the escapes whose code fits a byte.
\<close>

fun hex4_value :: "char \<Rightarrow> char \<Rightarrow> char \<Rightarrow> char \<Rightarrow> nat option" where
  "hex4_value a b c d =
     (case (hex_val a, hex_val b, hex_val c, hex_val d) of
        (Some w, Some x, Some y, Some z) \<Rightarrow> Some (((w * 16 + x) * 16 + y) * 16 + z)
      | _ \<Rightarrow> None)"

fun json_decode :: "string \<Rightarrow> string option" where
  "json_decode [] = Some []"
| "json_decode [c] = (if c = CHR 0x22 \<or> c = CHR 0x5C \<or> code c < 32 then None else Some [c])"
| "json_decode (c # d # cs) =
     (if c = CHR 0x22 \<or> code c < 32 then None
      else if c \<noteq> CHR 0x5C then map_option ((#) c) (json_decode (d # cs))
      else if d = CHR 0x22 \<or> d = CHR 0x5C then map_option ((#) d) (json_decode cs)
      else if d = CHR ''n'' then map_option ((#) (CHR 0x0A)) (json_decode cs)
      else if d = CHR ''r'' then map_option ((#) (CHR 0x0D)) (json_decode cs)
      else if d = CHR ''t'' then map_option ((#) (CHR 0x09)) (json_decode cs)
      else if d = CHR ''u''
      then (case cs of
              h1 # h2 # h3 # h4 # rest \<Rightarrow>
                (case hex4_value h1 h2 h3 h4 of
                   Some n \<Rightarrow> if n < 256 then map_option ((#) (char_of n)) (json_decode rest) else None
                 | None \<Rightarrow> None)
            | _ \<Rightarrow> None)
      else None)"

lemma json_decode_plain:
  "c \<noteq> CHR 0x22 \<Longrightarrow> c \<noteq> CHR 0x5C \<Longrightarrow> 32 \<le> code c \<Longrightarrow>
     json_decode (c # cs) = map_option ((#) c) (json_decode cs)"
  by (cases cs) auto

lemma hex4_value_byte: "n < 256 \<Longrightarrow>
  hex4_value (CHR ''0'') (CHR ''0'') (hex_char (n div 16)) (hex_char (n mod 16)) = Some n"
proof -
  assume n: "n < 256"
  then have "n div 16 < 16" by (simp add: less_mult_imp_div_less)
  moreover have "hex_val (CHR ''0'') = Some 0" by (simp add: hex_val_def)
  ultimately show ?thesis by (simp add: div_mult_mod_eq)
qed

lemma json_decode_escape_char:
  "json_decode (json_escape_char c @ rest) = map_option ((#) c) (json_decode rest)"
proof (cases "iscntrl c \<and> c \<noteq> CHR 0x0A \<and> c \<noteq> CHR 0x0D \<and> c \<noteq> CHR 0x09")
  case True
  then have "json_escape_char c = [CHR 0x5C, CHR ''u''] @ hex_pad 4 (code c)"
    by (auto simp: json_escape_char_def iscntrl_def)
  then show ?thesis
    by (simp add: hex_pad_4_byte hex4_value_byte del: hex4_value.simps)
next
  case False
  then show ?thesis
    by (auto simp: json_escape_char_def iscntrl_def intro!: json_decode_plain)
qed

lemma json_decode_escape: "json_decode (json_escape s) = Some s"
  by (induction s) (simp_all add: json_decode_escape_char)

lemma json_escape_append: "json_escape (a @ b) = json_escape a @ json_escape b"
  by (induction a) simp_all

lemma hex_char_printable: "d < 16 \<Longrightarrow> 32 \<le> code (hex_char d) \<and> code (hex_char d) < 127"
  by (auto simp: hex_char_def)

lemma json_escape_char_clean: "x \<in> set (json_escape_char c) \<Longrightarrow> \<not> iscntrl x"
proof -
  assume x: "x \<in> set (json_escape_char c)"
  have d: "code c div 16 < 16" "code c mod 16 < 16"
    by (simp_all add: less_mult_imp_div_less)
  from x hex_char_printable [OF d(1)] hex_char_printable [OF d(2)] show ?thesis
    by (auto simp: json_escape_char_def iscntrl_def hex_pad_4_byte split: if_splits)
qed

lemma json_escape_clean: "x \<in> set (json_escape s) \<Longrightarrow> \<not> iscntrl x"
  by (induction s) (auto dest: json_escape_char_clean)

lemma level_name_clean: "x \<in> set (level_name l) \<Longrightarrow> \<not> iscntrl x"
  by (cases l) (auto simp: iscntrl_def)

lemma dec_string_clean: "x \<in> set (dec_string n) \<Longrightarrow> \<not> iscntrl x"
  using dec_string_digits [of n] by (auto simp: list_all_iff isdigit_def iscntrl_def)

lemma int_string_clean: "x \<in> set (int_string n) \<Longrightarrow> \<not> iscntrl x"
  by (auto simp: int_string_def iscntrl_def split: if_splits dest: dec_string_clean)

text \<open>A JSON record is one line: its only control character is the newline at its end.\<close>

lemma json_record_one_line:
  "\<exists>body. json_record ts level event msg = body @ [CHR 0x0A] \<and> (\<forall>x \<in> set body. \<not> iscntrl x)"
proof (intro exI conjI ballI)
  let ?body = "[CHR ''{'', CHR 0x22] @ ''ts'' @ [CHR 0x22, CHR '':''] @ int_string ts
     @ [CHR '','', CHR 0x22] @ ''level'' @ [CHR 0x22, CHR '':'', CHR 0x22] @ level_name level
     @ [CHR 0x22, CHR '','', CHR 0x22] @ ''event'' @ [CHR 0x22, CHR '':'', CHR 0x22]
     @ json_escape event
     @ [CHR 0x22, CHR '','', CHR 0x22] @ ''message'' @ [CHR 0x22, CHR '':'', CHR 0x22]
     @ json_escape msg @ [CHR 0x22, CHR ''}'']"
  show "json_record ts level event msg = ?body @ [CHR 0x0A]"
    by (simp add: json_record_def)
  fix x
  assume "x \<in> set ?body"
  then show "\<not> iscntrl x"
    by (auto dest: json_escape_clean level_name_clean int_string_clean) (simp_all add: iscntrl_def)
qed

section \<open>What logging leaves alone\<close>

lemma wcat_log_frame [simp]:
  "got (wcat_log l e t s) = got s" "sent (wcat_log l e t s) = sent s"
  "rd_q (wcat_log l e t s) = rd_q s" "wr_q (wcat_log l e t s) = wr_q s"
  "wcat_stop (wcat_log l e t s) = wcat_stop s" "peer_of (wcat_log l e t s) = peer_of s"
  "poll_q (wcat_log l e t s) = poll_q s" "sig_q (wcat_log l e t s) = sig_q s"
  "acc_q (wcat_log l e t s) = acc_q s" "nonblocking (wcat_log l e t s) = nonblocking s"
  "open_fds (wcat_log l e t s) = open_fds s" "close_q (wcat_log l e t s) = close_q s"
  "errno_of (wcat_log l e t s) = errno_of s"
  by (simp_all add: wcat_log_def Let_def)

lemma wcat_log_errno_frame [simp]:
  "got (wcat_log_errno e t s) = got s" "sent (wcat_log_errno e t s) = sent s"
  "rd_q (wcat_log_errno e t s) = rd_q s" "wr_q (wcat_log_errno e t s) = wr_q s"
  "wcat_stop (wcat_log_errno e t s) = wcat_stop s" "peer_of (wcat_log_errno e t s) = peer_of s"
  "poll_q (wcat_log_errno e t s) = poll_q s" "sig_q (wcat_log_errno e t s) = sig_q s"
  "acc_q (wcat_log_errno e t s) = acc_q s" "nonblocking (wcat_log_errno e t s) = nonblocking s"
  "open_fds (wcat_log_errno e t s) = open_fds s" "close_q (wcat_log_errno e t s) = close_q s"
  "errno_of (wcat_log_errno e t s) = errno_of s"
  by (simp_all add: wcat_log_errno_def)

lemma wcat_hexdump_frame [simp]:
  "got (wcat_hexdump l b s) = got s" "sent (wcat_hexdump l b s) = sent s"
  "rd_q (wcat_hexdump l b s) = rd_q s" "wr_q (wcat_hexdump l b s) = wr_q s"
  "wcat_stop (wcat_hexdump l b s) = wcat_stop s" "peer_of (wcat_hexdump l b s) = peer_of s"
  "poll_q (wcat_hexdump l b s) = poll_q s" "sig_q (wcat_hexdump l b s) = sig_q s"
  "acc_q (wcat_hexdump l b s) = acc_q s" "nonblocking (wcat_hexdump l b s) = nonblocking s"
  "open_fds (wcat_hexdump l b s) = open_fds s" "close_q (wcat_hexdump l b s) = close_q s"
  "errno_of (wcat_hexdump l b s) = errno_of s"
  by (simp_all add: wcat_hexdump_def)

section \<open>The hex dump, line by line\<close>

definition hexdump_line :: "nat \<Rightarrow> bytes \<Rightarrow> string" where
  "hexdump_line off row =
     hex_pad 8 off @ ''  '' @ concat (map (\<lambda>b. hex_pad 2 (code b) @ '' '') row) @ [CHR 0x0A]"

fun hexdump_lines :: "nat \<Rightarrow> bytes \<Rightarrow> string list" where
  "hexdump_lines off buf =
     (if buf = [] then []
      else hexdump_line off (take 16 buf) # hexdump_lines (off + 16) (drop 16 buf))"

declare hexdump_lines.simps [simp del]

text \<open>Within a row: \<open>k\<close> bytes of the row are left, and the row ends or the buffer does.\<close>

lemma hexdump_row:
  "bs \<noteq> [] \<Longrightarrow> i + length bs = len \<Longrightarrow> i mod 16 \<noteq> 0 \<Longrightarrow> k = 16 - i mod 16 \<Longrightarrow>
     hexdump_from len i bs =
       concat (map (\<lambda>b. hex_pad 2 (code b) @ '' '') (take k bs)) @ [CHR 0x0A]
       @ hexdump_from len (i + k) (drop k bs)"
proof (induction bs arbitrary: i k)
  case Nil
  then show ?case by simp
next
  case (Cons b bs)
  have "0 < k" using Cons.prems(4) by simp
  then obtain k' where k: "k = Suc k'" using gr0_implies_Suc by blast
  show ?case
  proof (cases "i mod 16 = 15 \<or> i + 1 = len")
    case True
    then have "k' = 0 \<or> bs = []" using Cons.prems k by auto
    with True Cons.prems k show ?thesis by auto
  next
    case False
    have bs: "bs \<noteq> []" "i + 1 + length bs = len" using False Cons.prems by auto
    have "(i + 1) mod 16 = i mod 16 + 1"
      using False by (simp add: mod_Suc)
    then have m: "(i + 1) mod 16 \<noteq> 0" "k' = 16 - (i + 1) mod 16"
      using Cons.prems k by auto
    from Cons.IH [OF bs m] False Cons.prems(3) show ?thesis unfolding k by simp
  qed
qed

lemma hexdump_first_row:
  assumes "bs \<noteq> []" and "i + length bs = len" and "i mod 16 = 0"
  shows "hexdump_from len i bs
           = hexdump_line i (take 16 bs) @ hexdump_from len (i + 16) (drop 16 bs)"
proof -
  obtain b cs where bs: "bs = b # cs" using assms(1) by (cases bs) auto
  have m: "(i + 1) mod 16 = 1" using assms(3) by presburger
  show ?thesis
  proof (cases "cs = []")
    case True
    with bs assms show ?thesis by (simp add: hexdump_line_def)
  next
    case False
    have "hexdump_from len (i + 1) cs =
       concat (map (\<lambda>b. hex_pad 2 (code b) @ '' '') (take 15 cs)) @ [CHR 0x0A]
       @ hexdump_from len (i + 1 + 15) (drop 15 cs)"
      using False assms(2) bs m by (intro hexdump_row) auto
    moreover have "i + 1 \<noteq> len" using False assms(2) bs by auto
    ultimately show ?thesis
      using bs assms(3)
      by (simp add: hexdump_line_def take_Cons' drop_Cons' add.commute add.left_commute)
  qed
qed

lemma hexdump_from_lines:
  "i + length bs = len \<Longrightarrow> i mod 16 = 0 \<Longrightarrow> hexdump_from len i bs = concat (hexdump_lines i bs)"
proof (induction i bs rule: hexdump_lines.induct)
  case (1 i bs)
  show ?case
  proof (cases "bs = []")
    case True
    then show ?thesis by (simp add: hexdump_lines.simps)
  next
    case False
    have tail: "hexdump_from len (i + 16) (drop 16 bs) = concat (hexdump_lines (i + 16) (drop 16 bs))"
    proof (cases "16 \<le> length bs")
      case True
      with "1.IH" [OF False] "1.prems" show ?thesis by simp
    next
      case False
      then show ?thesis by (simp add: hexdump_lines.simps)
    qed
    from hexdump_first_row [OF False "1.prems"] tail False show ?thesis
      by (simp add: hexdump_lines.simps [of i bs])
  qed
qed

lemma length_hexdump_lines: "length (hexdump_lines i bs) = (length bs + 15) div 16"
proof (induction i bs rule: hexdump_lines.induct)
  case (1 i bs)
  show ?case
  proof (cases "bs = []")
    case True
    then show ?thesis by (simp add: hexdump_lines.simps)
  next
    case False
    have "(length bs - 16 + 15) div 16 + 1 = (length bs + 15) div 16"
    proof (cases "16 \<le> length bs")
      case True
      then obtain m where "length bs = m + 16" using le_Suc_ex add.commute by metis
      then show ?thesis by simp
    next
      case less: False
      moreover have "Suc 0 \<le> length bs" using False by (simp add: Suc_le_eq)
      ultimately have "(length bs + 15) div 16 = 1" by (intro div_nat_eqI) simp_all
      with less show ?thesis by simp
    qed
    with "1.IH" [OF False] False show ?thesis by (simp add: hexdump_lines.simps [of i bs])
  qed
qed

end
