(* ===== verification/Wcat_Access.thy ===== *)
theory Wcat_Access
  imports Wcat_Log
begin

text \<open>
  src/access.c: IP and CIDR access lists. The text conversions \<open>inet_pton\<close> and \<open>inet_ntop\<close>
  belong to the system's library and are a parameter, the record \<open>inet\<close>; the locale \<open>inet_pton\<close>
  states what the code relies on, the number of bytes \<open>inet_pton\<close> stores for each family.
  \<open>posix_inet\<close> is an executable instance.

  The lemmas show that \<open>match_net\<close> compares exactly the leading \<open>bits\<close> bits and reads only
  bytes that \<open>inet_pton\<close> has written, that the list walk of \<open>list_matches\<close> looks at every entry
  of a list that \<open>wcat_access_validate_list\<close> accepts, and that deny entries win over allow
  entries.
\<close>

unbundle bit_operations_syntax

section \<open>Definitions\<close>

record inet =
  inet_pton4 :: "string \<Rightarrow> u8 list option"
  inet_pton6 :: "string \<Rightarrow> u8 list option"
  inet_ntop4 :: "u8 list \<Rightarrow> string"
  inet_ntop6 :: "u8 list \<Rightarrow> string"

record access_net =
  net_family :: af
  net_addr :: "u8 list"
  net_bits :: int

definition INET6_ADDRSTRLEN :: nat where "INET6_ADDRSTRLEN = 46"

definition TOKEN_SIZE :: nat where "TOKEN_SIZE = INET6_ADDRSTRLEN + 8"

text \<open>The prefix length after the slash; \<open>None\<close> where the code returns -1.\<close>

definition parse_bits :: "string option \<Rightarrow> int \<Rightarrow> int option" where
  "parse_bits slash maxbits =
     (case slash of
        None \<Rightarrow> Some maxbits
      | Some t \<Rightarrow>
          let (v, e, _) = strtol t
          in if e = t \<or> e \<noteq> [] \<or> v < 0 \<or> v > maxbits then None else Some v)"

definition parse_net :: "inet \<Rightarrow> string \<Rightarrow> access_net option" where
  "parse_net L spec =
     (if spec = [] then None
      else let (ip, slash) = (case split_first (CHR ''/'') spec of
                                Some (l, r) \<Rightarrow> (l, Some r) | None \<Rightarrow> (spec, None))
           in if ip = [] \<or> INET6_ADDRSTRLEN \<le> length ip then None
              else case inet_pton4 L ip of
                     Some a \<Rightarrow>
                       map_option (\<lambda>b. \<lparr>net_family = AF_INET, net_addr = a, net_bits = b\<rparr>)
                         (parse_bits slash 32)
                   | None \<Rightarrow>
                       (case inet_pton6 L ip of
                          Some a \<Rightarrow>
                            map_option (\<lambda>b. \<lparr>net_family = AF_INET6, net_addr = a, net_bits = b\<rparr>)
                              (parse_bits slash 128)
                        | None \<Rightarrow> None))"

definition match_net :: "u8 list \<Rightarrow> access_net \<Rightarrow> bool" where
  "match_net addr net =
     (let full = nat (net_bits net div 8); rem = nat (net_bits net mod 8)
      in if full > 0 \<and> take full addr \<noteq> take full (net_addr net) then False
         else if rem \<noteq> 0
         then let mask = push_bit (8 - rem) (0xff :: u8)
              in (addr ! full) AND mask = (net_addr net ! full) AND mask
         else True)"

text \<open>\<open>getpeername\<close> and the copy of the address; the text is for the log.\<close>

definition fd_peer_addr :: "inet \<Rightarrow> fd \<Rightarrow> sys \<Rightarrow> (af \<times> u8 list \<times> string) option \<times> sys" where
  "fd_peer_addr L fd s =
     (case peer_of s fd of
        PeerErr e \<Rightarrow> (None, s\<lparr>errno_of := e\<rparr>)
      | PeerInet a \<Rightarrow> (Some (AF_INET, a, inet_ntop4 L a), s)
      | PeerInet6 a \<Rightarrow> (Some (AF_INET6, a, inet_ntop6 L a), s)
      | PeerOther \<Rightarrow> (None, s))"

definition is_blank :: "char \<Rightarrow> bool" where
  "is_blank c \<longleftrightarrow> c = CHR '' '' \<or> c = CHR 0x09"

definition trim_blank :: "string \<Rightarrow> string" where
  "trim_blank t = rev (dropWhile is_blank (rev (dropWhile is_blank t)))"

text \<open>The text up to the next comma, and what follows the comma if there is one.\<close>

definition next_entry :: "string \<Rightarrow> string \<times> string option" where
  "next_entry p = (case split_first (CHR '','') p of Some (l, r) \<Rightarrow> (l, Some r) | None \<Rightarrow> (p, None))"

lemma next_entry_shorter: "next_entry p = (t, Some r) \<Longrightarrow> length r < length p"
  by (auto simp: next_entry_def split_first_Some split: option.splits)

function list_matches :: "inet \<Rightarrow> string \<Rightarrow> af \<Rightarrow> u8 list \<Rightarrow> bool" where
  "list_matches L p fam addr =
     (if p = [] then False
      else let (entry, rest) = next_entry p; token = trim_blank entry
           in if token \<noteq> [] \<and> length token < TOKEN_SIZE
                 \<and> (case parse_net L token of
                      Some net \<Rightarrow> net_family net = fam \<and> match_net addr net | None \<Rightarrow> False)
              then True
              else case rest of Some r \<Rightarrow> list_matches L r fam addr | None \<Rightarrow> False)"
  by pat_completeness auto
termination
  by (relation "measure (\<lambda>(L, p, fam, addr). length p)") (auto dest!: sym [of "(_, Some _)"] next_entry_shorter)

declare list_matches.simps [simp del]

function validate_entries :: "inet \<Rightarrow> string \<Rightarrow> int" where
  "validate_entries L p =
     (if p = [] then 0
      else let (entry, rest) = next_entry p; token = trim_blank entry
           in if token = [] \<or> TOKEN_SIZE \<le> length token then - 1
              else case parse_net L token of
                     None \<Rightarrow> - 1
                   | Some _ \<Rightarrow> (case rest of Some r \<Rightarrow> validate_entries L r | None \<Rightarrow> 0))"
  by pat_completeness auto
termination
  by (relation "measure (\<lambda>(L, p). length p)") (auto dest!: sym [of "(_, Some _)"] next_entry_shorter)

declare validate_entries.simps [simp del]

definition wcat_access_validate_list :: "inet \<Rightarrow> cstr \<Rightarrow> int" where
  "wcat_access_validate_list L list =
     (case list of None \<Rightarrow> 0 | Some l \<Rightarrow> validate_entries L l)"

definition wcat_access_check_fd :: "inet \<Rightarrow> wcat_config \<Rightarrow> fd \<Rightarrow> sys \<Rightarrow> bool \<times> sys" where
  "wcat_access_check_fd L cfg fd s =
     (if allow_list cfg = None \<and> deny_list cfg = None then (True, s)
      else case fd_peer_addr L fd s of
             (None, s') \<Rightarrow> (False, wcat_log_errno ''access'' ''failed to read peer address'' s')
           | (Some (fam, addr, peer_text), s') \<Rightarrow>
               if (case deny_list cfg of Some l \<Rightarrow> list_matches L l fam addr | None \<Rightarrow> False)
               then (False, wcat_log WCAT_LOG_WARN ''access_denied'' (''denied peer '' @ peer_text) s')
               else if (case allow_list cfg of Some l \<Rightarrow> \<not> list_matches L l fam addr | None \<Rightarrow> False)
               then (False, wcat_log WCAT_LOG_WARN ''access_denied''
                              (''peer '' @ peer_text @ '' not in allow list'') s')
               else (True, s'))"

section \<open>The library's text conversions\<close>

locale inet_pton =
  fixes L :: inet
  assumes pton4_length: "inet_pton4 L t = Some a \<Longrightarrow> length a = 4"
    and pton6_length: "inet_pton6 L t = Some a \<Longrightarrow> length a = 16"
begin

lemma parse_net_fits:
  assumes "parse_net L spec = Some net"
  shows "0 \<le> net_bits net" and "net_bits net \<le> 8 * int (length (net_addr net))"
    and "net_family net = AF_INET \<and> length (net_addr net) = 4
         \<or> net_family net = AF_INET6 \<and> length (net_addr net) = 16"
  using assms
  by (auto simp: parse_net_def parse_bits_def Let_def
      dest: pton4_length pton6_length split: if_splits prod.splits option.splits)

end

text \<open>
  An executable instance. Dotted quads have four decimal fields of one to three digits, none above
  255; an IPv6 text has eight groups of one to four hexadecimal digits, one run of zero groups
  may be written as two colons, and the last two groups may be a dotted quad.
\<close>

fun split_all :: "char \<Rightarrow> string \<Rightarrow> string list" where
  "split_all c [] = [[]]"
| "split_all c (x # xs) =
     (if x = c then [] # split_all c xs
      else case split_all c xs of [] \<Rightarrow> [[x]] | w # ws \<Rightarrow> (x # w) # ws)"

definition dec_field :: "string \<Rightarrow> u8 option" where
  "dec_field t = (if t \<noteq> [] \<and> length t \<le> 3 \<and> list_all isdigit t \<and> dec_value t \<le> 255
                     \<and> (length t = 1 \<or> hd t \<noteq> CHR ''0'')
                  then Some (of_nat (dec_value t)) else None)"

fun all_some :: "'a option list \<Rightarrow> 'a list option" where
  "all_some [] = Some []"
| "all_some (None # _) = None"
| "all_some (Some x # xs) = map_option ((#) x) (all_some xs)"

definition posix_pton4 :: "string \<Rightarrow> u8 list option" where
  "posix_pton4 t =
     (let fs = split_all (CHR ''.'') t in if length fs = 4 then all_some (map dec_field fs) else None)"

definition hex_digit :: "char \<Rightarrow> nat option" where
  "hex_digit c = (if 65 \<le> code c \<and> code c \<le> 70 then Some (code c - 55) else hex_val c)"

definition hex_group :: "string \<Rightarrow> u8 list option" where
  "hex_group t =
     (if t = [] \<or> 4 < length t then None
      else map_option (\<lambda>ds. let v = foldl (\<lambda>v d. 16 * v + d) 0 ds
                            in [of_nat (v div 256), of_nat (v mod 256)])
             (all_some (map hex_digit t)))"

text \<open>The bytes of a run of groups separated by single colons.\<close>

definition groups6 :: "bool \<Rightarrow> string \<Rightarrow> u8 list option" where
  "groups6 quad t =
     (if t = [] then Some []
      else let gs = split_all (CHR '':'') t
           in map_option concat
                (all_some (map hex_group (butlast gs) @
                   [if quad \<and> CHR ''.'' \<in> set (last gs) then posix_pton4 (last gs)
                    else hex_group (last gs)])))"

fun split_double_colon :: "string \<Rightarrow> (string \<times> string) option" where
  "split_double_colon [] = None"
| "split_double_colon [c] = None"
| "split_double_colon (c # d # cs) =
     (if c = CHR '':'' \<and> d = CHR '':'' then Some ([], cs)
      else map_option (\<lambda>(l, r). (c # l, r)) (split_double_colon (d # cs)))"

definition posix_pton6 :: "string \<Rightarrow> u8 list option" where
  "posix_pton6 t =
     (case split_double_colon t of
        None \<Rightarrow> (case groups6 True t of Some b \<Rightarrow> if length b = 16 then Some b else None | None \<Rightarrow> None)
      | Some (l, r) \<Rightarrow>
          (case (groups6 False l, groups6 True r) of
             (Some a, Some b) \<Rightarrow>
               if length a + length b \<le> 14
               then Some (a @ replicate (16 - length a - length b) 0 @ b) else None
           | _ \<Rightarrow> None))"

definition dotted_text :: "u8 list \<Rightarrow> string" where
  "dotted_text a = concat (butlast (concat (map (\<lambda>b. [dec_string (unat b), ''.'']) a)))"

definition hextet_text :: "u8 list \<Rightarrow> string" where
  "hextet_text a = concat (map (\<lambda>b. hex_pad 2 (unat b)) a)"

definition posix_inet :: inet where
  "posix_inet = \<lparr>inet_pton4 = posix_pton4, inet_pton6 = posix_pton6,
                 inet_ntop4 = dotted_text, inet_ntop6 = hextet_text\<rparr>"

lemma all_some_length: "all_some xs = Some ys \<Longrightarrow> length ys = length xs"
  by (induction xs arbitrary: ys rule: all_some.induct) auto

lemma posix_pton4_length: "posix_pton4 t = Some a \<Longrightarrow> length a = 4"
  by (auto simp: posix_pton4_def Let_def split: if_splits dest: all_some_length)

lemma posix_pton6_length: "posix_pton6 t = Some a \<Longrightarrow> length a = 16"
  by (auto simp: posix_pton6_def split: option.splits if_splits prod.splits)

interpretation posix: inet_pton posix_inet
  by unfold_locales (auto simp: posix_inet_def dest: posix_pton4_length posix_pton6_length)

section \<open>Matching compares the leading bits\<close>

text \<open>Bit \<open>i\<close> of an address, counted from the most significant bit of its first byte.\<close>

definition addr_bit :: "u8 list \<Rightarrow> nat \<Rightarrow> bool" where
  "addr_bit a i = bit (a ! (i div 8)) (7 - i mod 8)"

definition same_prefix :: "nat \<Rightarrow> u8 list \<Rightarrow> u8 list \<Rightarrow> bool" where
  "same_prefix n a b \<longleftrightarrow> (\<forall>i < n. addr_bit a i = addr_bit b i)"

lemma u8_eq_bits: "(x :: u8) = y \<longleftrightarrow> (\<forall>j < 8. bit x (7 - j) = bit y (7 - j))"
proof
  assume eq: "\<forall>j < 8. bit x (7 - j) = bit y (7 - j)"
  show "x = y"
  proof (rule bit_word_eqI)
    fix n
    assume "n < LENGTH(8)"
    then have "7 - n < 8" "7 - (7 - n) = n" by auto
    with eq show "bit x n \<longleftrightarrow> bit y n" by metis
  qed
qed simp

lemma masked_eq_bits:
  assumes "0 < r" and "r < 8"
  shows "((x :: u8) AND push_bit (8 - r) 0xff = y AND push_bit (8 - r) 0xff)
           \<longleftrightarrow> (\<forall>j < r. bit x (7 - j) = bit y (7 - j))"
    (is "?L \<longleftrightarrow> ?R")
proof -
  have ff: "(0xff :: u8) = - 1" by simp
  have m: "bit (push_bit (8 - r) (0xff :: u8)) n \<longleftrightarrow> 8 - r \<le> n \<and> n < 8" for n
    by (auto simp: ff bit_not_iff bit_mask_iff)
  have "?L \<longleftrightarrow> (\<forall>n < 8. 8 - r \<le> n \<longrightarrow> bit x n = bit y n)"
    by (auto simp: bit_eq_iff bit_and_iff m)
  also have "\<dots> \<longleftrightarrow> ?R"
  proof
    assume L: "\<forall>n < 8. 8 - r \<le> n \<longrightarrow> bit x n = bit y n"
    show ?R using L assms by auto
  next
    assume R: ?R
    show "\<forall>n < 8. 8 - r \<le> n \<longrightarrow> bit x n = bit y n"
    proof (intro allI impI)
      fix n :: nat
      assume "n < 8" "8 - r \<le> n"
      then have "7 - n < r" "7 - (7 - n) = n" using assms by auto
      with R show "bit x n = bit y n" by metis
    qed
  qed
  finally show ?thesis .
qed

lemma same_prefix_bytes:
  assumes "k \<le> length a" and "k \<le> length b"
  shows "take k a = take k b \<longleftrightarrow> same_prefix (8 * k) a b"
proof -
  have "take k a = take k b \<longleftrightarrow> (\<forall>m < k. a ! m = b ! m)"
    using assms by (auto simp: list_eq_iff_nth_eq)
  also have "\<dots> \<longleftrightarrow> (\<forall>m < k. \<forall>j < 8. bit (a ! m) (7 - j) = bit (b ! m) (7 - j))"
    by (simp add: u8_eq_bits)
  also have "\<dots> \<longleftrightarrow> same_prefix (8 * k) a b"
  proof
    assume "\<forall>m < k. \<forall>j < 8. bit (a ! m) (7 - j) = bit (b ! m) (7 - j)"
    then show "same_prefix (8 * k) a b"
      by (simp add: same_prefix_def addr_bit_def less_mult_imp_div_less mult.commute)
  next
    assume sp: "same_prefix (8 * k) a b"
    show "\<forall>m < k. \<forall>j < 8. bit (a ! m) (7 - j) = bit (b ! m) (7 - j)"
    proof (intro allI impI)
      fix m j :: nat
      assume "m < k" "j < 8"
      then have "8 * m + j < 8 * k" by simp
      with sp have "addr_bit a (8 * m + j) = addr_bit b (8 * m + j)"
        by (simp add: same_prefix_def)
      with \<open>j < 8\<close> show "bit (a ! m) (7 - j) = bit (b ! m) (7 - j)"
        by (simp add: addr_bit_def)
    qed
  qed
  finally show ?thesis .
qed

lemma same_prefix_split:
  "same_prefix (m + r) a b \<longleftrightarrow> same_prefix m a b \<and> (\<forall>j < r. addr_bit a (m + j) = addr_bit b (m + j))"
proof
  assume h: "same_prefix m a b \<and> (\<forall>j < r. addr_bit a (m + j) = addr_bit b (m + j))"
  show "same_prefix (m + r) a b"
    unfolding same_prefix_def
  proof (intro allI impI)
    fix i
    assume i: "i < m + r"
    show "addr_bit a i = addr_bit b i"
    proof (cases "i < m")
      case True
      with h show ?thesis by (simp add: same_prefix_def)
    next
      case False
      then have "i - m < r" "m + (i - m) = i" using i by auto
      with h show ?thesis by metis
    qed
  qed
qed (auto simp: same_prefix_def)

lemma match_net_same_prefix:
  assumes bits: "0 \<le> net_bits net" "net_bits net \<le> 8 * int (length (net_addr net))"
    and len: "length addr = length (net_addr net)"
  shows "match_net addr net \<longleftrightarrow> same_prefix (nat (net_bits net)) addr (net_addr net)"
proof -
  define full where "full = nat (net_bits net div 8)"
  define r where "r = nat (net_bits net mod 8)"
  have n: "nat (net_bits net) = 8 * full + r"
    using bits(1) unfolding full_def r_def by (simp add: nat_div_distrib nat_mod_distrib)
  have r8: "r < 8" unfolding r_def by (simp add: nat_less_iff)
  have full: "full \<le> length addr" "full \<le> length (net_addr net)"
    using bits len unfolding full_def by linarith+
  have head: "(full > 0 \<and> take full addr \<noteq> take full (net_addr net))
                \<longleftrightarrow> \<not> same_prefix (8 * full) addr (net_addr net)"
    using same_prefix_bytes [OF full] by (cases "full = 0") (auto simp: same_prefix_def)
  have tail: "(\<forall>j < r. addr_bit addr (8 * full + j) = addr_bit (net_addr net) (8 * full + j))
                \<longleftrightarrow> (\<forall>j < r. bit (addr ! full) (7 - j) = bit (net_addr net ! full) (7 - j))"
    using r8 by (simp add: addr_bit_def)
  show ?thesis
    unfolding match_net_def Let_def full_def [symmetric] r_def [symmetric] head n
      same_prefix_split [of "8 * full" r] tail
    using masked_eq_bits [OF _ r8] by auto
qed

section \<open>The list walk\<close>

text \<open>The trimmed entries of a list, in order; nothing follows a trailing comma.\<close>

function entries :: "string \<Rightarrow> string list" where
  "entries p =
     (if p = [] then []
      else let (entry, rest) = next_entry p
           in trim_blank entry # (case rest of Some r \<Rightarrow> entries r | None \<Rightarrow> []))"
  by pat_completeness auto
termination
  by (relation "measure length") (auto dest!: sym [of "(_, Some _)"] next_entry_shorter)

declare entries.simps [simp del]

definition entry_ok :: "inet \<Rightarrow> string \<Rightarrow> bool" where
  "entry_ok L t \<longleftrightarrow> t \<noteq> [] \<and> length t < TOKEN_SIZE \<and> parse_net L t \<noteq> None"

definition entry_matches :: "inet \<Rightarrow> af \<Rightarrow> u8 list \<Rightarrow> string \<Rightarrow> bool" where
  "entry_matches L fam addr t \<longleftrightarrow>
     (case parse_net L t of Some net \<Rightarrow> net_family net = fam \<and> match_net addr net | None \<Rightarrow> False)"

lemma list_matches_entries:
  "list_matches L p fam addr \<longleftrightarrow>
     (\<exists>t \<in> set (entries p). t \<noteq> [] \<and> length t < TOKEN_SIZE \<and> entry_matches L fam addr t)"
proof (induction L p fam addr rule: list_matches.induct)
  case (1 L p fam addr)
  show ?case
  proof (cases "p = []")
    case True
    then show ?thesis by (simp add: list_matches.simps entries.simps)
  next
    case False
    obtain e rest where ne: "next_entry p = (e, rest)" by force
    note IH = "1.IH" [OF False ne [symmetric] refl refl]
    show ?thesis
      using False ne IH
      by (cases rest)
        (auto simp: Let_def list_matches.simps [of L p] entries.simps [of p] entry_matches_def)
  qed
qed

lemma validate_entries_iff: "validate_entries L p = 0 \<longleftrightarrow> (\<forall>t \<in> set (entries p). entry_ok L t)"
proof (induction L p rule: validate_entries.induct)
  case (1 L p)
  show ?case
  proof (cases "p = []")
    case True
    then show ?thesis by (simp add: validate_entries.simps entries.simps)
  next
    case False
    obtain e rest where ne: "next_entry p = (e, rest)" by force
    show ?thesis
    proof (cases "entry_ok L (trim_blank e)")
      case True
      then obtain net where net: "parse_net L (trim_blank e) = Some net"
        and t: "trim_blank e \<noteq> []" "\<not> TOKEN_SIZE \<le> length (trim_blank e)"
        by (auto simp: entry_ok_def)
      note IH = "1.IH" [OF False ne [symmetric] refl refl _ net]
      show ?thesis
        using True False ne net t IH
        by (cases rest) (auto simp: Let_def validate_entries.simps [of L p] entries.simps [of p])
    next
      case bad: False
      with False ne show ?thesis
        by (auto simp: Let_def validate_entries.simps [of L p] entries.simps [of p] entry_ok_def
            split: option.splits)
    qed
  qed
qed

lemma validate_entries_result: "validate_entries L p = 0 \<or> validate_entries L p = - 1"
proof (induction L p rule: validate_entries.induct)
  case (1 L p)
  then show ?case
    by (subst (1 2) validate_entries.simps) (auto simp: Let_def split: prod.splits option.splits)
qed

lemma list_matches_validated:
  assumes "wcat_access_validate_list L (Some l) = 0"
  shows "list_matches L l fam addr \<longleftrightarrow> (\<exists>t \<in> set (entries l). entry_matches L fam addr t)"
  using assms
  by (auto simp: wcat_access_validate_list_def list_matches_entries validate_entries_iff entry_ok_def)

section \<open>The decision\<close>

definition peer_addr :: "peer \<Rightarrow> (af \<times> u8 list) option" where
  "peer_addr p = (case p of PeerInet a \<Rightarrow> Some (AF_INET, a) | PeerInet6 a \<Rightarrow> Some (AF_INET6, a)
                  | _ \<Rightarrow> None)"

definition access_allows :: "inet \<Rightarrow> cstr \<Rightarrow> cstr \<Rightarrow> peer \<Rightarrow> bool" where
  "access_allows L al dl p \<longleftrightarrow>
     al = None \<and> dl = None \<or>
     (\<exists>fam a. peer_addr p = Some (fam, a)
        \<and> (\<forall>l. dl = Some l \<longrightarrow> \<not> list_matches L l fam a)
        \<and> (\<forall>l. al = Some l \<longrightarrow> list_matches L l fam a))"

lemma wcat_access_check_fd_decision:
  "fst (wcat_access_check_fd L cfg fd s)
     \<longleftrightarrow> access_allows L (allow_list cfg) (deny_list cfg) (peer_of s fd)"
  by (cases "peer_of s fd")
    (auto simp: wcat_access_check_fd_def fd_peer_addr_def access_allows_def peer_addr_def
      split: option.splits)

lemma wcat_access_check_fd_frame [simp]:
  "got (snd (wcat_access_check_fd L cfg fd s)) = got s"
  "sent (snd (wcat_access_check_fd L cfg fd s)) = sent s"
  "rd_q (snd (wcat_access_check_fd L cfg fd s)) = rd_q s"
  "wr_q (snd (wcat_access_check_fd L cfg fd s)) = wr_q s"
  "wcat_stop (snd (wcat_access_check_fd L cfg fd s)) = wcat_stop s"
  "peer_of (snd (wcat_access_check_fd L cfg fd s)) = peer_of s"
  "poll_q (snd (wcat_access_check_fd L cfg fd s)) = poll_q s"
  "sig_q (snd (wcat_access_check_fd L cfg fd s)) = sig_q s"
  "acc_q (snd (wcat_access_check_fd L cfg fd s)) = acc_q s"
  "open_fds (snd (wcat_access_check_fd L cfg fd s)) = open_fds s"
  "nonblocking (snd (wcat_access_check_fd L cfg fd s)) = nonblocking s"
  by (cases "peer_of s fd";
      auto simp: wcat_access_check_fd_def fd_peer_addr_def split: option.splits)+

end
