(* ===== verification/Wcat_Cli.thy ===== *)
theory Wcat_Cli
  imports Wcat_Access
begin

text \<open>
  src/cli.c: the command line parser. \<open>argv\<close> is the list of the arguments; an index into it is
  the list that starts there, so \<open>++idx >= argc\<close> reads as an empty rest. Return codes are those
  of the code (0 accepted, 1 help or unknown option, -1 error), and the configuration is returned
  in every case, as the code leaves it in \<open>*cfg\<close>.

  The lemmas show what an accepted configuration guarantees to the other components
  (\<open>config_ok\<close>), that peer verification is off only on request, and that every configuration
  with these guarantees has a command line that produces it.
\<close>

section \<open>Definitions\<close>

definition WCAT_DEFAULT_BROKER_MAX_CLIENTS :: int where
  "WCAT_DEFAULT_BROKER_MAX_CLIENTS = 64"

definition WCAT_DEFAULT_BROKER_BUFFER_BYTES :: int where
  "WCAT_DEFAULT_BROKER_BUFFER_BYTES = 65536"

definition wcat_config_init :: wcat_config where
  "wcat_config_init =
     \<lparr>mode = WCAT_MODE_NONE, host = None, port = None, file_path = None, left = None,
      right = None, exec_path = None, cert_file = None, key_file = None, ca_file = None,
      sni = None, proxy_url = None, alpn = Some ''wcat/1'', client_cert_file = None,
      client_key_file = None, allow_list = None, deny_list = None,
      udp = False, tls = False, tls_verify = True, keep_open = False, multi = False,
      verbose = False, json = False, hex = False, pty = False, chat = False,
      unix_socket = False, sctp = False, vsock = False, tls_require_client_cert = False,
      quic = False, family = AF_UNSPEC, timeout_ms = - 1,
      broker_max_clients = WCAT_DEFAULT_BROKER_MAX_CLIENTS,
      broker_buffer_bytes = WCAT_DEFAULT_BROKER_BUFFER_BYTES\<rparr>"

definition parse_range_int :: "string \<Rightarrow> int \<Rightarrow> int \<Rightarrow> int" where
  "parse_range_int s lo hi =
     (if s = [] then - 1
      else let (v, e, _) = strtol s
           in if e = s \<or> e \<noteq> [] \<or> v < lo \<or> v > hi then - 1 else v)"

text \<open>An option that takes a value fails when it is the last argument.\<close>

definition with_value ::
  "string list \<Rightarrow> wcat_config \<Rightarrow> (string \<Rightarrow> int \<times> wcat_config) \<Rightarrow> int \<times> string list \<times> wcat_config" where
  "with_value rest cfg f =
     (case rest of [] \<Rightarrow> (- 1, [], cfg) | v # rest' \<Rightarrow> (let (rc, c) = f v in (rc, rest', c)))"

definition parse_common ::
  "string \<Rightarrow> string list \<Rightarrow> wcat_config \<Rightarrow> int \<times> string list \<times> wcat_config" where
  "parse_common arg rest cfg =
     (if arg = ''-u'' \<or> arg = ''--udp'' then (0, rest, cfg\<lparr>udp := True\<rparr>)
      else if arg = ''-4'' then (0, rest, cfg\<lparr>family := AF_INET\<rparr>)
      else if arg = ''-6'' then (0, rest, cfg\<lparr>family := AF_INET6\<rparr>)
      else if arg = ''-k'' \<or> arg = ''--keep-open'' then (0, rest, cfg\<lparr>keep_open := True\<rparr>)
      else if arg = ''--multi'' then (0, rest, cfg\<lparr>multi := True\<rparr>)
      else if arg = ''-v'' \<or> arg = ''--verbose'' then (0, rest, cfg\<lparr>verbose := True\<rparr>)
      else if arg = ''--json'' then (0, rest, cfg\<lparr>json := True\<rparr>)
      else if arg = ''--hex'' then (0, rest, cfg\<lparr>hex := True\<rparr>)
      else if arg = ''--chat'' then (0, rest, cfg\<lparr>chat := True\<rparr>)
      else if arg = ''-U'' \<or> arg = ''--unix'' then (0, rest, cfg\<lparr>unix_socket := True\<rparr>)
      else if arg = ''--sctp'' then (0, rest, cfg\<lparr>sctp := True\<rparr>)
      else if arg = ''--vsock'' then (0, rest, cfg\<lparr>vsock := True\<rparr>)
      else if arg = ''--tls'' then (0, rest, cfg\<lparr>tls := True\<rparr>)
      else if arg = ''--quic'' then (0, rest, cfg\<lparr>quic := True, tls := True\<rparr>)
      else if arg = ''--tls-insecure'' then (0, rest, cfg\<lparr>tls := True, tls_verify := False\<rparr>)
      else if arg = ''--tls-verify'' then (0, rest, cfg\<lparr>tls := True, tls_verify := True\<rparr>)
      else if arg = ''--pty'' then (0, rest, cfg\<lparr>pty := True\<rparr>)
      else if arg = ''--timeout'' then
        with_value rest cfg (\<lambda>v. let t = wcat_parse_timeout_ms (Some v)
                                 in (if t < 0 then - 1 else 0, cfg\<lparr>timeout_ms := t\<rparr>))
      else if arg = ''--cert'' then with_value rest cfg (\<lambda>v. (0, cfg\<lparr>cert_file := Some v\<rparr>))
      else if arg = ''--key'' then with_value rest cfg (\<lambda>v. (0, cfg\<lparr>key_file := Some v\<rparr>))
      else if arg = ''--client-cert'' then
        with_value rest cfg (\<lambda>v. (0, cfg\<lparr>client_cert_file := Some v, tls := True\<rparr>))
      else if arg = ''--client-key'' then
        with_value rest cfg (\<lambda>v. (0, cfg\<lparr>client_key_file := Some v, tls := True\<rparr>))
      else if arg = ''--require-client-cert'' then
        (0, rest, cfg\<lparr>tls := True, tls_require_client_cert := True\<rparr>)
      else if arg = ''--ca-file'' then with_value rest cfg (\<lambda>v. (0, cfg\<lparr>ca_file := Some v\<rparr>))
      else if arg = ''--sni'' then with_value rest cfg (\<lambda>v. (0, cfg\<lparr>sni := Some v\<rparr>))
      else if arg = ''--alpn'' then
        with_value rest cfg (\<lambda>v. if length v = 0 \<or> length v > 255 then (- 1, cfg)
                                 else (0, cfg\<lparr>alpn := Some v\<rparr>))
      else if arg = ''--proxy'' then with_value rest cfg (\<lambda>v. (0, cfg\<lparr>proxy_url := Some v\<rparr>))
      else if arg = ''--exec'' then with_value rest cfg (\<lambda>v. (0, cfg\<lparr>exec_path := Some v\<rparr>))
      else if arg = ''--max-clients'' then
        with_value rest cfg (\<lambda>v. let n = parse_range_int v 1 256
                                 in (if n < 0 then - 1 else 0, cfg\<lparr>broker_max_clients := n\<rparr>))
      else if arg = ''--broker-buffer'' then
        with_value rest cfg (\<lambda>v. let n = parse_range_int v 1024 1048576
                                 in (if n < 0 then - 1 else 0, cfg\<lparr>broker_buffer_bytes := n\<rparr>))
      else if arg = ''--allow'' then with_value rest cfg (\<lambda>v. (0, cfg\<lparr>allow_list := Some v\<rparr>))
      else if arg = ''--deny'' then with_value rest cfg (\<lambda>v. (0, cfg\<lparr>deny_list := Some v\<rparr>))
      else (1, rest, cfg))"

text \<open>One branch or the other: the cases of the long conditional, without its conditions.\<close>

lemma if_either: "(if c then a else b) = r \<Longrightarrow> (a = r \<Longrightarrow> P) \<Longrightarrow> (b = r \<Longrightarrow> P) \<Longrightarrow> P"
  by (cases c) auto

lemma with_value_rest:
  "with_value rest cfg f = (rc, rest', cfg') \<Longrightarrow> length rest' \<le> length rest"
  by (auto simp: with_value_def split: list.splits prod.splits)

lemma parse_common_rest:
  "parse_common arg rest cfg = (rc, rest', cfg') \<Longrightarrow> length rest' \<le> length rest"
  unfolding parse_common_def by (elim if_either) (auto dest: with_value_rest)

function parse_options :: "string list \<Rightarrow> wcat_config \<Rightarrow> int \<times> string list \<times> wcat_config" where
  "parse_options args cfg =
     (case args of
        [] \<Rightarrow> (0, [], cfg)
      | arg # rest \<Rightarrow>
          if arg = [] \<or> hd arg \<noteq> CHR ''-'' \<or> arg = ''-'' then (0, args, cfg)
          else if arg = ''--'' then (0, rest, cfg)
          else let (rc, rest', cfg') = parse_common arg rest cfg
               in if rc \<noteq> 0 then (- 1, rest', cfg') else parse_options rest' cfg')"
  by pat_completeness auto
termination
  by (relation "measure (\<lambda>(args, cfg). length args)")
    (auto dest!: sym [of "(_, _, _)"] parse_common_rest)

declare parse_options.simps [simp del]

definition mode_of_command :: "string \<Rightarrow> wcat_mode option" where
  "mode_of_command c =
     (if c = ''connect'' then Some WCAT_MODE_CONNECT
      else if c = ''listen'' then Some WCAT_MODE_LISTEN
      else if c = ''send'' then Some WCAT_MODE_SEND
      else if c = ''recv'' then Some WCAT_MODE_RECV
      else if c = ''relay'' then Some WCAT_MODE_RELAY
      else if c = ''broker'' then Some WCAT_MODE_BROKER
      else if c = ''proxy'' then Some WCAT_MODE_PROXY
      else None)"

text \<open>The positional arguments; \<open>None\<close> where their number is wrong.\<close>

definition parse_positional :: "string list \<Rightarrow> wcat_config \<Rightarrow> wcat_config option" where
  "parse_positional args cfg =
     (if mode cfg = WCAT_MODE_SEND \<or> mode cfg = WCAT_MODE_RECV
      then (case args of
              [f, h, p] \<Rightarrow> Some (cfg\<lparr>file_path := Some f, host := Some h, port := Some p\<rparr>)
            | _ \<Rightarrow> None)
      else if mode cfg = WCAT_MODE_RELAY
      then (case args of [l, r] \<Rightarrow> Some (cfg\<lparr>left := Some l, right := Some r\<rparr>) | _ \<Rightarrow> None)
      else if unix_socket cfg \<and> (mode cfg = WCAT_MODE_CONNECT \<or> mode cfg = WCAT_MODE_LISTEN
                \<or> mode cfg = WCAT_MODE_BROKER)
      then (case args of [h] \<Rightarrow> Some (cfg\<lparr>host := Some h, port := Some ''0''\<rparr>) | _ \<Rightarrow> None)
      else (case args of [h, p] \<Rightarrow> Some (cfg\<lparr>host := Some h, port := Some p\<rparr>) | _ \<Rightarrow> None))"

text \<open>The checks that follow, in the order of the code; \<open>True\<close> means that one of them fails.\<close>

definition config_rejected :: "inet \<Rightarrow> wcat_config \<Rightarrow> bool" where
  "config_rejected L cfg =
     (if \<not> unix_socket cfg \<and> port cfg \<noteq> None \<and> wcat_parse_port (port cfg) < 0 then True
      else if tls cfg \<and> udp cfg then True
      else if (if udp cfg then 1 else 0) + (if sctp cfg then 1 else 0)
              + (if unix_socket cfg then 1 else 0) + (if vsock cfg then 1 else 0) > (1 :: int) then True
      else if quic cfg \<and> proxy_url cfg \<noteq> None then True
      else if quic cfg \<and> mode cfg \<noteq> WCAT_MODE_CONNECT \<and> mode cfg \<noteq> WCAT_MODE_LISTEN then True
      else if (sctp cfg \<or> unix_socket cfg \<or> vsock cfg) \<and> mode cfg \<noteq> WCAT_MODE_CONNECT
              \<and> mode cfg \<noteq> WCAT_MODE_LISTEN \<and> mode cfg \<noteq> WCAT_MODE_BROKER
              \<and> mode cfg \<noteq> WCAT_MODE_RELAY then True
      else if (sctp cfg \<or> unix_socket cfg \<or> vsock cfg) \<and> proxy_url cfg \<noteq> None then True
      else if pty cfg \<and> exec_path cfg = None then True
      else if chat cfg \<and> mode cfg \<noteq> WCAT_MODE_BROKER then True
      else if multi cfg \<and> (mode cfg \<noteq> WCAT_MODE_LISTEN \<or> udp cfg \<or> tls cfg \<or> quic cfg
              \<or> exec_path cfg \<noteq> None \<or> keep_open cfg) then True
      else if (client_cert_file cfg = None) \<noteq> (client_key_file cfg = None) then True
      else if tls_require_client_cert cfg \<and> ca_file cfg = None then True
      else wcat_access_validate_list L (allow_list cfg) < 0
           \<or> wcat_access_validate_list L (deny_list cfg) < 0)"

definition wcat_parse_args :: "inet \<Rightarrow> string list \<Rightarrow> int \<times> wcat_config" where
  "wcat_parse_args L argv =
     (case argv of
        _ # cmd # rest \<Rightarrow>
          if cmd = ''-h'' \<or> cmd = ''--help'' then (1, wcat_config_init)
          else (case mode_of_command cmd of
                  None \<Rightarrow> (- 1, wcat_config_init)
                | Some m \<Rightarrow>
                    let (rc, args, cfg) = parse_options rest (wcat_config_init\<lparr>mode := m\<rparr>)
                    in if rc < 0 then (- 1, cfg)
                       else (case parse_positional args cfg of
                               None \<Rightarrow> (- 1, cfg)
                             | Some cfg' \<Rightarrow> if config_rejected L cfg' then (- 1, cfg') else (0, cfg')))
      | _ \<Rightarrow> (1, wcat_config_init))"

section \<open>What the options keep\<close>

lemma parse_range_int_range [wcat_bounds]:
  "0 \<le> lo \<Longrightarrow> 0 \<le> parse_range_int v lo hi \<Longrightarrow> lo \<le> parse_range_int v lo hi \<and> parse_range_int v lo hi \<le> hi"
  by (auto simp: parse_range_int_def Let_def split: prod.splits if_splits)

text \<open>The part of \<open>config_ok\<close> that is established option by option.\<close>

definition options_ok :: "wcat_config \<Rightarrow> bool" where
  "options_ok cfg \<longleftrightarrow>
     (timeout_ms cfg = - 1 \<or> 0 \<le> timeout_ms cfg \<and> timeout_ms cfg \<le> INT_MAX \<and> timeout_ms cfg mod 1000 = 0)
     \<and> 1 \<le> broker_max_clients cfg \<and> broker_max_clients cfg \<le> 256
     \<and> 1024 \<le> broker_buffer_bytes cfg \<and> broker_buffer_bytes cfg \<le> 1048576
     \<and> (\<exists>a. alpn cfg = Some a \<and> 1 \<le> length a \<and> length a \<le> 255)
     \<and> (quic cfg \<longrightarrow> tls cfg) \<and> (\<not> tls_verify cfg \<longrightarrow> tls cfg)
     \<and> (tls_require_client_cert cfg \<longrightarrow> tls cfg)
     \<and> (client_cert_file cfg \<noteq> None \<longrightarrow> tls cfg) \<and> (client_key_file cfg \<noteq> None \<longrightarrow> tls cfg)"

lemma options_ok_init: "options_ok (wcat_config_init\<lparr>mode := m\<rparr>)"
  by (simp add: options_ok_def wcat_config_init_def WCAT_DEFAULT_BROKER_MAX_CLIENTS_def
      WCAT_DEFAULT_BROKER_BUFFER_BYTES_def)

lemma options_ok_frame [simp]:
  "options_ok (cfg\<lparr>udp := b\<rparr>) = options_ok cfg" "options_ok (cfg\<lparr>family := f\<rparr>) = options_ok cfg"
  "options_ok (cfg\<lparr>keep_open := b\<rparr>) = options_ok cfg" "options_ok (cfg\<lparr>multi := b\<rparr>) = options_ok cfg"
  "options_ok (cfg\<lparr>verbose := b\<rparr>) = options_ok cfg" "options_ok (cfg\<lparr>json := b\<rparr>) = options_ok cfg"
  "options_ok (cfg\<lparr>hex := b\<rparr>) = options_ok cfg" "options_ok (cfg\<lparr>chat := b\<rparr>) = options_ok cfg"
  "options_ok (cfg\<lparr>unix_socket := b\<rparr>) = options_ok cfg" "options_ok (cfg\<lparr>sctp := b\<rparr>) = options_ok cfg"
  "options_ok (cfg\<lparr>vsock := b\<rparr>) = options_ok cfg" "options_ok (cfg\<lparr>pty := b\<rparr>) = options_ok cfg"
  "options_ok (cfg\<lparr>cert_file := c\<rparr>) = options_ok cfg" "options_ok (cfg\<lparr>key_file := c\<rparr>) = options_ok cfg"
  "options_ok (cfg\<lparr>ca_file := c\<rparr>) = options_ok cfg" "options_ok (cfg\<lparr>sni := c\<rparr>) = options_ok cfg"
  "options_ok (cfg\<lparr>proxy_url := c\<rparr>) = options_ok cfg" "options_ok (cfg\<lparr>exec_path := c\<rparr>) = options_ok cfg"
  "options_ok (cfg\<lparr>allow_list := c\<rparr>) = options_ok cfg" "options_ok (cfg\<lparr>deny_list := c\<rparr>) = options_ok cfg"
  "options_ok (cfg\<lparr>host := c\<rparr>) = options_ok cfg" "options_ok (cfg\<lparr>port := c\<rparr>) = options_ok cfg"
  "options_ok (cfg\<lparr>file_path := c\<rparr>) = options_ok cfg" "options_ok (cfg\<lparr>left := c\<rparr>) = options_ok cfg"
  "options_ok (cfg\<lparr>right := c\<rparr>) = options_ok cfg"
  by (simp_all add: options_ok_def)

lemma options_ok_tls [simp]:
  "options_ok cfg \<Longrightarrow> options_ok (cfg\<lparr>tls := True\<rparr>)"
  "options_ok cfg \<Longrightarrow> options_ok (cfg\<lparr>tls := True, quic := b\<rparr>)"
  "options_ok cfg \<Longrightarrow> options_ok (cfg\<lparr>tls := True, tls_verify := b\<rparr>)"
  "options_ok cfg \<Longrightarrow> options_ok (cfg\<lparr>tls := True, tls_require_client_cert := b\<rparr>)"
  "options_ok cfg \<Longrightarrow> options_ok (cfg\<lparr>client_cert_file := c, tls := True\<rparr>)"
  "options_ok cfg \<Longrightarrow> options_ok (cfg\<lparr>client_key_file := c, tls := True\<rparr>)"
  "options_ok cfg \<Longrightarrow> options_ok (cfg\<lparr>quic := b, tls := True\<rparr>)"
  by (auto simp: options_ok_def)

lemma options_ok_values:
  "options_ok cfg \<Longrightarrow> \<not> wcat_parse_timeout_ms (Some v) < 0 \<Longrightarrow>
     options_ok (cfg\<lparr>timeout_ms := wcat_parse_timeout_ms (Some v)\<rparr>)"
  "options_ok cfg \<Longrightarrow> \<not> parse_range_int v 1 256 < 0 \<Longrightarrow>
     options_ok (cfg\<lparr>broker_max_clients := parse_range_int v 1 256\<rparr>)"
  "options_ok cfg \<Longrightarrow> \<not> parse_range_int v 1024 1048576 < 0 \<Longrightarrow>
     options_ok (cfg\<lparr>broker_buffer_bytes := parse_range_int v 1024 1048576\<rparr>)"
  "options_ok cfg \<Longrightarrow> v \<noteq> [] \<Longrightarrow> \<not> 255 < length v \<Longrightarrow> options_ok (cfg\<lparr>alpn := Some v\<rparr>)"
  using wcat_parse_timeout_ms_range [of "Some v"] parse_range_int_range [of 1 v 256]
    parse_range_int_range [of 1024 v 1048576]
  by (auto simp: options_ok_def Suc_le_eq)

lemma with_value_cases:
  assumes "with_value rest cfg f = (0, rest', cfg')"
  obtains v where "rest = v # rest'" and "f v = (0, cfg')"
  using assms by (auto simp: with_value_def split: list.splits prod.splits)

lemma parse_common_ok:
  assumes "parse_common arg rest cfg = (0, rest', cfg')" and "options_ok cfg"
  shows "options_ok cfg'"
  using assms(1) unfolding parse_common_def
  by (elim if_either)
    (use assms(2) in \<open>auto simp: Let_def split: if_split_asm elim!: with_value_cases
       intro: options_ok_values\<close>)

lemma parse_options_Nil [simp]: "parse_options [] cfg = (0, [], cfg)"
  by (simp add: parse_options.simps)

lemma parse_options_stop:
  "arg = [] \<or> hd arg \<noteq> CHR ''-'' \<or> arg = ''-'' \<Longrightarrow>
     parse_options (arg # rest) cfg = (0, arg # rest, cfg)"
  by (simp add: parse_options.simps [of "arg # rest"])

lemma parse_options_dashes [simp]: "parse_options (''--'' # rest) cfg = (0, rest, cfg)"
  by (simp add: parse_options.simps [of "''--'' # rest"])

lemma parse_options_step:
  "arg \<noteq> [] \<Longrightarrow> hd arg = CHR ''-'' \<Longrightarrow> arg \<noteq> ''-'' \<Longrightarrow> arg \<noteq> ''--'' \<Longrightarrow>
     parse_options (arg # rest) cfg =
       (let (rc, rest', cfg') = parse_common arg rest cfg
        in if rc \<noteq> 0 then (- 1, rest', cfg') else parse_options rest' cfg')"
  by (simp add: parse_options.simps [of "arg # rest"])

lemma parse_common_suffix:
  "parse_common arg rest cfg = (rc, rest', cfg') \<Longrightarrow> set rest' \<subseteq> set rest"
  unfolding parse_common_def
  by (elim if_either) (auto simp: with_value_def split: list.splits prod.splits)

text \<open>
  The loop keeps whatever every option keeps; the options it meets are among the arguments.
\<close>

lemma parse_options_keeps:
  assumes step: "\<And>arg rest c rest' c'. P c \<Longrightarrow> arg \<in> A \<Longrightarrow>
                   parse_common arg rest c = (0, rest', c') \<Longrightarrow> P c'"
  shows "parse_options args cfg = (0, args', cfg') \<Longrightarrow> P cfg \<Longrightarrow> set args \<subseteq> A \<Longrightarrow> P cfg'"
proof (induction args cfg rule: parse_options.induct)
  case (1 args cfg)
  show ?case
  proof (cases args)
    case Nil
    with "1.prems" show ?thesis by (simp add: parse_options.simps)
  next
    case (Cons arg rest)
    show ?thesis
    proof (cases "arg = [] \<or> hd arg \<noteq> CHR ''-'' \<or> arg = ''-'' \<or> arg = ''--''")
      case True
      with "1.prems" Cons parse_options_stop [of arg rest cfg] show ?thesis by auto
    next
      case False
      obtain rc rest1 c1 where pc: "parse_common arg rest cfg = (rc, rest1, c1)"
        using prod_cases3 by blast
      have unf: "parse_options args cfg = (if rc \<noteq> 0 then (- 1, rest1, c1) else parse_options rest1 c1)"
        using Cons False pc by (simp add: parse_options_step)
      with "1.prems"(1) have rc: "rc = 0" by (auto split: if_splits)
      have P1: "P c1" using step [OF "1.prems"(2) _ pc [unfolded rc]] "1.prems"(3) Cons by simp
      have A1: "set rest1 \<subseteq> A"
        using parse_common_suffix [OF pc] "1.prems"(3) Cons by auto
      have rec: "parse_options rest1 c1 = (0, args', cfg')" using unf "1.prems"(1) rc by simp
      from "1.IH" [OF Cons _ _ pc [symmetric] refl refl] False rc rec P1 A1 show ?thesis by simp
    qed
  qed
qed

lemma parse_options_result:
  "parse_options args cfg = (rc, args', cfg') \<Longrightarrow> rc = 0 \<or> rc = - 1"
proof (induction args cfg rule: parse_options.induct)
  case (1 args cfg)
  show ?case
  proof (cases args)
    case Nil
    with "1.prems" show ?thesis by (simp add: parse_options.simps)
  next
    case (Cons arg rest)
    obtain rc1 rest1 c1 where pc: "parse_common arg rest cfg = (rc1, rest1, c1)"
      using prod_cases3 by blast
    show ?thesis
    proof (cases "arg = [] \<or> hd arg \<noteq> CHR ''-'' \<or> arg = ''-'' \<or> arg = ''--''")
      case True
      with "1.prems" Cons parse_options_stop [of arg rest cfg] show ?thesis by auto
    next
      case False
      with "1.prems" "1.IH" [OF Cons _ _ pc [symmetric] refl refl] Cons pc show ?thesis
        by (auto simp: parse_options_step split: if_split_asm)
    qed
  qed
qed

section \<open>What an accepted configuration guarantees\<close>

definition transports :: "wcat_config \<Rightarrow> bool list" where
  "transports cfg = filter (\<lambda>b. b) [udp cfg, sctp cfg, unix_socket cfg, vsock cfg]"

definition config_ok :: "inet \<Rightarrow> wcat_config \<Rightarrow> bool" where
  "config_ok L cfg \<longleftrightarrow>
     options_ok cfg \<and> mode cfg \<noteq> WCAT_MODE_NONE
     \<and> (mode cfg \<in> {WCAT_MODE_SEND, WCAT_MODE_RECV} \<longrightarrow>
          file_path cfg \<noteq> None \<and> host cfg \<noteq> None \<and> port cfg \<noteq> None)
     \<and> (mode cfg = WCAT_MODE_RELAY \<longrightarrow> left cfg \<noteq> None \<and> right cfg \<noteq> None \<and> port cfg = None)
     \<and> (mode cfg \<noteq> WCAT_MODE_RELAY \<longrightarrow> host cfg \<noteq> None \<and> port cfg \<noteq> None)
     \<and> (\<not> unix_socket cfg \<and> mode cfg \<noteq> WCAT_MODE_RELAY \<longrightarrow> 1 \<le> wcat_parse_port (port cfg))
     \<and> length (transports cfg) \<le> 1 \<and> \<not> (tls cfg \<and> udp cfg)
     \<and> (quic cfg \<longrightarrow> proxy_url cfg = None \<and> mode cfg \<in> {WCAT_MODE_CONNECT, WCAT_MODE_LISTEN})
     \<and> (sctp cfg \<or> unix_socket cfg \<or> vsock cfg \<longrightarrow>
          proxy_url cfg = None \<and>
          mode cfg \<in> {WCAT_MODE_CONNECT, WCAT_MODE_LISTEN, WCAT_MODE_BROKER, WCAT_MODE_RELAY})
     \<and> (pty cfg \<longrightarrow> exec_path cfg \<noteq> None) \<and> (chat cfg \<longrightarrow> mode cfg = WCAT_MODE_BROKER)
     \<and> (multi cfg \<longrightarrow> mode cfg = WCAT_MODE_LISTEN \<and> \<not> udp cfg \<and> \<not> tls cfg \<and> \<not> quic cfg
          \<and> exec_path cfg = None \<and> \<not> keep_open cfg)
     \<and> (client_cert_file cfg = None \<longleftrightarrow> client_key_file cfg = None)
     \<and> (tls_require_client_cert cfg \<longrightarrow> ca_file cfg \<noteq> None)
     \<and> wcat_access_validate_list L (allow_list cfg) = 0
     \<and> wcat_access_validate_list L (deny_list cfg) = 0"

lemma validate_not_negative: "\<not> wcat_access_validate_list L l < 0 \<longleftrightarrow> wcat_access_validate_list L l = 0"
proof (cases l)
  case (Some t)
  with validate_entries_result [of L t] show ?thesis by (auto simp: wcat_access_validate_list_def)
qed (simp add: wcat_access_validate_list_def)

lemma wcat_parse_port_not_negative: "\<not> wcat_parse_port p < 0 \<Longrightarrow> 1 \<le> wcat_parse_port p"
  using wcat_parse_port_range [of p] by auto

lemma if_True_eq: "(if c then True else b) \<longleftrightarrow> c \<or> b"
  by simp


lemma accepted_checks:
  assumes "\<not> config_rejected L cfg" and "options_ok cfg" and "mode cfg \<noteq> WCAT_MODE_NONE"
    and "mode cfg \<in> {WCAT_MODE_SEND, WCAT_MODE_RECV} \<longrightarrow>
          file_path cfg \<noteq> None \<and> host cfg \<noteq> None \<and> port cfg \<noteq> None"
    and "mode cfg = WCAT_MODE_RELAY \<longrightarrow> left cfg \<noteq> None \<and> right cfg \<noteq> None \<and> port cfg = None"
    and "mode cfg \<noteq> WCAT_MODE_RELAY \<longrightarrow> host cfg \<noteq> None \<and> port cfg \<noteq> None"
  shows "config_ok L cfg"
proof -
  have "\<not> (\<not> unix_socket cfg \<and> port cfg \<noteq> None \<and> wcat_parse_port (port cfg) < 0)"
    and n: "\<not> (if udp cfg then 1 else 0) + (if sctp cfg then 1 else 0)
      + (if unix_socket cfg then 1 else 0) + (if vsock cfg then 1 else 0) > (1 :: int)"
    and c1: "\<not> (tls cfg \<and> udp cfg)" and c2: "\<not> (quic cfg \<and> proxy_url cfg \<noteq> None)"
    and c3: "\<not> (quic cfg \<and> mode cfg \<noteq> WCAT_MODE_CONNECT \<and> mode cfg \<noteq> WCAT_MODE_LISTEN)"
    and c4: "\<not> ((sctp cfg \<or> unix_socket cfg \<or> vsock cfg) \<and> mode cfg \<noteq> WCAT_MODE_CONNECT
        \<and> mode cfg \<noteq> WCAT_MODE_LISTEN \<and> mode cfg \<noteq> WCAT_MODE_BROKER \<and> mode cfg \<noteq> WCAT_MODE_RELAY)"
    and c5: "\<not> ((sctp cfg \<or> unix_socket cfg \<or> vsock cfg) \<and> proxy_url cfg \<noteq> None)"
    and c6: "\<not> (pty cfg \<and> exec_path cfg = None)" and c7: "\<not> (chat cfg \<and> mode cfg \<noteq> WCAT_MODE_BROKER)"
    and c8: "\<not> (multi cfg \<and> (mode cfg \<noteq> WCAT_MODE_LISTEN \<or> udp cfg \<or> tls cfg \<or> quic cfg
        \<or> exec_path cfg \<noteq> None \<or> keep_open cfg))"
    and c9: "\<not> (client_cert_file cfg = None) \<noteq> (client_key_file cfg = None)"
    and c10: "\<not> (tls_require_client_cert cfg \<and> ca_file cfg = None)"
    and "\<not> wcat_access_validate_list L (allow_list cfg) < 0"
    and "\<not> wcat_access_validate_list L (deny_list cfg) < 0"
    using assms(1) unfolding config_rejected_def if_True_eq de_Morgan_disj
    by - ((elim conjE)?, assumption)+
  then have p: "\<not> unix_socket cfg \<and> port cfg \<noteq> None \<Longrightarrow> 1 \<le> wcat_parse_port (port cfg)"
    and v: "wcat_access_validate_list L (allow_list cfg) = 0"
      "wcat_access_validate_list L (deny_list cfg) = 0"
    using wcat_parse_port_not_negative [of "port cfg"] validate_not_negative by metis+
  have t: "length (transports cfg) \<le> 1"
    using n unfolding transports_def
    by (cases "udp cfg"; cases "sctp cfg"; cases "unix_socket cfg"; cases "vsock cfg") simp_all
  have q: "quic cfg \<longrightarrow> proxy_url cfg = None \<and> mode cfg \<in> {WCAT_MODE_CONNECT, WCAT_MODE_LISTEN}"
    using c2 c3 by simp
  have s: "sctp cfg \<or> unix_socket cfg \<or> vsock cfg \<longrightarrow> proxy_url cfg = None \<and>
      mode cfg \<in> {WCAT_MODE_CONNECT, WCAT_MODE_LISTEN, WCAT_MODE_BROKER, WCAT_MODE_RELAY}"
    using c4 c5 by auto
  have m: "multi cfg \<longrightarrow> mode cfg = WCAT_MODE_LISTEN \<and> \<not> udp cfg \<and> \<not> tls cfg \<and> \<not> quic cfg
      \<and> exec_path cfg = None \<and> \<not> keep_open cfg"
    using c8 by simp
  have r: "\<not> unix_socket cfg \<and> mode cfg \<noteq> WCAT_MODE_RELAY \<longrightarrow> 1 \<le> wcat_parse_port (port cfg)"
    using p assms(6) by blast
  have o: "pty cfg \<longrightarrow> exec_path cfg \<noteq> None" "chat cfg \<longrightarrow> mode cfg = WCAT_MODE_BROKER"
      "client_cert_file cfg = None \<longleftrightarrow> client_key_file cfg = None"
      "tls_require_client_cert cfg \<longrightarrow> ca_file cfg \<noteq> None"
    using c6 c7 c9 c10 by simp_all
  show ?thesis
    unfolding config_ok_def using assms(2-6) r t c1 q s m o v by (intro conjI)
qed

lemma mode_of_command_not_none: "mode_of_command c = Some m \<Longrightarrow> m \<noteq> WCAT_MODE_NONE"
  by (auto simp: mode_of_command_def split: if_splits)

lemma with_value_mode:
  assumes "with_value rest cfg f = (0, rest', cfg')"
    and "\<And>v c. f v = (0, c) \<Longrightarrow> mode c = mode cfg \<and> port c = port cfg"
  shows "mode cfg' = mode cfg \<and> port cfg' = port cfg"
  using with_value_cases [OF assms(1)] assms(2) by metis

text \<open>No option touches the mode or the positional fields.\<close>

lemma parse_common_mode:
  "parse_common arg rest cfg = (0, rest', cfg') \<Longrightarrow> mode cfg' = mode cfg \<and> port cfg' = port cfg"
  unfolding parse_common_def
  by (elim if_either) (auto simp: Let_def split: if_split_asm elim!: with_value_mode)

lemma parse_options_mode:
  assumes "parse_options args cfg = (0, args', cfg')"
  shows "mode cfg' = mode cfg \<and> port cfg' = port cfg"
  using parse_options_keeps [where P = "\<lambda>c. mode c = mode cfg \<and> port c = port cfg" and A = UNIV,
      OF _ assms] parse_common_mode by auto

lemma parse_options_ok:
  "parse_options args cfg = (0, args', cfg') \<Longrightarrow> options_ok cfg \<Longrightarrow> options_ok cfg'"
  using parse_options_keeps [where P = options_ok and A = UNIV] parse_common_ok by blast

lemma parse_positional_ok:
  assumes "parse_positional args cfg = Some cfg'" and "port cfg = None"
  shows "options_ok cfg' = options_ok cfg" and "mode cfg' = mode cfg"
    and "mode cfg \<in> {WCAT_MODE_SEND, WCAT_MODE_RECV} \<longrightarrow>
          file_path cfg' \<noteq> None \<and> host cfg' \<noteq> None \<and> port cfg' \<noteq> None"
    and "mode cfg = WCAT_MODE_RELAY \<longrightarrow> left cfg' \<noteq> None \<and> right cfg' \<noteq> None \<and> port cfg' = None"
    and "mode cfg \<noteq> WCAT_MODE_RELAY \<longrightarrow> host cfg' \<noteq> None \<and> port cfg' \<noteq> None"
  using assms by (auto simp: parse_positional_def split: list.splits if_split_asm)

lemma wcat_parse_args_cases:
  assumes "wcat_parse_args L argv = (0, cfg)"
  obtains prog cmd rest m args c where "argv = prog # cmd # rest" "mode_of_command cmd = Some m"
    "parse_options rest (wcat_config_init\<lparr>mode := m\<rparr>) = (0, args, c)"
    "parse_positional args c = Some cfg" "\<not> config_rejected L cfg"
proof -
  from assms obtain prog cmd rest m where argv: "argv = prog # cmd # rest"
    and m: "mode_of_command cmd = Some m"
    by (auto simp: wcat_parse_args_def split: list.splits option.splits if_split_asm)
  obtain rc args c where po: "parse_options rest (wcat_config_init\<lparr>mode := m\<rparr>) = (rc, args, c)"
    using prod_cases3 by blast
  from assms argv m po have "\<not> rc < 0" "parse_positional args c = Some cfg" "\<not> config_rejected L cfg"
    by (auto simp: wcat_parse_args_def split: option.splits if_split_asm)
  moreover from \<open>\<not> rc < 0\<close> parse_options_result [OF po] have "rc = 0" by auto
  ultimately show thesis using that argv m po by blast
qed

lemma wcat_parse_args_ok:
  assumes "wcat_parse_args L argv = (0, cfg)"
  shows "config_ok L cfg"
proof -
  from assms obtain prog cmd rest m args c where m: "mode_of_command cmd = Some m"
    and po: "parse_options rest (wcat_config_init\<lparr>mode := m\<rparr>) = (0, args, c)"
    and pp: "parse_positional args c = Some cfg" and nr: "\<not> config_rejected L cfg"
    by (rule wcat_parse_args_cases)
  have c: "options_ok c" "mode c = m" "port c = None"
    using parse_options_ok [OF po options_ok_init] parse_options_mode [OF po]
    by (simp_all add: wcat_config_init_def)
  from parse_positional_ok [OF pp c(3)] c mode_of_command_not_none [OF m] show ?thesis
    by (intro accepted_checks [OF nr]) auto
qed

section \<open>Peer verification is off only on request\<close>

lemma with_value_verify:
  assumes "with_value rest cfg f = (0, rest', cfg')"
    and "\<And>v c. f v = (0, c) \<Longrightarrow> tls_verify c = tls_verify cfg"
  shows "tls_verify cfg' = tls_verify cfg"
  using with_value_cases [OF assms(1)] assms(2) by metis

lemma parse_common_verify:
  assumes "parse_common arg rest cfg = (0, rest', cfg')" and "arg \<noteq> ''--tls-insecure''"
    and "tls_verify cfg"
  shows "tls_verify cfg'"
proof -
  have "tls_verify cfg' = tls_verify cfg \<or> tls_verify cfg'"
    using assms(1) unfolding parse_common_def
    unfolding if_not_P [OF assms(2)]
    by (elim if_either) (auto simp: Let_def split: if_split_asm dest!: with_value_verify)
  with assms(3) show ?thesis by simp
qed

lemma wcat_parse_args_verify:
  assumes "wcat_parse_args L argv = (0, cfg)" and "''--tls-insecure'' \<notin> set argv"
  shows "tls_verify cfg"
proof -
  from assms(1) obtain prog cmd rest m args c where argv: "argv = prog # cmd # rest"
    and po: "parse_options rest (wcat_config_init\<lparr>mode := m\<rparr>) = (0, args, c)"
    and pp: "parse_positional args c = Some cfg"
    by (rule wcat_parse_args_cases)
  have "tls_verify c"
    by (rule parse_options_keeps [where P = tls_verify and A = "- {''--tls-insecure''}", OF _ po])
      (use parse_common_verify assms(2) argv in \<open>auto simp: wcat_config_init_def\<close>)
  with pp show ?thesis by (auto simp: parse_positional_def split: list.splits if_split_asm)
qed

section \<open>Every guaranteed configuration has a command line\<close>

text \<open>
  The positional fields an accepted configuration has; the others stay NULL. Together with
  \<open>config_ok\<close> this is exactly the range of the parser.
\<close>

definition positional_ok :: "wcat_config \<Rightarrow> bool" where
  "positional_ok cfg \<longleftrightarrow>
     (mode cfg \<in> {WCAT_MODE_SEND, WCAT_MODE_RECV} \<longrightarrow> left cfg = None \<and> right cfg = None)
     \<and> (mode cfg = WCAT_MODE_RELAY \<longrightarrow> file_path cfg = None \<and> host cfg = None)
     \<and> (mode cfg \<in> {WCAT_MODE_CONNECT, WCAT_MODE_LISTEN, WCAT_MODE_BROKER, WCAT_MODE_PROXY} \<longrightarrow>
          file_path cfg = None \<and> left cfg = None \<and> right cfg = None)
     \<and> (unix_socket cfg \<and> mode cfg \<in> {WCAT_MODE_CONNECT, WCAT_MODE_LISTEN, WCAT_MODE_BROKER} \<longrightarrow>
          port cfg = Some ''0'')"

definition flag :: "bool \<Rightarrow> string \<Rightarrow> string list" where
  "flag b arg = (if b then [arg] else [])"

definition opt_value :: "cstr \<Rightarrow> string \<Rightarrow> string list" where
  "opt_value v arg = (case v of None \<Rightarrow> [] | Some t \<Rightarrow> [arg, t])"

definition render_family :: "af \<Rightarrow> string list" where
  "render_family f = (case f of AF_UNSPEC \<Rightarrow> [] | AF_INET \<Rightarrow> [''-4''] | AF_INET6 \<Rightarrow> [''-6''])"

definition render_numbers :: "wcat_config \<Rightarrow> string list" where
  "render_numbers cfg =
     opt_value (if timeout_ms cfg < 0 then None else Some (dec_string (nat (timeout_ms cfg div 1000))))
       ''--timeout''
     @ [''--max-clients'', dec_string (nat (broker_max_clients cfg)),
        ''--broker-buffer'', dec_string (nat (broker_buffer_bytes cfg))]"

definition render_flags :: "wcat_config \<Rightarrow> string list" where
  "render_flags cfg =
     flag (udp cfg) ''-u''
     @ flag (keep_open cfg) ''-k''
     @ flag (multi cfg) ''--multi''
     @ flag (verbose cfg) ''-v''
     @ flag (json cfg) ''--json''
     @ flag (hex cfg) ''--hex''
     @ flag (chat cfg) ''--chat''
     @ flag (unix_socket cfg) ''-U''
     @ flag (sctp cfg) ''--sctp''
     @ flag (vsock cfg) ''--vsock''
     @ flag (tls cfg) ''--tls''
     @ flag (pty cfg) ''--pty''
     @ flag (quic cfg) ''--quic'' @ flag (\<not> tls_verify cfg) ''--tls-insecure''
     @ flag (tls_require_client_cert cfg) ''--require-client-cert''"

definition render_values :: "wcat_config \<Rightarrow> string list" where
  "render_values cfg =
     opt_value (cert_file cfg) ''--cert''
     @ opt_value (key_file cfg) ''--key''
     @ opt_value (ca_file cfg) ''--ca-file''
     @ opt_value (sni cfg) ''--sni''
     @ opt_value (proxy_url cfg) ''--proxy''
     @ opt_value (exec_path cfg) ''--exec''
     @ opt_value (allow_list cfg) ''--allow''
     @ opt_value (deny_list cfg) ''--deny''
     @ opt_value (alpn cfg) ''--alpn''
     @ opt_value (client_cert_file cfg) ''--client-cert''
     @ opt_value (client_key_file cfg) ''--client-key''"

definition command_of_mode :: "wcat_mode \<Rightarrow> string" where
  "command_of_mode m = wcat_mode_name (mode_code m)"

definition render_positional :: "wcat_config \<Rightarrow> string list" where
  "render_positional cfg =
     map the (filter (\<lambda>v. v \<noteq> None)
       (if mode cfg = WCAT_MODE_RELAY then [left cfg, right cfg]
        else if unix_socket cfg \<and> mode cfg \<in> {WCAT_MODE_CONNECT, WCAT_MODE_LISTEN, WCAT_MODE_BROKER}
        then [host cfg] else [file_path cfg, host cfg, port cfg]))"

definition render_config :: "wcat_config \<Rightarrow> string list" where
  "render_config cfg =
     command_of_mode (mode cfg) # render_flags cfg @ render_family (family cfg)
     @ render_values cfg @ render_numbers cfg @ ''--'' # render_positional cfg"

text \<open>One option of the rendered line at a time.\<close>

lemma parse_flag:
  "parse_options (flag b ''-u'' @ rest) c = parse_options rest (c\<lparr>udp := udp c \<or> b\<rparr>)"
  "parse_options (flag b ''-k'' @ rest) c = parse_options rest (c\<lparr>keep_open := keep_open c \<or> b\<rparr>)"
  "parse_options (flag b ''--multi'' @ rest) c = parse_options rest (c\<lparr>multi := multi c \<or> b\<rparr>)"
  "parse_options (flag b ''-v'' @ rest) c = parse_options rest (c\<lparr>verbose := verbose c \<or> b\<rparr>)"
  "parse_options (flag b ''--json'' @ rest) c = parse_options rest (c\<lparr>json := json c \<or> b\<rparr>)"
  "parse_options (flag b ''--hex'' @ rest) c = parse_options rest (c\<lparr>hex := hex c \<or> b\<rparr>)"
  "parse_options (flag b ''--chat'' @ rest) c = parse_options rest (c\<lparr>chat := chat c \<or> b\<rparr>)"
  "parse_options (flag b ''-U'' @ rest) c = parse_options rest (c\<lparr>unix_socket := unix_socket c \<or> b\<rparr>)"
  "parse_options (flag b ''--sctp'' @ rest) c = parse_options rest (c\<lparr>sctp := sctp c \<or> b\<rparr>)"
  "parse_options (flag b ''--vsock'' @ rest) c = parse_options rest (c\<lparr>vsock := vsock c \<or> b\<rparr>)"
  "parse_options (flag b ''--tls'' @ rest) c = parse_options rest (c\<lparr>tls := tls c \<or> b\<rparr>)"
  "parse_options (flag b ''--pty'' @ rest) c = parse_options rest (c\<lparr>pty := pty c \<or> b\<rparr>)"
  "parse_options (flag b ''--quic'' @ rest) c
     = parse_options rest (c\<lparr>quic := quic c \<or> b, tls := tls c \<or> b\<rparr>)"
  "parse_options (flag b ''--tls-insecure'' @ rest) c
     = parse_options rest (c\<lparr>tls := tls c \<or> b, tls_verify := tls_verify c \<and> \<not> b\<rparr>)"
  "parse_options (flag b ''--require-client-cert'' @ rest) c
     = parse_options rest (c\<lparr>tls := tls c \<or> b, tls_require_client_cert := tls_require_client_cert c \<or> b\<rparr>)"
  by (cases b; simp add: flag_def parse_options_step parse_common_def)+

definition or_else :: "'a option \<Rightarrow> 'a option \<Rightarrow> 'a option" where
  "or_else v w = (case v of None \<Rightarrow> w | Some _ \<Rightarrow> v)"

lemma or_else_simps [simp]: "or_else None w = w" "or_else (Some x) w = Some x" "or_else v None = v"
  by (simp_all add: or_else_def split: option.splits)

lemma parse_value:
  "parse_options (opt_value v ''--cert'' @ rest) c = parse_options rest (c\<lparr>cert_file := or_else v (cert_file c)\<rparr>)"
  "parse_options (opt_value v ''--key'' @ rest) c = parse_options rest (c\<lparr>key_file := or_else v (key_file c)\<rparr>)"
  "parse_options (opt_value v ''--ca-file'' @ rest) c = parse_options rest (c\<lparr>ca_file := or_else v (ca_file c)\<rparr>)"
  "parse_options (opt_value v ''--sni'' @ rest) c = parse_options rest (c\<lparr>sni := or_else v (sni c)\<rparr>)"
  "parse_options (opt_value v ''--proxy'' @ rest) c = parse_options rest (c\<lparr>proxy_url := or_else v (proxy_url c)\<rparr>)"
  "parse_options (opt_value v ''--exec'' @ rest) c = parse_options rest (c\<lparr>exec_path := or_else v (exec_path c)\<rparr>)"
  "parse_options (opt_value v ''--allow'' @ rest) c = parse_options rest (c\<lparr>allow_list := or_else v (allow_list c)\<rparr>)"
  "parse_options (opt_value v ''--deny'' @ rest) c = parse_options rest (c\<lparr>deny_list := or_else v (deny_list c)\<rparr>)"
  "parse_options (opt_value v ''--client-cert'' @ rest) c
     = parse_options rest (c\<lparr>client_cert_file := or_else v (client_cert_file c), tls := tls c \<or> v \<noteq> None\<rparr>)"
  "parse_options (opt_value v ''--client-key'' @ rest) c
     = parse_options rest (c\<lparr>client_key_file := or_else v (client_key_file c), tls := tls c \<or> v \<noteq> None\<rparr>)"
  by (cases v; simp add: opt_value_def parse_options_step parse_common_def with_value_def)+

lemma parse_alpn:
  "1 \<le> length a \<Longrightarrow> length a \<le> 255 \<Longrightarrow>
     parse_options (opt_value (Some a) ''--alpn'' @ rest) c = parse_options rest (c\<lparr>alpn := Some a\<rparr>)"
  by (auto simp: opt_value_def parse_options_step parse_common_def with_value_def)

lemma parse_family:
  "parse_options (render_family f @ rest) c
     = parse_options rest (c\<lparr>family := (if f = AF_UNSPEC then family c else f)\<rparr>)"
  by (cases f; simp add: render_family_def parse_options_step parse_common_def)

lemma parse_range_dec_string:
  "lo \<le> n \<Longrightarrow> n \<le> hi \<Longrightarrow> 0 \<le> n \<Longrightarrow> hi \<le> LONG_MAX \<Longrightarrow> parse_range_int (dec_string (nat n)) lo hi = n"
  by (simp add: parse_range_int_def strtol_dec_string)

lemma parse_timeout_dec_string:
  assumes "0 \<le> t" and "t \<le> INT_MAX" and "t mod 1000 = 0"
  shows "wcat_parse_timeout_ms (Some (dec_string (nat (t div 1000)))) = t"
proof -
  define q where "q = t div 1000"
  have t: "q * 1000 = t" unfolding q_def using div_mult_mod_eq [of t 1000] assms(3) by linarith
  have q: "0 \<le> q" "q \<le> INT_MAX div 1000"
    unfolding q_def using assms(1,2) by (auto intro: zdiv_mono1 simp: pos_imp_zdiv_nonneg_iff)
  then have "q \<le> LONG_MAX" by (simp add: c_limits)
  with q(1) have "strtol (dec_string (nat q)) = (q, [], False)"
    using strtol_dec_string [of "nat q"] by simp
  with q t have "wcat_parse_timeout_ms (Some (dec_string (nat q))) = t"
    by (simp add: wcat_parse_timeout_ms_def)
  then show ?thesis by (simp add: q_def)
qed

lemma parse_number_options:
  "\<not> wcat_parse_timeout_ms (Some v) < 0 \<Longrightarrow> parse_options (''--timeout'' # v # rest) c
     = parse_options rest (c\<lparr>timeout_ms := wcat_parse_timeout_ms (Some v)\<rparr>)"
  "\<not> parse_range_int v 1 256 < 0 \<Longrightarrow> parse_options (''--max-clients'' # v # rest) c
     = parse_options rest (c\<lparr>broker_max_clients := parse_range_int v 1 256\<rparr>)"
  "\<not> parse_range_int v 1024 1048576 < 0 \<Longrightarrow> parse_options (''--broker-buffer'' # v # rest) c
     = parse_options rest (c\<lparr>broker_buffer_bytes := parse_range_int v 1024 1048576\<rparr>)"
  by (simp_all add: parse_options_step parse_common_def with_value_def)

lemma parse_numbers:
  assumes "options_ok cfg"
  shows "parse_options (render_numbers cfg @ rest) (c\<lparr>timeout_ms := - 1\<rparr>) =
           parse_options rest (c\<lparr>timeout_ms := timeout_ms cfg, broker_max_clients := broker_max_clients cfg,
             broker_buffer_bytes := broker_buffer_bytes cfg\<rparr>)"
proof -
  have r: "parse_range_int (dec_string (nat (broker_max_clients cfg))) 1 256 = broker_max_clients cfg"
      "parse_range_int (dec_string (nat (broker_buffer_bytes cfg))) 1024 1048576 = broker_buffer_bytes cfg"
    using assms by (auto simp: options_ok_def c_limits intro!: parse_range_dec_string)
  have t: "0 \<le> timeout_ms cfg \<Longrightarrow>
      wcat_parse_timeout_ms (Some (dec_string (nat (timeout_ms cfg div 1000)))) = timeout_ms cfg"
    using assms by (intro parse_timeout_dec_string) (auto simp: options_ok_def)
  have b: "\<not> broker_max_clients cfg < 0" "\<not> broker_buffer_bytes cfg < 0"
    "timeout_ms cfg < 0 \<Longrightarrow> timeout_ms cfg = - 1"
    using assms by (auto simp: options_ok_def)
  show ?thesis
    using r t b
    by (cases "timeout_ms cfg < 0")
      (simp_all add: render_numbers_def opt_value_def parse_number_options)
qed

lemma parse_rendered_flags:
  "parse_options (render_flags cfg @ rest) c =
     parse_options rest (c\<lparr>udp := udp c \<or> udp cfg, keep_open := keep_open c \<or> keep_open cfg,
       multi := multi c \<or> multi cfg, verbose := verbose c \<or> verbose cfg, json := json c \<or> json cfg,
       hex := hex c \<or> hex cfg, chat := chat c \<or> chat cfg,
       unix_socket := unix_socket c \<or> unix_socket cfg, sctp := sctp c \<or> sctp cfg,
       vsock := vsock c \<or> vsock cfg, pty := pty c \<or> pty cfg, quic := quic c \<or> quic cfg,
       tls_verify := tls_verify c \<and> tls_verify cfg,
       tls := tls c \<or> tls cfg \<or> quic cfg \<or> \<not> tls_verify cfg \<or> tls_require_client_cert cfg,
       tls_require_client_cert := tls_require_client_cert c \<or> tls_require_client_cert cfg\<rparr>)"
  by (simp add: render_flags_def parse_flag disj_assoc)

lemma parse_rendered_values:
  assumes "alpn cfg = Some a" and "1 \<le> length a" and "length a \<le> 255"
  shows "parse_options (render_values cfg @ rest) c =
     parse_options rest (c\<lparr>cert_file := or_else (cert_file cfg) (cert_file c),
       key_file := or_else (key_file cfg) (key_file c), ca_file := or_else (ca_file cfg) (ca_file c),
       sni := or_else (sni cfg) (sni c), proxy_url := or_else (proxy_url cfg) (proxy_url c),
       exec_path := or_else (exec_path cfg) (exec_path c),
       allow_list := or_else (allow_list cfg) (allow_list c),
       deny_list := or_else (deny_list cfg) (deny_list c), alpn := Some a,
       client_cert_file := or_else (client_cert_file cfg) (client_cert_file c),
       client_key_file := or_else (client_key_file cfg) (client_key_file c),
       tls := tls c \<or> client_cert_file cfg \<noteq> None \<or> client_key_file cfg \<noteq> None\<rparr>)"
  unfolding render_values_def assms(1)
  by (simp add: parse_value parse_alpn [OF assms(2,3)] disj_assoc)

text \<open>The configuration before its positional fields are filled in.\<close>

definition no_positional :: "wcat_config \<Rightarrow> wcat_config" where
  "no_positional cfg = cfg\<lparr>host := None, port := None, file_path := None, left := None, right := None\<rparr>"

lemma parse_rendered_options:
  assumes "options_ok cfg"
  shows "parse_options (tl (render_config cfg)) (wcat_config_init\<lparr>mode := mode cfg\<rparr>)
    = (0, render_positional cfg, no_positional cfg)"
proof -
  from assms obtain a where a: "alpn cfg = Some a" "1 \<le> length a" "length a \<le> 255"
    by (auto simp: options_ok_def)
  have t: "(tls cfg \<or> quic cfg \<or> \<not> tls_verify cfg \<or> tls_require_client_cert cfg
      \<or> client_cert_file cfg \<noteq> None \<or> client_key_file cfg \<noteq> None) = tls cfg"
    using assms by (auto simp: options_ok_def)
  have init: "c\<lparr>timeout_ms := - 1\<rparr> = c" if "timeout_ms c = - 1" for c :: wcat_config
    using that by (cases c) simp
  have num: "parse_options (render_numbers cfg @ rest) c =
           parse_options rest (c\<lparr>timeout_ms := timeout_ms cfg, broker_max_clients := broker_max_clients cfg,
             broker_buffer_bytes := broker_buffer_bytes cfg\<rparr>)" if "timeout_ms c = - 1" for c rest
    using parse_numbers [OF assms, of rest c] unfolding init [OF that] .
  have family: "(if family cfg = AF_UNSPEC then AF_UNSPEC else family cfg) = family cfg" by simp
  show ?thesis
    unfolding render_config_def list.sel parse_rendered_flags parse_family parse_rendered_values [OF a]
    by (subst num) (use t family a(1) in \<open>cases cfg, simp_all add: wcat_config_init_def
        parse_options_dashes no_positional_def\<close>)
qed

lemma mode_of_command_of_mode: "m \<noteq> WCAT_MODE_NONE \<Longrightarrow> mode_of_command (command_of_mode m) = Some m"
  by (cases m) (simp_all add: mode_of_command_def command_of_mode_def wcat_mode_name_def)

lemma command_of_mode_not_help: "command_of_mode m \<noteq> ''-h''" "command_of_mode m \<noteq> ''--help''"
  by (cases m; simp add: command_of_mode_def wcat_mode_name_def)+

lemma parse_rendered_positional:
  assumes "config_ok L cfg" and "positional_ok cfg"
  shows "parse_positional (render_positional cfg) (no_positional cfg) = Some cfg"
proof -
  have set: "cfg\<lparr>host := host cfg, port := port cfg, file_path := file_path cfg, left := left cfg,
      right := right cfg\<rparr> = cfg" by simp
  show ?thesis
    using assms
    by (cases "mode cfg"; cases "unix_socket cfg"; cases cfg)
      (auto simp: config_ok_def positional_ok_def parse_positional_def render_positional_def
        no_positional_def)
qed

lemma config_ok_not_rejected:
  assumes "config_ok L cfg"
  shows "\<not> config_rejected L cfg"
proof -
  have f: "mode cfg = WCAT_MODE_RELAY \<longrightarrow> left cfg \<noteq> None \<and> right cfg \<noteq> None \<and> port cfg = None"
    and g: "\<not> unix_socket cfg \<and> mode cfg \<noteq> WCAT_MODE_RELAY \<longrightarrow> 1 \<le> wcat_parse_port (port cfg)"
    and l: "length (transports cfg) \<le> 1" and c1: "\<not> (tls cfg \<and> udp cfg)"
    and q: "quic cfg \<longrightarrow> proxy_url cfg = None \<and> mode cfg \<in> {WCAT_MODE_CONNECT, WCAT_MODE_LISTEN}"
    and s: "sctp cfg \<or> unix_socket cfg \<or> vsock cfg \<longrightarrow> proxy_url cfg = None \<and>
          mode cfg \<in> {WCAT_MODE_CONNECT, WCAT_MODE_LISTEN, WCAT_MODE_BROKER, WCAT_MODE_RELAY}"
    and e: "pty cfg \<longrightarrow> exec_path cfg \<noteq> None" and ch: "chat cfg \<longrightarrow> mode cfg = WCAT_MODE_BROKER"
    and m: "multi cfg \<longrightarrow> mode cfg = WCAT_MODE_LISTEN \<and> \<not> udp cfg \<and> \<not> tls cfg \<and> \<not> quic cfg
          \<and> exec_path cfg = None \<and> \<not> keep_open cfg"
    and cc: "client_cert_file cfg = None \<longleftrightarrow> client_key_file cfg = None"
    and ca: "tls_require_client_cert cfg \<longrightarrow> ca_file cfg \<noteq> None"
    and v: "wcat_access_validate_list L (allow_list cfg) = 0" "wcat_access_validate_list L (deny_list cfg) = 0"
    using assms unfolding config_ok_def by - ((elim conjE)?, assumption)+
  have p: "\<not> (\<not> unix_socket cfg \<and> port cfg \<noteq> None \<and> wcat_parse_port (port cfg) < 0)"
    using f g by (cases "mode cfg = WCAT_MODE_RELAY") auto
  have n: "\<not> (if udp cfg then 1 else 0) + (if sctp cfg then 1 else 0)
      + (if unix_socket cfg then 1 else 0) + (if vsock cfg then 1 else 0) > (1 :: int)"
    using l unfolding transports_def
    by (cases "udp cfg"; cases "sctp cfg"; cases "unix_socket cfg"; cases "vsock cfg") simp_all
  have c2: "\<not> (quic cfg \<and> proxy_url cfg \<noteq> None)"
    and c3: "\<not> (quic cfg \<and> mode cfg \<noteq> WCAT_MODE_CONNECT \<and> mode cfg \<noteq> WCAT_MODE_LISTEN)"
    using q by simp_all
  have c4: "\<not> ((sctp cfg \<or> unix_socket cfg \<or> vsock cfg) \<and> mode cfg \<noteq> WCAT_MODE_CONNECT
        \<and> mode cfg \<noteq> WCAT_MODE_LISTEN \<and> mode cfg \<noteq> WCAT_MODE_BROKER \<and> mode cfg \<noteq> WCAT_MODE_RELAY)"
    and c5: "\<not> ((sctp cfg \<or> unix_socket cfg \<or> vsock cfg) \<and> proxy_url cfg \<noteq> None)"
    using s by (blast, argo)
  have c6: "\<not> (pty cfg \<and> exec_path cfg = None)" and c7: "\<not> (chat cfg \<and> mode cfg \<noteq> WCAT_MODE_BROKER)"
    and c8: "\<not> (multi cfg \<and> (mode cfg \<noteq> WCAT_MODE_LISTEN \<or> udp cfg \<or> tls cfg \<or> quic cfg
        \<or> exec_path cfg \<noteq> None \<or> keep_open cfg))"
    and c9: "\<not> (client_cert_file cfg = None) \<noteq> (client_key_file cfg = None)"
    and c10: "\<not> (tls_require_client_cert cfg \<and> ca_file cfg = None)"
    using e ch m cc ca by simp_all
  have c11: "\<not> wcat_access_validate_list L (allow_list cfg) < 0"
      "\<not> wcat_access_validate_list L (deny_list cfg) < 0" using v by simp_all
  show ?thesis
    unfolding config_rejected_def if_True_eq de_Morgan_disj
    using p n c1 c2 c3 c4 c5 c6 c7 c8 c9 c10 c11 by (intro conjI)
qed

lemma wcat_parse_args_render:
  assumes "config_ok L cfg" and "positional_ok cfg"
  shows "wcat_parse_args L (prog # render_config cfg) = (0, cfg)"
proof -
  have m: "mode cfg \<noteq> WCAT_MODE_NONE" "options_ok cfg" using assms(1) by (simp_all add: config_ok_def)
  have r: "render_config cfg = command_of_mode (mode cfg) # tl (render_config cfg)"
    by (simp add: render_config_def)
  show ?thesis
    unfolding wcat_parse_args_def
    by (subst r) (simp add: command_of_mode_not_help mode_of_command_of_mode [OF m(1)]
        parse_rendered_options [OF m(2)] parse_rendered_positional [OF assms]
        config_ok_not_rejected [OF assms(1)])
qed

text \<open>Conversely no accepted configuration has other fields set.\<close>

definition positional_unset :: "wcat_config \<Rightarrow> bool" where
  "positional_unset c \<longleftrightarrow> host c = None \<and> port c = None \<and> file_path c = None \<and> left c = None \<and> right c = None"

lemma with_value_fields:
  assumes "with_value rest cfg f = (0, rest', cfg')"
    and "\<And>v c. f v = (0, c) \<Longrightarrow> host c = host cfg \<and> file_path c = file_path cfg \<and> left c = left cfg \<and> right c = right cfg"
  shows "host cfg' = host cfg \<and> file_path cfg' = file_path cfg \<and> left cfg' = left cfg \<and> right cfg' = right cfg"
  using with_value_cases [OF assms(1)] assms(2) by metis

lemma parse_common_fields:
  "parse_common arg rest cfg = (0, rest', cfg') \<Longrightarrow>
     host cfg' = host cfg \<and> file_path cfg' = file_path cfg \<and> left cfg' = left cfg \<and> right cfg' = right cfg"
  unfolding parse_common_def
  by (elim if_either) (auto simp: Let_def split: if_split_asm elim!: with_value_fields)

lemma parse_common_unset:
  "parse_common arg rest cfg = (0, rest', cfg') \<Longrightarrow> positional_unset cfg \<Longrightarrow> positional_unset cfg'"
  using parse_common_fields [of arg rest cfg rest' cfg'] parse_common_mode [of arg rest cfg rest' cfg']
  by (simp add: positional_unset_def)

lemma wcat_parse_args_positional:
  assumes "wcat_parse_args L argv = (0, cfg)"
  shows "positional_ok cfg"
proof -
  from assms obtain prog cmd rest m args c where m: "mode_of_command cmd = Some m"
    and po: "parse_options rest (wcat_config_init\<lparr>mode := m\<rparr>) = (0, args, c)"
    and pp: "parse_positional args c = Some cfg"
    by (rule wcat_parse_args_cases)
  have "positional_unset c"
    by (rule parse_options_keeps [where P = positional_unset and A = UNIV, OF _ po])
      (use parse_common_unset in \<open>auto simp: positional_unset_def wcat_config_init_def\<close>)
  with pp show ?thesis
    by (auto simp: parse_positional_def positional_unset_def positional_ok_def
        split: list.splits if_split_asm)
qed

end
