(* ===== verification/Wcat_Socketx.thy ===== *)
theory Wcat_Socketx
  imports Wcat_Cli
begin

text \<open>
  src/socketx.c: the descriptor flags, connecting and listening on TCP, SCTP, UNIX, VM and UDP
  sockets, and \<open>wcat_accept\<close>. Name resolution and the socket calls take their answers from the
  scripts of the system state; \<open>setsockopt (SO_REUSEADDR)\<close>, whose result the code discards, has
  no effect in the model. The Linux branches of the VM socket functions are the ones modelled.

  The lemmas state the contract every one of these functions has (locale \<open>socket_maker\<close>): the
  result is a new descriptor, blocking and closed on exec, or -1 with no descriptor left open.
\<close>

section \<open>Definitions\<close>

definition wcat_set_cloexec :: "fd \<Rightarrow> sys \<Rightarrow> int \<times> sys" where
  "wcat_set_cloexec fd s =
     (if fd \<notin> set (open_fds s) then (- 1, s\<lparr>errno_of := EBADF\<rparr>)
      else (0, s\<lparr>cloexec := List.insert fd (cloexec s)\<rparr>))"

definition wcat_set_nonblock :: "fd \<Rightarrow> bool \<Rightarrow> sys \<Rightarrow> int \<times> sys" where
  "wcat_set_nonblock fd enabled s =
     (if fd \<notin> set (open_fds s) then (- 1, s\<lparr>errno_of := EBADF\<rparr>)
      else (0, s\<lparr>nonblocking := (if enabled then List.insert fd (nonblocking s)
                                 else removeAll fd (nonblocking s))\<rparr>))"

lemma sys_poll_queue:
  "sys_poll p s = (n, r, s') \<Longrightarrow> poll_q s \<noteq> [] \<Longrightarrow> length (poll_q s') < length (poll_q s)"
  "sys_poll p s = (n, r, s') \<Longrightarrow> errno_of s' = EINTR \<Longrightarrow> n < 0 \<Longrightarrow> length (poll_q s') < length (poll_q s)"
  by (auto simp: sys_poll_def Let_def split: list.splits poll_ans.splits)

text \<open>\<open>poll\<close> on one descriptor, repeated while it is interrupted.\<close>

function poll_retry :: "fd \<times> pflag set \<Rightarrow> sys \<Rightarrow> int \<times> pflag set list \<times> sys" where
  "poll_retry p s =
     (let (rc, rev, s') = sys_poll [p] s
      in if rc < 0 \<and> errno_of s' = EINTR then poll_retry p s' else (rc, rev, s'))"
  by pat_completeness auto
termination
  by (relation "measure (\<lambda>(p, s). length (poll_q s))") (auto dest!: sym [of "(_, _, _)"] sys_poll_queue(2))

declare poll_retry.simps [simp del]

definition wait_connected :: "fd \<Rightarrow> int \<Rightarrow> sys \<Rightarrow> int \<times> sys" where
  "wait_connected fd timeout s =
     (let (rc, _, s') = poll_retry (fd, {POLLOUT}) s
      in if rc \<le> 0 then (- 1, if rc = 0 then s'\<lparr>errno_of := ETIMEDOUT\<rparr> else s')
         else (case sys_so_error fd s' of
                 (Inl e, s2) \<Rightarrow> (- 1, s2\<lparr>errno_of := e\<rparr>)
               | (Inr (Some e), s2) \<Rightarrow> (- 1, s2\<lparr>errno_of := e\<rparr>)
               | (Inr None, s2) \<Rightarrow> (0, s2)))"

text \<open>
  The part the connecting functions share: the socket has been made, its flags are set, it is
  connected within the timeout; otherwise it is closed.
\<close>

definition connect_socket :: "fd \<Rightarrow> sockaddr \<Rightarrow> int \<Rightarrow> sys \<Rightarrow> int \<times> sys" where
  "connect_socket fd a timeout s =
     (let s1 = snd (wcat_set_cloexec fd s);
          s2 = (if timeout \<ge> 0 then snd (wcat_set_nonblock fd True s1) else s1);
          (rc, s3) = sys_connect fd a s2
      in if rc = 0 then (fd, snd (wcat_set_nonblock fd False s3))
         else if rc < 0 \<and> errno_of s3 = EINPROGRESS \<and> timeout \<ge> 0
         then (let (w, s4) = wait_connected fd timeout s3
               in if w = 0 then (fd, snd (wcat_set_nonblock fd False s4)) else wcat_close_quiet fd s4)
         else wcat_close_quiet fd s3)"

fun connect_candidates :: "sockaddr list \<Rightarrow> int \<Rightarrow> sys \<Rightarrow> int \<times> sys" where
  "connect_candidates [] timeout s = (- 1, s)"
| "connect_candidates (a # ais) timeout s =
     (let (fd, s1) = sys_socket s
      in if fd < 0 then connect_candidates ais timeout s1
         else let (r, s2) = connect_socket fd a timeout s1
              in if r \<ge> 0 then (r, s2) else connect_candidates ais timeout s2)"

text \<open>\<open>%s\<close> of a pointer that may be NULL prints \<open>(null)\<close> in the C library used.\<close>

definition text_of :: "cstr \<Rightarrow> string" where
  "text_of c = (case c of None \<Rightarrow> ''(null)'' | Some t \<Rightarrow> t)"

definition log_resolve :: "cstr \<Rightarrow> cstr \<Rightarrow> string \<Rightarrow> sys \<Rightarrow> sys" where
  "log_resolve h p msg = wcat_log WCAT_LOG_ERROR ''resolve'' (text_of h @ '':'' @ text_of p @ '': '' @ msg)"

definition inet_connect :: "cstr \<Rightarrow> cstr \<Rightarrow> af \<Rightarrow> sock_kind \<Rightarrow> int \<Rightarrow> sys \<Rightarrow> int \<times> sys" where
  "inet_connect h p fam kind timeout s =
     (case sys_gai \<lparr>ai_host = h, ai_service = p, ai_family = fam, ai_kind = kind, ai_passive = False\<rparr> s of
        (GaiErr msg, s1) \<Rightarrow> (- 1, log_resolve h p msg s1)
      | (GaiOk ais, s1) \<Rightarrow> connect_candidates ais timeout s1)"

text \<open>The part the listening functions share.\<close>

definition listen_socket :: "fd \<Rightarrow> sockaddr \<Rightarrow> int \<Rightarrow> sys \<Rightarrow> int \<times> sys" where
  "listen_socket fd a backlog s =
     (let (b, s1) = sys_bind fd a (snd (wcat_set_cloexec fd s))
      in if b \<noteq> 0 then wcat_close_quiet fd s1
         else let (l, s2) = sys_listen fd backlog s1
              in if l = 0 then (fd, s2) else wcat_close_quiet fd s2)"

fun listen_candidates :: "sockaddr list \<Rightarrow> int \<Rightarrow> sys \<Rightarrow> int \<times> sys" where
  "listen_candidates [] backlog s = (- 1, s)"
| "listen_candidates (a # ais) backlog s =
     (let (fd, s1) = sys_socket s
      in if fd < 0 then listen_candidates ais backlog s1
         else let (r, s2) = listen_socket fd a backlog s1
              in if r \<ge> 0 then (r, s2) else listen_candidates ais backlog s2)"

definition inet_listen :: "cstr \<Rightarrow> cstr \<Rightarrow> af \<Rightarrow> sock_kind \<Rightarrow> int \<Rightarrow> sys \<Rightarrow> int \<times> sys" where
  "inet_listen h p fam kind backlog s =
     (case sys_gai \<lparr>ai_host = h, ai_service = p, ai_family = fam, ai_kind = kind, ai_passive = True\<rparr> s of
        (GaiErr msg, s1) \<Rightarrow> (- 1, log_resolve h p msg s1)
      | (GaiOk ais, s1) \<Rightarrow> listen_candidates ais backlog s1)"

definition wcat_tcp_connect :: "cstr \<Rightarrow> cstr \<Rightarrow> af \<Rightarrow> int \<Rightarrow> sys \<Rightarrow> int \<times> sys" where
  "wcat_tcp_connect h p fam timeout = inet_connect h p fam TCP_STREAM timeout"

definition wcat_tcp_listen :: "cstr \<Rightarrow> cstr \<Rightarrow> af \<Rightarrow> int \<Rightarrow> sys \<Rightarrow> int \<times> sys" where
  "wcat_tcp_listen h p fam backlog = inet_listen h p fam TCP_STREAM backlog"

definition wcat_sctp_connect :: "cstr \<Rightarrow> cstr \<Rightarrow> af \<Rightarrow> int \<Rightarrow> sys \<Rightarrow> int \<times> sys" where
  "wcat_sctp_connect h p fam timeout = inet_connect h p fam SCTP_STREAM timeout"

definition wcat_sctp_listen :: "cstr \<Rightarrow> cstr \<Rightarrow> af \<Rightarrow> int \<Rightarrow> sys \<Rightarrow> int \<times> sys" where
  "wcat_sctp_listen h p fam backlog = inet_listen h p fam SCTP_STREAM backlog"

text \<open>\<open>sizeof (sun_path)\<close>.\<close>

definition SUN_PATH_SIZE :: nat where "SUN_PATH_SIZE = 108"

definition path_too_long :: "cstr \<Rightarrow> bool" where
  "path_too_long path = (case path of None \<Rightarrow> True | Some p \<Rightarrow> length p \<ge> SUN_PATH_SIZE)"

definition wcat_unix_connect :: "cstr \<Rightarrow> int \<Rightarrow> sys \<Rightarrow> int \<times> sys" where
  "wcat_unix_connect path timeout s =
     (if path_too_long path then (- 1, s\<lparr>errno_of := ENAMETOOLONG\<rparr>)
      else let (fd, s1) = sys_socket s
           in if fd < 0 then (- 1, s1) else connect_socket fd (SaUnix (the path)) timeout s1)"

definition wcat_unix_listen :: "cstr \<Rightarrow> int \<Rightarrow> sys \<Rightarrow> int \<times> sys" where
  "wcat_unix_listen path backlog s =
     (if path_too_long path then (- 1, s\<lparr>errno_of := ENAMETOOLONG\<rparr>)
      else let (fd, s1) = sys_socket s
           in if fd < 0 then (- 1, s1)
              else listen_socket fd (SaUnix (the path)) backlog (s1\<lparr>unlinked := the path # unlinked s1\<rparr>))"

definition parse_u32_arg :: "cstr \<Rightarrow> u32 option" where
  "parse_u32_arg cs =
     (case cs of
        None \<Rightarrow> None
      | Some s \<Rightarrow>
          if s = [] then None
          else let (v, e, _) = strtoul s
               in if e = s \<or> e \<noteq> [] \<or> v > 0xffffffff then None else Some (word_of_int v))"

definition wcat_vsock_connect :: "cstr \<Rightarrow> cstr \<Rightarrow> int \<Rightarrow> sys \<Rightarrow> int \<times> sys" where
  "wcat_vsock_connect cid p timeout s =
     (case (parse_u32_arg cid, parse_u32_arg p) of
        (Some c, Some q) \<Rightarrow>
          (let (fd, s1) = sys_socket s
           in if fd < 0 then (- 1, s1) else connect_socket fd (SaVm c q) timeout s1)
      | _ \<Rightarrow> (- 1, s\<lparr>errno_of := EINVAL\<rparr>))"

definition VMADDR_CID_ANY :: u32 where "VMADDR_CID_ANY = 0xffffffff"

definition vsock_listen_cid :: "cstr \<Rightarrow> u32 option" where
  "vsock_listen_cid cid =
     (if cid = None \<or> cid = Some ''-'' \<or> cid = Some ''*'' \<or> cid = Some ''any''
      then Some VMADDR_CID_ANY else parse_u32_arg cid)"

definition wcat_vsock_listen :: "cstr \<Rightarrow> cstr \<Rightarrow> int \<Rightarrow> sys \<Rightarrow> int \<times> sys" where
  "wcat_vsock_listen cid p backlog s =
     (case (vsock_listen_cid cid, parse_u32_arg p) of
        (Some c, Some q) \<Rightarrow>
          (let (fd, s1) = sys_socket s
           in if fd < 0 then (- 1, s1) else listen_socket fd (SaVm c q) backlog s1)
      | _ \<Rightarrow> (- 1, s\<lparr>errno_of := EINVAL\<rparr>))"

text \<open>UDP: the first address that can be connected (bound) at once.\<close>

fun udp_candidates :: "(fd \<Rightarrow> sockaddr \<Rightarrow> sys \<Rightarrow> int \<times> sys) \<Rightarrow> sockaddr list \<Rightarrow> sys \<Rightarrow> int \<times> sys" where
  "udp_candidates call [] s = (- 1, s)"
| "udp_candidates call (a # ais) s =
     (let (fd, s1) = sys_socket s
      in if fd < 0 then udp_candidates call ais s1
         else let (rc, s2) = call fd a (snd (wcat_set_cloexec fd s1))
              in if rc = 0 then (fd, s2) else udp_candidates call ais (close_quiet fd s2))"

definition wcat_udp_connect :: "cstr \<Rightarrow> cstr \<Rightarrow> af \<Rightarrow> sys \<Rightarrow> int \<times> sys" where
  "wcat_udp_connect h p fam s =
     (case sys_gai \<lparr>ai_host = h, ai_service = p, ai_family = fam, ai_kind = UDP_DGRAM, ai_passive = False\<rparr> s of
        (GaiErr msg, s1) \<Rightarrow> (- 1, log_resolve h p msg s1)
      | (GaiOk ais, s1) \<Rightarrow> udp_candidates sys_connect ais s1)"

definition wcat_udp_bind :: "cstr \<Rightarrow> cstr \<Rightarrow> af \<Rightarrow> sys \<Rightarrow> int \<times> sys" where
  "wcat_udp_bind h p fam s =
     (case sys_gai \<lparr>ai_host = h, ai_service = p, ai_family = fam, ai_kind = UDP_DGRAM, ai_passive = True\<rparr> s of
        (GaiErr msg, s1) \<Rightarrow> (- 1, log_resolve h p msg s1)
      | (GaiOk ais, s1) \<Rightarrow> udp_candidates sys_bind ais s1)"

text \<open>\<open>accept\<close>, repeated while it is interrupted; the host and port texts come with the descriptor.\<close>

function wcat_accept :: "fd \<Rightarrow> sys \<Rightarrow> (fd \<times> string \<times> string) option \<times> sys" where
  "wcat_accept listener s =
     (case sys_accept listener s of
        (None, s') \<Rightarrow> if errno_of s' = EINTR then wcat_accept listener s' else (None, s')
      | (Some (fd, h, p), s') \<Rightarrow> (Some (fd, h, p), snd (wcat_set_cloexec fd s')))"
  by pat_completeness auto
termination
  by (relation "measure (\<lambda>(l, s). length (acc_q s l))")
    (auto simp: sys_accept_def Let_def split: list.splits acc_ans.splits)

declare wcat_accept.simps [simp del]

section \<open>The contract of the functions that make sockets\<close>

text \<open>
  What they leave alone: scripts of established descriptors, the stop flag, and everything that
  was recorded for the descriptors open before.
\<close>

definition sock_frame :: "sys \<Rightarrow> sys \<Rightarrow> bool" where
  "sock_frame s s' \<longleftrightarrow>
     rd_q s' = rd_q s \<and> wr_q s' = wr_q s \<and> wcat_stop s' = wcat_stop s \<and> sig_q s' = sig_q s
     \<and> peer_of s' = peer_of s \<and> acc_q s' = acc_q s \<and> children s' = children s
     \<and> term_raw s' = term_raw s \<and> term_q s' = term_q s \<and> length (poll_q s') \<le> length (poll_q s)
     \<and> (\<forall>f \<in> set (open_fds s). sent s' f = sent s f \<and> got s' f = got s f
          \<and> (f \<in> set (nonblocking s') \<longleftrightarrow> f \<in> set (nonblocking s)))"

definition new_socket :: "sys \<Rightarrow> int \<Rightarrow> sys \<Rightarrow> bool" where
  "new_socket s r s' \<longleftrightarrow>
     sock_frame s s'
     \<and> (r = - 1 \<and> open_fds s' = open_fds s
        \<or> 0 \<le> r \<and> r \<notin> set (open_fds s) \<and> open_fds s' = open_fds s @ [r]
          \<and> r \<notin> set (nonblocking s') \<and> r \<in> set (cloexec s') \<and> sent s' r = [] \<and> got s' r = [])"

text \<open>What happens to a socket between its creation and its release.\<close>

definition fd_work :: "fd \<Rightarrow> sys \<Rightarrow> sys \<Rightarrow> bool" where
  "fd_work fd s s' \<longleftrightarrow>
     rd_q s' = rd_q s \<and> wr_q s' = wr_q s \<and> wcat_stop s' = wcat_stop s \<and> sig_q s' = sig_q s
     \<and> peer_of s' = peer_of s \<and> acc_q s' = acc_q s \<and> children s' = children s
     \<and> term_raw s' = term_raw s \<and> term_q s' = term_q s \<and> length (poll_q s') \<le> length (poll_q s)
     \<and> open_fds s' = open_fds s \<and> sent s' = sent s \<and> got s' = got s
     \<and> (\<forall>f. f \<noteq> fd \<longrightarrow> (f \<in> set (nonblocking s') \<longleftrightarrow> f \<in> set (nonblocking s)))
     \<and> set (cloexec s) \<subseteq> set (cloexec s')"

lemma fd_work_refl: "fd_work fd s s"
  by (simp add: fd_work_def)

lemma fd_work_trans: "fd_work fd s s1 \<Longrightarrow> fd_work fd s1 s2 \<Longrightarrow> fd_work fd s s2"
  by (auto simp: fd_work_def)

lemma fd_work_flags:
  "fd_work fd s (snd (wcat_set_cloexec fd s))" "fd_work fd s (snd (wcat_set_nonblock fd b s))"
  by (auto simp: fd_work_def wcat_set_cloexec_def wcat_set_nonblock_def)

lemma fd_work_calls:
  "fd_work fd s (snd (sys_connect fd a s))" "fd_work fd s (snd (sys_bind fd a s))"
  "fd_work fd s (snd (sys_listen fd b s))" "fd_work fd s (snd (sys_so_error fd s))"
  "fd_work fd s (s\<lparr>errno_of := e\<rparr>)" "fd_work fd s (snd (snd (sys_poll p s)))"
  by (auto simp: fd_work_def sys_connect_def sys_bind_def sys_listen_def sys_so_error_def sys_poll_def
      Let_def split: list.splits option.splits sum.splits poll_ans.splits)

lemma fd_work_poll_retry: "fd_work fd s (snd (snd (poll_retry p s)))"
proof (induction p s rule: poll_retry.induct)
  case (1 p s)
  obtain rc rev s1 where pl: "sys_poll [p] s = (rc, rev, s1)" using prod_cases3 by blast
  then have "fd_work fd s s1" using fd_work_calls(6) [of fd s "[p]"] by simp
  with "1.IH" [OF pl [symmetric] refl refl] pl show ?case
    by (auto simp: poll_retry.simps [of p s] intro: fd_work_trans)
qed

lemma fd_work_wait_connected: "fd_work fd s (snd (wait_connected fd timeout s))"
proof -
  obtain rc rev s1 where pl: "poll_retry (fd, {POLLOUT}) s = (rc, rev, s1)" using prod_cases3 by blast
  then have w: "fd_work fd s s1" using fd_work_poll_retry [of fd s "(fd, {POLLOUT})"] by simp
  obtain a s2 where so: "sys_so_error fd s1 = (a, s2)" by force
  then have "fd_work fd s s2" using fd_work_calls(4) [of fd s1] fd_work_trans [OF w] by simp
  with w pl so show ?thesis
    by (auto simp: wait_connected_def split: sum.splits option.splits
        intro: fd_work_trans [OF _ fd_work_calls(5)])
qed

text \<open>A socket is finished when it is ready to use or released.\<close>

definition socket_done :: "fd \<Rightarrow> sys \<Rightarrow> int \<times> sys \<Rightarrow> bool" where
  "socket_done fd s p \<longleftrightarrow>
     fst p = fd \<and> fd_work fd s (snd p) \<and> fd \<notin> set (nonblocking (snd p)) \<and> fd \<in> set (cloexec (snd p))
     \<or> fst p = - 1 \<and> (\<exists>s1. fd_work fd s s1 \<and> snd p = close_quiet fd s1)"

lemma socket_done_close: "fd_work fd s s1 \<Longrightarrow> socket_done fd s (wcat_close_quiet fd s1)"
  unfolding socket_done_def by (rule disjI2) (auto simp: prod_eq_iff)

lemma set_cloexec_sets: "fd \<in> set (open_fds s) \<Longrightarrow> fd \<in> set (cloexec (snd (wcat_set_cloexec fd s)))"
  by (simp add: wcat_set_cloexec_def)

lemma set_nonblock_clears:
  "fd \<in> set (open_fds s) \<Longrightarrow> fd \<notin> set (nonblocking (snd (wcat_set_nonblock fd False s)))"
  by (simp add: wcat_set_nonblock_def)

lemma socket_done_blocking:
  assumes "fd_work fd s0 s1" and "fd \<in> set (cloexec s1)" and "fd \<in> set (open_fds s0)"
  shows "socket_done fd s0 (fd, snd (wcat_set_nonblock fd False s1))"
proof -
  have "fd_work fd s1 (snd (wcat_set_nonblock fd False s1))" by (rule fd_work_flags)
  moreover from this assms(2) have "fd \<in> set (cloexec (snd (wcat_set_nonblock fd False s1)))"
    by (auto simp: fd_work_def)
  moreover have "fd \<in> set (open_fds s1)" using assms by (simp add: fd_work_def)
  ultimately show ?thesis
    using assms(1) set_nonblock_clears fd_work_trans unfolding socket_done_def by auto
qed

lemma connect_socket_done:
  assumes "fd \<in> set (open_fds s)"
  shows "socket_done fd s (connect_socket fd a timeout s)"
proof -
  define s2 where "s2 = (if timeout \<ge> 0 then snd (wcat_set_nonblock fd True (snd (wcat_set_cloexec fd s)))
    else snd (wcat_set_cloexec fd s))"
  obtain rc s3 where c: "sys_connect fd a s2 = (rc, s3)" by force
  obtain w s4 where wc: "wait_connected fd timeout s3 = (w, s4)" by force
  have 1: "fd_work fd (snd (wcat_set_cloexec fd s)) s2"
    unfolding s2_def by (simp add: fd_work_flags fd_work_refl)
  have 3: "fd_work fd (snd (wcat_set_cloexec fd s)) s3"
    using fd_work_trans [OF 1 fd_work_calls(1) [of fd s2 a]] c by simp
  have 4: "fd_work fd (snd (wcat_set_cloexec fd s)) s4"
    using fd_work_trans [OF 3 fd_work_wait_connected [of fd s3 timeout]] wc by simp
  have ce: "fd \<in> set (cloexec s3)" "fd \<in> set (cloexec s4)"
    using set_cloexec_sets [OF assms] 3 4 by (auto simp: fd_work_def)
  have w3: "fd_work fd s s3" and w4: "fd_work fd s s4"
    using fd_work_trans [OF fd_work_flags(1)] 3 4 by blast+
  show ?thesis
    using socket_done_blocking [OF w3 ce(1) assms] socket_done_blocking [OF w4 ce(2) assms]
      socket_done_close [OF w3] socket_done_close [OF w4] c wc
    by (simp add: connect_socket_def Let_def s2_def [symmetric])
qed

lemma listen_socket_done:
  assumes "fd \<in> set (open_fds s)" and "fd \<notin> set (nonblocking s)"
  shows "socket_done fd s (listen_socket fd a backlog s)"
proof -
  define s0 where "s0 = snd (wcat_set_cloexec fd s)"
  obtain b s1 where bd: "sys_bind fd a s0 = (b, s1)" by force
  obtain l s2 where ls: "sys_listen fd backlog s1 = (l, s2)" by force
  have 0: "fd_work fd s s0" unfolding s0_def by (rule fd_work_flags)
  have 1: "fd_work fd s0 s1" using fd_work_calls(2) [of fd s0 a] bd by simp
  have 2: "fd_work fd s0 s2" using fd_work_trans [OF 1 fd_work_calls(3) [of fd s1 backlog]] ls by simp
  have "nonblocking s2 = nonblocking s" 
    using bd ls by (auto simp: s0_def sys_bind_def sys_listen_def wcat_set_cloexec_def
        split: list.splits option.splits if_splits)
  moreover have "fd \<in> set (cloexec s2)"
    using set_cloexec_sets [OF assms(1)] 2 by (auto simp: fd_work_def s0_def)
  ultimately have "socket_done fd s (fd, s2)"
    using assms(2) fd_work_trans [OF 0 2] by (simp add: socket_done_def)
  with socket_done_close [OF fd_work_trans [OF 0 1]] socket_done_close [OF fd_work_trans [OF 0 2]]
    bd ls show ?thesis by (simp add: listen_socket_def s0_def [symmetric])
qed

text \<open>From the state before the socket was made.\<close>

lemma add_fd_sock_frame:
  assumes "fd \<notin> set (open_fds s)"
  shows "sock_frame s (add_fd fd (s\<lparr>socket_q := q\<rparr>))"
  unfolding sock_frame_def
proof (intro conjI ballI)
  fix f
  assume "f \<in> set (open_fds s)"
  with assms have "f \<noteq> fd" by blast
  then show "sent (add_fd fd (s\<lparr>socket_q := q\<rparr>)) f = sent s f" "got (add_fd fd (s\<lparr>socket_q := q\<rparr>)) f = got s f"
    "f \<in> set (nonblocking (add_fd fd (s\<lparr>socket_q := q\<rparr>))) \<longleftrightarrow> f \<in> set (nonblocking s)"
    by (simp_all add: add_fd_def)
qed (simp_all add: add_fd_def)

lemma sys_socket_cases:
  assumes "sys_socket s = (fd, s1)"
  shows "fd = - 1 \<and> new_socket s (- 1) s1
    \<or> 0 \<le> fd \<and> fd \<notin> set (open_fds s) \<and> open_fds s1 = open_fds s @ [fd] \<and> sent s1 fd = [] \<and> got s1 fd = []
       \<and> fd \<notin> set (nonblocking s1) \<and> sock_frame s s1"
proof (cases "\<exists>q. socket_q s = None # q")
  case True
  then obtain q where q: "socket_q s = None # q" ..
  with assms have e: "fd = fresh_fd s" "s1 = add_fd (fresh_fd s) (s\<lparr>socket_q := q\<rparr>)"
    by (auto simp: sys_socket_def)
  have "sock_frame s s1" unfolding e(2) by (rule add_fd_sock_frame) simp
  moreover have "open_fds s1 = open_fds s @ [fd]" "sent s1 fd = []" "got s1 fd = []" "fd \<notin> set (nonblocking s1)"
    by (simp_all add: e add_fd_def)
  ultimately show ?thesis by (simp add: e(1))
next
  case False
  then consider "socket_q s = []" | er q where "socket_q s = Some er # q"
    by (cases "socket_q s") (auto simp: not_None_eq)
  then show ?thesis
  proof cases
    case 1
    with assms have "fd = - 1" "s1 = s\<lparr>errno_of := EMFILE\<rparr>" by (auto simp: sys_socket_def)
    then show ?thesis by (simp add: new_socket_def sock_frame_def)
  next
    case 2
    with assms have "fd = - 1" "s1 = s\<lparr>socket_q := q, errno_of := er\<rparr>" by (auto simp: sys_socket_def)
    then show ?thesis by (simp add: new_socket_def sock_frame_def)
  qed
qed

lemma socket_done_new:
  assumes "sys_socket s = (fd, s1)" and "0 \<le> fd" and "fd_work fd s1 s1'"
    and "socket_done fd s1' (r, s2)"
  shows "new_socket s r s2"
proof -
  from sys_socket_cases [OF assms(1)] assms(2)
  have n: "fd \<notin> set (open_fds s)" "open_fds s1 = open_fds s @ [fd]" "sent s1 fd = []" "got s1 fd = []"
    "sock_frame s s1" by auto
  from assms(4) consider (ok) "r = fd" "fd_work fd s1' s2" "fd \<notin> set (nonblocking s2)" "fd \<in> set (cloexec s2)"
    | (closed) s3 where "r = - 1" "fd_work fd s1' s3" "s2 = close_quiet fd s3"
    by (auto simp: socket_done_def)
  then show ?thesis
  proof cases
    case ok
    with n assms(2) fd_work_trans [OF assms(3) ok(2)] show ?thesis
      by (auto simp: new_socket_def sock_frame_def fd_work_def)
  next
    case closed
    have w: "fd_work fd s1 s3" using fd_work_trans [OF assms(3) closed(2)] .
    then have "open_fds s3 = open_fds s @ [fd]" using n by (simp add: fd_work_def)
    with closed(3) n(1) assms(2) have "open_fds s2 = open_fds s" by simp
    moreover have "sock_frame s s2" using w n closed(3) by (auto simp: sock_frame_def fd_work_def)
    ultimately show ?thesis using closed(1) by (simp add: new_socket_def)
  qed
qed

text \<open>A failed attempt followed by further attempts.\<close>

lemma new_socket_after_failure:
  "new_socket s (- 1) s1 \<Longrightarrow> new_socket s1 r s2 \<Longrightarrow> new_socket s r s2"
  by (auto simp: new_socket_def sock_frame_def)

lemma new_socket_fail: "fd_work fd s s1 \<Longrightarrow> fd \<notin> set (open_fds s) \<Longrightarrow> new_socket s (- 1) s1"
  by (auto simp: new_socket_def sock_frame_def fd_work_def)

lemma new_socket_range: "new_socket s r s' \<Longrightarrow> r < 0 \<Longrightarrow> r = - 1"
  by (auto simp: new_socket_def)

lemma connect_candidates_new:
  "connect_candidates ais timeout s = (r, s') \<Longrightarrow> new_socket s r s'"
proof (induction ais timeout s rule: connect_candidates.induct)
  case (1 timeout s)
  then show ?case by (simp add: new_socket_def sock_frame_def)
next
  case (2 a ais timeout s)
  obtain fd s1 where so: "sys_socket s = (fd, s1)" by force
  obtain r2 s2 where co: "connect_socket fd a timeout s1 = (r2, s2)" by force
  note cases = sys_socket_cases [OF so]
  show ?case
  proof (cases "fd < 0")
    case True
    with "2.prems" so have "connect_candidates ais timeout s1 = (r, s')" by simp
    from "2.IH"(1) [OF so [symmetric] refl True this] cases True show ?thesis
      using new_socket_after_failure by auto
  next
    case False
    with cases have "fd \<in> set (open_fds s1)" by auto
    from connect_socket_done [OF this, of a timeout] co
    have n: "new_socket s r2 s2" using False socket_done_new [OF so _ fd_work_refl] by simp
    show ?thesis
    proof (cases "0 \<le> r2")
      case True
      with "2.prems" so co False n show ?thesis by simp
    next
      case failed: False
      with "2.prems" so co False have "connect_candidates ais timeout s2 = (r, s')" by simp
      from "2.IH"(2) [OF so [symmetric] refl False co [symmetric] refl failed this] n failed
      show ?thesis using new_socket_after_failure new_socket_range [OF n] by auto
    qed
  qed
qed

lemma listen_candidates_new:
  "listen_candidates ais backlog s = (r, s') \<Longrightarrow> new_socket s r s'"
proof (induction ais backlog s rule: listen_candidates.induct)
  case (1 backlog s)
  then show ?case by (simp add: new_socket_def sock_frame_def)
next
  case (2 a ais backlog s)
  obtain fd s1 where so: "sys_socket s = (fd, s1)" by force
  obtain r2 s2 where co: "listen_socket fd a backlog s1 = (r2, s2)" by force
  note cases = sys_socket_cases [OF so]
  show ?case
  proof (cases "fd < 0")
    case True
    with "2.prems" so have "listen_candidates ais backlog s1 = (r, s')" by simp
    from "2.IH"(1) [OF so [symmetric] refl True this] cases True show ?thesis
      using new_socket_after_failure by auto
  next
    case False
    with cases have "fd \<in> set (open_fds s1)" "fd \<notin> set (nonblocking s1)" by auto
    from listen_socket_done [OF this, of a backlog] co
    have n: "new_socket s r2 s2" using False socket_done_new [OF so _ fd_work_refl] by simp
    show ?thesis
    proof (cases "0 \<le> r2")
      case True
      with "2.prems" so co False n show ?thesis by simp
    next
      case failed: False
      with "2.prems" so co False have "listen_candidates ais backlog s2 = (r, s')" by simp
      from "2.IH"(2) [OF so [symmetric] refl False co [symmetric] refl failed this] n failed
      show ?thesis using new_socket_after_failure new_socket_range [OF n] by auto
    qed
  qed
qed

lemma udp_candidates_new:
  assumes "\<And>fd a s. fd_work fd s (snd (call fd a s))"
    and "\<And>fd a s. nonblocking (snd (call fd a s)) = nonblocking s"
  shows "udp_candidates call ais s = (r, s') \<Longrightarrow> new_socket s r s'"
proof (induction ais arbitrary: s)
  case Nil
  then show ?case by (simp add: new_socket_def sock_frame_def)
next
  case (Cons a ais)
  obtain fd s1 where so: "sys_socket s = (fd, s1)" by force
  define s0 where "s0 = snd (wcat_set_cloexec fd s1)"
  obtain rc s2 where co: "call fd a s0 = (rc, s2)" by force
  note cases = sys_socket_cases [OF so]
  show ?case
  proof (cases "fd < 0")
    case True
    with Cons.prems so have "udp_candidates call ais s1 = (r, s')" by simp
    from Cons.IH [OF this] cases True show ?thesis using new_socket_after_failure by auto
  next
    case False
    with cases have o: "fd \<in> set (open_fds s1)" "fd \<notin> set (nonblocking s1)" by auto
    have 0: "fd_work fd s1 s0" unfolding s0_def by (rule fd_work_flags)
    have 2: "fd_work fd s0 s2" using assms(1) [of fd s0 a] co by simp
    have "fd \<in> set (cloexec s2)" using set_cloexec_sets [OF o(1)] 2 by (auto simp: fd_work_def s0_def)
    moreover have "nonblocking s2 = nonblocking s1"
      using assms(2) [of fd a s0] co by (simp add: s0_def wcat_set_cloexec_def split: if_splits)
    ultimately have ok: "new_socket s fd s2"
      using o(2) False fd_work_trans [OF 0 2]
      by (intro socket_done_new [OF so _ fd_work_refl]) (auto simp: socket_done_def)
    have bad: "new_socket s (- 1) (close_quiet fd s2)"
      using False socket_done_close [OF fd_work_trans [OF 0 2]]
      by (intro socket_done_new [OF so _ fd_work_refl]) (auto simp: socket_done_def)
    show ?thesis
    proof (cases "rc = 0")
      case True
      with Cons.prems so co False ok show ?thesis by (simp add: s0_def)
    next
      case failed: False
      with Cons.prems so co False have "udp_candidates call ais (close_quiet fd s2) = (r, s')"
        by (simp add: s0_def)
      from Cons.IH [OF this] show ?thesis using new_socket_after_failure [OF bad] by simp
    qed
  qed
qed

lemma sys_gai_new: "sys_gai h s = (a, s1) \<Longrightarrow> new_socket s (- 1) s1"
  by (auto simp: sys_gai_def new_socket_def sock_frame_def split: list.splits)

lemma new_socket_log: "new_socket s r s1 \<Longrightarrow> new_socket s r (wcat_log lv ev msg s1)"
  by (auto simp: new_socket_def sock_frame_def wcat_log_def Let_def)

lemma resolved_new:
  assumes "sys_gai h s = (a, s1)"
    and "\<And>ais. a = GaiOk ais \<Longrightarrow> f ais s1 = (r, s') \<Longrightarrow> new_socket s1 r s'"
    and "(case a of GaiErr msg \<Rightarrow> (- 1, log_resolve hh p msg s1) | GaiOk ais \<Rightarrow> f ais s1) = (r, s')"
  shows "new_socket s r s'"
  using assms sys_gai_new [OF assms(1)]
  by (cases a) (auto simp: log_resolve_def intro: new_socket_log new_socket_after_failure)

lemma inet_connect_new: "inet_connect h p fam kind timeout s = (r, s') \<Longrightarrow> new_socket s r s'"
proof -
  obtain a s1 where g: "sys_gai \<lparr>ai_host = h, ai_service = p, ai_family = fam, ai_kind = kind,
      ai_passive = False\<rparr> s = (a, s1)" by force
  assume "inet_connect h p fam kind timeout s = (r, s')"
  with g show ?thesis
    by (intro resolved_new [OF g, where f = "\<lambda>ais. connect_candidates ais timeout" and hh = h and p = p])
      (auto simp: inet_connect_def intro: connect_candidates_new)
qed

lemma inet_listen_new: "inet_listen h p fam kind backlog s = (r, s') \<Longrightarrow> new_socket s r s'"
proof -
  obtain a s1 where g: "sys_gai \<lparr>ai_host = h, ai_service = p, ai_family = fam, ai_kind = kind,
      ai_passive = True\<rparr> s = (a, s1)" by force
  assume "inet_listen h p fam kind backlog s = (r, s')"
  with g show ?thesis
    by (intro resolved_new [OF g, where f = "\<lambda>ais. listen_candidates ais backlog" and hh = h and p = p])
      (auto simp: inet_listen_def intro: listen_candidates_new)
qed

lemma udp_connect_new: "wcat_udp_connect h p fam s = (r, s') \<Longrightarrow> new_socket s r s'"
proof -
  obtain a s1 where g: "sys_gai \<lparr>ai_host = h, ai_service = p, ai_family = fam, ai_kind = UDP_DGRAM,
      ai_passive = False\<rparr> s = (a, s1)" by force
  have nb: "nonblocking (snd (sys_connect fd a s)) = nonblocking s" for fd a s
    by (simp add: sys_connect_def split: list.splits option.splits)
  assume "wcat_udp_connect h p fam s = (r, s')"
  with g show ?thesis
    by (intro resolved_new [OF g, where f = "udp_candidates sys_connect" and hh = h and p = p])
      (auto simp: wcat_udp_connect_def intro: udp_candidates_new [OF fd_work_calls(1) nb])
qed

lemma udp_bind_new: "wcat_udp_bind h p fam s = (r, s') \<Longrightarrow> new_socket s r s'"
proof -
  obtain a s1 where g: "sys_gai \<lparr>ai_host = h, ai_service = p, ai_family = fam, ai_kind = UDP_DGRAM,
      ai_passive = True\<rparr> s = (a, s1)" by force
  have nb: "nonblocking (snd (sys_bind fd a s)) = nonblocking s" for fd a s
    by (simp add: sys_bind_def split: list.splits option.splits)
  assume "wcat_udp_bind h p fam s = (r, s')"
  with g show ?thesis
    by (intro resolved_new [OF g, where f = "udp_candidates sys_bind" and hh = h and p = p])
      (auto simp: wcat_udp_bind_def intro: udp_candidates_new [OF fd_work_calls(2) nb])
qed

lemma new_socket_errno: "new_socket s (- 1) (s\<lparr>errno_of := e\<rparr>)"
  by (simp add: new_socket_def sock_frame_def)

text \<open>One socket at a fixed address.\<close>

lemma one_socket_new:
  assumes "(let (fd, s1) = sys_socket s in if fd < 0 then (- 1, s1) else f fd (g s1)) = (r, s')"
    and "\<And>fd s. fd_work fd s (g s)"
    and "\<And>fd s. fd \<in> set (open_fds s) \<Longrightarrow> fd \<notin> set (nonblocking s) \<Longrightarrow> socket_done fd s (f fd s)"
    and "\<And>s. nonblocking (g s) = nonblocking s"
  shows "new_socket s r s'"
proof -
  obtain fd s1 where so: "sys_socket s = (fd, s1)" by force
  note cases = sys_socket_cases [OF so]
  show ?thesis
  proof (cases "fd < 0")
    case True
    with assms(1) so cases show ?thesis by auto
  next
    case False
    with cases have "fd \<in> set (open_fds (g s1))" "fd \<notin> set (nonblocking (g s1))"
      using assms(2) [of fd s1] assms(4) [of s1] by (auto simp: fd_work_def)
    from assms(3) [OF this] assms(1) so False show ?thesis
      using socket_done_new [OF so _ assms(2)] by simp
  qed
qed

lemma one_connect_new:
  "(let (fd, s1) = sys_socket s in if fd < 0 then (- 1, s1) else connect_socket fd a timeout s1) = (r, s')
     \<Longrightarrow> new_socket s r s'"
  by (rule one_socket_new [where g = "\<lambda>s. s"]) (auto intro: fd_work_refl connect_socket_done)

lemma one_listen_new:
  assumes "(let (fd, s1) = sys_socket s in if fd < 0 then (- 1, s1) else listen_socket fd a backlog (g s1))
      = (r, s')"
    and "\<And>s. g s = s\<lparr>unlinked := u s\<rparr>"
  shows "new_socket s r s'"
  by (rule one_socket_new [where f = "\<lambda>fd. listen_socket fd a backlog", OF assms(1)])
    (auto simp: assms(2) fd_work_def intro: listen_socket_done)

lemma unix_connect_new: "wcat_unix_connect path timeout s = (r, s') \<Longrightarrow> new_socket s r s'"
  unfolding wcat_unix_connect_def
  by (erule if_either) (auto intro: new_socket_errno dest: one_connect_new simp only: prod.inject)

lemma unix_listen_new: "wcat_unix_listen path backlog s = (r, s') \<Longrightarrow> new_socket s r s'"
  unfolding wcat_unix_listen_def
  by (erule if_either)
    (auto intro: new_socket_errno simp only: prod.inject
      elim: one_listen_new [where g = "\<lambda>s. s\<lparr>unlinked := the path # unlinked s\<rparr>"
        and u = "\<lambda>s. the path # unlinked s"])

lemma vsock_connect_new: "wcat_vsock_connect cid p timeout s = (r, s') \<Longrightarrow> new_socket s r s'"
  unfolding wcat_vsock_connect_def
  by (cases "parse_u32_arg cid"; cases "parse_u32_arg p")
    (auto intro: new_socket_errno dest: one_connect_new simp only: prod.inject option.case prod.case)

lemma vsock_listen_new:
  assumes "wcat_vsock_listen cid p backlog s = (r, s')"
  shows "new_socket s r s'"
proof (cases "vsock_listen_cid cid = None \<or> parse_u32_arg p = None")
  case True
  with assms show ?thesis
    by (auto simp: wcat_vsock_listen_def new_socket_errno split: option.splits)
next
  case False
  then obtain c q where "vsock_listen_cid cid = Some c" "parse_u32_arg p = Some q" by auto
  with assms show ?thesis
    by (intro one_listen_new [where g = "\<lambda>s. s" and u = unlinked and a = "SaVm c q" and backlog = backlog])
      (simp_all add: wcat_vsock_listen_def)
qed

section \<open>The interface to the clients\<close>

text \<open>
  A function that makes a socket, as its clients see it. Whoever closes what it was given leaves
  the set of open descriptors as it was.
\<close>

locale socket_maker =
  fixes make :: "sys \<Rightarrow> int \<times> sys"
  assumes make_new: "make s = (r, s') \<Longrightarrow> new_socket s r s'"
begin

lemma make_fresh: "make s = (r, s') \<Longrightarrow> 0 \<le> r \<Longrightarrow> r \<notin> set (open_fds s) \<and> open_fds s' = open_fds s @ [r]"
  using make_new [of s r s'] by (auto simp: new_socket_def)

lemma make_failed: "make s = (r, s') \<Longrightarrow> r < 0 \<Longrightarrow> r = - 1 \<and> open_fds s' = open_fds s"
  using make_new [of s r s'] by (auto simp: new_socket_def)

lemma make_keeps_stop: "make s = (r, s') \<Longrightarrow> wcat_stop s' = wcat_stop s"
  using make_new [of s r s'] by (auto simp: new_socket_def sock_frame_def)

text \<open>Use in between may open and close other descriptors, as long as it ends with the same ones.\<close>

lemma make_close_balanced:
  assumes "make s = (r, s1)" and "0 \<le> r" and "open_fds s2 = open_fds s1"
  shows "open_fds (close_quiet r s2) = open_fds s"
  using make_fresh [OF assms(1,2)] assms(2,3) by simp

end

interpretation tcp_connect: socket_maker "wcat_tcp_connect h p fam timeout"
  by unfold_locales (simp add: wcat_tcp_connect_def inet_connect_new)

interpretation tcp_listen: socket_maker "wcat_tcp_listen h p fam backlog"
  by unfold_locales (simp add: wcat_tcp_listen_def inet_listen_new)

interpretation sctp_connect: socket_maker "wcat_sctp_connect h p fam timeout"
  by unfold_locales (simp add: wcat_sctp_connect_def inet_connect_new)

interpretation sctp_listen: socket_maker "wcat_sctp_listen h p fam backlog"
  by unfold_locales (simp add: wcat_sctp_listen_def inet_listen_new)

interpretation unix_connect: socket_maker "wcat_unix_connect path timeout"
  by unfold_locales (rule unix_connect_new)

interpretation unix_listen: socket_maker "wcat_unix_listen path backlog"
  by unfold_locales (rule unix_listen_new)

interpretation vsock_connect: socket_maker "wcat_vsock_connect cid p timeout"
  by unfold_locales (rule vsock_connect_new)

interpretation vsock_listen: socket_maker "wcat_vsock_listen cid p backlog"
  by unfold_locales (rule vsock_listen_new)

interpretation udp_connect: socket_maker "wcat_udp_connect h p fam"
  by unfold_locales (rule udp_connect_new)

interpretation udp_bind: socket_maker "wcat_udp_bind h p fam"
  by unfold_locales (rule udp_bind_new)

section \<open>Accepting and VM socket numbers\<close>

lemma wcat_accept_effect:
  "wcat_accept l s = (r, s') \<Longrightarrow>
     rd_q s' = rd_q s \<and> wr_q s' = wr_q s \<and> wcat_stop s' = wcat_stop s \<and> sig_q s' = sig_q s
     \<and> poll_q s' = poll_q s \<and> stderr_out s' = stderr_out s
     \<and> (case r of
          None \<Rightarrow> open_fds s' = open_fds s \<and> errno_of s' \<noteq> EINTR \<and> sent s' = sent s \<and> got s' = got s
        | Some (fd, h, p) \<Rightarrow>
            0 \<le> fd \<and> fd \<notin> set (open_fds s) \<and> open_fds s' = open_fds s @ [fd] \<and> fd \<in> set (cloexec s')
            \<and> sent s' = (sent s)(fd := []) \<and> got s' = (got s)(fd := []))"
proof (induction l s rule: wcat_accept.induct)
  case (1 l s)
  obtain a s1 where ac: "sys_accept l s = (a, s1)" by force
  show ?case
  proof (cases a)
    case None
    then have f: "rd_q s1 = rd_q s \<and> wr_q s1 = wr_q s \<and> wcat_stop s1 = wcat_stop s \<and> sig_q s1 = sig_q s
      \<and> poll_q s1 = poll_q s \<and> stderr_out s1 = stderr_out s \<and> open_fds s1 = open_fds s
      \<and> sent s1 = sent s \<and> got s1 = got s"
      using ac by (auto simp: sys_accept_def Let_def split: list.splits acc_ans.splits)
    show ?thesis
    proof (cases "errno_of s1 = EINTR")
      case True
      with "1.prems" ac None have "wcat_accept l s1 = (r, s')" by (simp add: wcat_accept.simps [of l s])
      from "1.IH" [OF ac [symmetric] None True this] f show ?thesis by (cases r) (simp_all add: case_prod_unfold)
    next
      case False
      with "1.prems" ac None f show ?thesis by (auto simp: wcat_accept.simps [of l s])
    qed
  next
    case (Some x)
    with "1.prems" ac show ?thesis
      by (auto simp: wcat_accept.simps [of l s] sys_accept_def Let_def add_fd_def wcat_set_cloexec_def
          split: list.splits acc_ans.splits)
  qed
qed

lemma wcat_accept_peer:
  "wcat_accept l s = (r, s') \<Longrightarrow>
     (case r of None \<Rightarrow> peer_of s' = peer_of s | Some (fd, _) \<Rightarrow> \<forall>f. f \<noteq> fd \<longrightarrow> peer_of s' f = peer_of s f)"
proof (induction l s rule: wcat_accept.induct)
  case (1 l s)
  obtain a s1 where ac: "sys_accept l s = (a, s1)" by force
  have f: "a = None \<Longrightarrow> peer_of s1 = peer_of s" "a = Some (fd, x) \<Longrightarrow> \<forall>f. f \<noteq> fd \<longrightarrow> peer_of s1 f = peer_of s f" for fd x
    using ac by (auto simp: sys_accept_def Let_def add_fd_def split: list.splits acc_ans.splits)
  show ?case
  proof (cases "a = None \<and> errno_of s1 = EINTR")
    case True
    with "1.prems" ac have "wcat_accept l s1 = (r, s')" by (simp add: wcat_accept.simps [of l s])
    with "1.IH" [OF ac [symmetric] _ _ this] True f show ?thesis by (auto split: option.splits)
  next
    case False
    with "1.prems" ac f show ?thesis
      by (cases a) (auto simp: wcat_accept.simps [of l s] wcat_set_cloexec_def)
  qed
qed

end
