(* ===== verification/Wcat_Tls.thy ===== *)
theory Wcat_Tls
  imports Wcat_Socketx
begin

text \<open>
  src/tls.c: opening TLS connections, and reading, writing, ending and closing them (also the
  QUIC streams that src/quic.c opens). The library's objects are modelled by what the code
  configures on them, so that the lemmas can say what a successful handshake was configured to
  check; the answers of the library are scripts of the system state. The branches modelled are
  those with the QUIC interface (\<open>WCAT_HAVE_OPENSSL_QUIC_API\<close>). The code does not look at the result
  of \<open>SSL_CTX_set_min_proto_version\<close>; the model takes it to succeed, as it does for a version that the
  library was built with.
\<close>

section \<open>Definitions\<close>

datatype verify_mode = SSL_VERIFY_NONE | SSL_VERIFY_PEER | SSL_VERIFY_REQUIRED
datatype ca_source = CaFile string | CaDefault

record ssl_ctx =
  ctx_verify :: verify_mode
  ctx_ca :: "ca_source option"
  ctx_cert :: "(string \<times> string) option"
  ctx_tls12 :: bool
  ctx_alpn :: "cstr option"

record ssl =
  ssl_sni :: cstr
  ssl_host :: cstr
  ssl_open :: bool
  ssl_alpn :: "bytes option"

record wcat_tls_stream =
  tfd :: fd
  tctx :: "ssl_ctx option"
  tssl :: "ssl option"
  parent_ssl :: "ssl option"
  enabled :: bool
  owns_fd :: bool
  quic_stream :: bool

definition tls_zero :: wcat_tls_stream where
  "tls_zero = \<lparr>tfd = - 1, tctx = None, tssl = None, parent_ssl = None, enabled = False, owns_fd = False,
               quic_stream = False\<rparr>"

definition stream_init :: "fd \<Rightarrow> wcat_tls_stream" where
  "stream_init fd = tls_zero\<lparr>tfd := fd, enabled := True, owns_fd := True\<rparr>"

definition new_ctx :: ssl_ctx where
  "new_ctx = \<lparr>ctx_verify = SSL_VERIFY_NONE, ctx_ca = None, ctx_cert = None, ctx_tls12 = False, ctx_alpn = None\<rparr>"

definition new_ssl :: ssl where
  "new_ssl = \<lparr>ssl_sni = None, ssl_host = None, ssl_open = False, ssl_alpn = None\<rparr>"

definition log_openssl_error :: "string \<Rightarrow> string \<Rightarrow> sys \<Rightarrow> sys" where
  "log_openssl_error event message s =
     (case ssl_error_text s of
        (None, s1) \<Rightarrow> wcat_log WCAT_LOG_ERROR event message s1
      | (Some e, s1) \<Rightarrow> wcat_log WCAT_LOG_ERROR event (message @ '': '' @ snprintf_trunc 256 e) s1)"

definition quic_event_ssl :: "wcat_tls_stream \<Rightarrow> ssl option" where
  "quic_event_ssl t = (if \<not> quic_stream t then None
                       else if parent_ssl t \<noteq> None then parent_ssl t else tssl t)"

definition quic_handle_events :: "wcat_tls_stream \<Rightarrow> sys \<Rightarrow> sys" where
  "quic_handle_events t s = (if quic_event_ssl t \<noteq> None then snd (ssl_handle_events s) else s)"

text \<open>The results of \<open>SSL_shutdown\<close> and of the calls that free objects are not used.\<close>

definition wcat_tls_close :: "wcat_tls_stream \<Rightarrow> sys \<Rightarrow> wcat_tls_stream \<times> sys" where
  "wcat_tls_close t s =
     (let s1 = (if tssl t \<noteq> None then snd (ssl_finish s) else s);
          s2 = (if owns_fd t \<and> tfd t \<ge> 0 then close_quiet (tfd t) s1 else s1)
      in (tls_zero, s2))"

text \<open>The error exits: a log record, the stream closed, -1.\<close>

definition tls_fail :: "string \<Rightarrow> string \<Rightarrow> wcat_tls_stream \<Rightarrow> sys \<Rightarrow> int \<times> wcat_tls_stream \<times> sys" where
  "tls_fail event message t s =
     (let (t', s') = wcat_tls_close t (log_openssl_error event message s) in (- 1, t', s'))"

definition tls_invalid :: "wcat_tls_stream \<Rightarrow> sys \<Rightarrow> int \<times> wcat_tls_stream \<times> sys" where
  "tls_invalid t s = (let (t', s') = wcat_tls_close t (s\<lparr>errno_of := EINVAL\<rparr>) in (- 1, t', s'))"

text \<open>Three calls in a row, each made only if the one before succeeded.\<close>

definition ssl_calls3 :: "sys \<Rightarrow> bool \<times> sys" where
  "ssl_calls3 s =
     (let (a, s1) = ssl_call s
      in if \<not> a then (False, s1)
         else let (b, s2) = ssl_call s1 in if \<not> b then (False, s2) else ssl_call s2)"

text \<open>Peer verification of a client: the verify mode and the CA certificates.\<close>

definition client_verify :: "bool \<Rightarrow> cstr \<Rightarrow> ssl_ctx \<Rightarrow> sys \<Rightarrow> (string + ssl_ctx) \<times> sys" where
  "client_verify verify_peer ca ctx s =
     (if verify_peer
      then let ctx1 = ctx\<lparr>ctx_verify := SSL_VERIFY_PEER\<rparr>; (ok, s1) = ssl_call s
           in case ca of
                Some f \<Rightarrow> (if ok then Inr (ctx1\<lparr>ctx_ca := Some (CaFile f)\<rparr>) else Inl ''failed to load CA file'', s1)
              | None \<Rightarrow> (if ok then Inr (ctx1\<lparr>ctx_ca := Some CaDefault\<rparr>)
                         else Inl ''failed to load default CA paths'', s1)
      else (Inr (ctx\<lparr>ctx_verify := SSL_VERIFY_NONE\<rparr>), s))"

text \<open>From \<open>SSL_new\<close> to the end of the client handshake.\<close>

definition client_handshake ::
  "wcat_tls_stream \<Rightarrow> cstr \<Rightarrow> bool \<Rightarrow> sys \<Rightarrow> int \<times> wcat_tls_stream \<times> sys" where
  "client_handshake t servername verify_peer s =
     (let (ok, s1) = ssl_call s
      in if \<not> ok then tls_fail ''tls_session'' ''TLS client session creation failed'' t s1
         else let t1 = t\<lparr>tssl := Some (new_ssl\<lparr>ssl_sni := servername\<rparr>)\<rparr>;
                  (hok, s2) = (if servername \<noteq> None \<and> verify_peer then ssl_call s1 else (True, s1))
              in if \<not> hok then tls_fail ''tls_verify'' ''failed to configure hostname verification'' t1 s2
                 else let t2 = t\<lparr>tssl := Some (new_ssl\<lparr>ssl_sni := servername,
                                   ssl_host := (if verify_peer then servername else None)\<rparr>)\<rparr>;
                          (cok, s3) = ssl_call s2
                      in if \<not> cok then tls_fail ''tls_handshake'' ''TLS client handshake failed'' t2 s3
                         else let t3 = t2\<lparr>tssl := map_option (\<lambda>x. x\<lparr>ssl_open := True\<rparr>) (tssl t2)\<rparr>;
                                  (v, s4) = (if verify_peer then ssl_verify s3 else (None, s3))
                              in if v \<noteq> None
                                 then let (t', s') = wcat_tls_close t3
                                            (wcat_log WCAT_LOG_ERROR ''tls_verify''
                                               (''TLS certificate verification failed: '' @ the v) s4)
                                      in (- 1, t', s')
                                 else (0, t3, snd (wcat_set_nonblock (tfd t3) True s4)))"

definition wcat_tls_client_open ::
  "fd \<Rightarrow> cstr \<Rightarrow> bool \<Rightarrow> cstr \<Rightarrow> cstr \<Rightarrow> cstr \<Rightarrow> sys \<Rightarrow> int \<times> wcat_tls_stream \<times> sys" where
  "wcat_tls_client_open fd servername verify_peer ca client_cert client_key s =
     (let t = stream_init fd; (ok, s1) = ssl_call s
      in if \<not> ok then tls_fail ''tls_context'' ''TLS client context creation failed'' t s1
         else let ctx = new_ctx\<lparr>ctx_tls12 := True\<rparr>;
                  (v, s2) = client_verify verify_peer ca ctx s1
              in case v of
                   Inl message \<Rightarrow> tls_fail ''tls_ca'' message (t\<lparr>tctx := Some ctx\<rparr>) s2
                 | Inr ctx1 \<Rightarrow>
                     let t1 = t\<lparr>tctx := Some ctx1\<rparr>
                     in if client_cert \<noteq> None \<or> client_key \<noteq> None
                        then if client_cert = None \<or> client_key = None then tls_invalid t1 s2
                             else let (cok, s3) = ssl_calls3 s2
                                  in if \<not> cok
                                     then tls_fail ''tls_client_certificate''
                                            ''failed to load TLS client certificate or key'' t1 s3
                                     else client_handshake
                                            (t\<lparr>tctx := Some (ctx1\<lparr>ctx_cert := Some (the client_cert, the client_key)\<rparr>)\<rparr>)
                                            servername verify_peer s3
                        else client_handshake t1 servername verify_peer s2)"

definition server_handshake ::
  "wcat_tls_stream \<Rightarrow> bool \<Rightarrow> sys \<Rightarrow> int \<times> wcat_tls_stream \<times> sys" where
  "server_handshake t require_client_cert s =
     (let (ok, s1) = ssl_call s
      in if \<not> ok then tls_fail ''tls_session'' ''TLS server session creation failed'' t s1
         else let t1 = t\<lparr>tssl := Some new_ssl\<rparr>; (aok, s2) = ssl_call s1
              in if \<not> aok then tls_fail ''tls_handshake'' ''TLS server handshake failed'' t1 s2
                 else let t2 = t1\<lparr>tssl := Some (new_ssl\<lparr>ssl_open := True\<rparr>)\<rparr>;
                          (v, s3) = (if require_client_cert then ssl_verify s2 else (None, s2))
                      in if v \<noteq> None
                         then let (t', s') = wcat_tls_close t2
                                    (wcat_log WCAT_LOG_ERROR ''tls_verify''
                                       (''TLS client certificate verification failed: '' @ the v) s3)
                              in (- 1, t', s')
                         else (0, t2, snd (wcat_set_nonblock (tfd t2) True s3)))"

definition wcat_tls_server_open ::
  "fd \<Rightarrow> cstr \<Rightarrow> cstr \<Rightarrow> cstr \<Rightarrow> bool \<Rightarrow> sys \<Rightarrow> int \<times> wcat_tls_stream \<times> sys" where
  "wcat_tls_server_open fd cert key ca require_client_cert s =
     (let t = stream_init fd
      in if cert = None \<or> key = None then tls_invalid t s
         else let (ok, s1) = ssl_call s
              in if \<not> ok then tls_fail ''tls_context'' ''TLS server context creation failed'' t s1
                 else let ctx = new_ctx\<lparr>ctx_tls12 := True\<rparr>; (cok, s2) = ssl_calls3 s1
                      in if \<not> cok
                         then tls_fail ''tls_certificate'' ''failed to load TLS certificate or key''
                                (t\<lparr>tctx := Some ctx\<rparr>) s2
                         else let ctx1 = ctx\<lparr>ctx_cert := Some (the cert, the key)\<rparr>; t1 = t\<lparr>tctx := Some ctx1\<rparr>
                              in if require_client_cert
                                 then (case ca of
                                         None \<Rightarrow> tls_invalid t1 s2
                                       | Some f \<Rightarrow>
                                           let (lok, s3) = ssl_call s2
                                           in if \<not> lok
                                              then tls_fail ''tls_ca'' ''failed to load client certificate CA file'' t1 s3
                                              else server_handshake
                                                     (t\<lparr>tctx := Some (ctx1\<lparr>ctx_ca := Some (CaFile f),
                                                        ctx_verify := SSL_VERIFY_REQUIRED\<rparr>)\<rparr>)
                                                     require_client_cert s3)
                                 else server_handshake t1 require_client_cert s2)"

text \<open>\<open>None\<close> is a result of -1, as for \<open>read\<close>; no bytes is 0.\<close>

definition wcat_tls_read :: "wcat_tls_stream \<Rightarrow> nat \<Rightarrow> sys \<Rightarrow> bytes option \<times> sys" where
  "wcat_tls_read t len s =
     (let (a, s1) = ssl_read (tfd t) len (quic_handle_events t s)
      in case a of
           SslData d \<Rightarrow> (Some d, s1)
         | SslRdWant _ \<Rightarrow> (None, (quic_handle_events t s1)\<lparr>errno_of := EAGAIN\<rparr>)
         | SslClosed \<Rightarrow> (Some [], s1)
         | SslRdFatal \<Rightarrow> (Some [], s1))"

definition want_events :: "ssl_want \<Rightarrow> pflag set" where
  "want_events w = (case w of WANT_READ \<Rightarrow> {POLLIN} | WANT_WRITE \<Rightarrow> {POLLOUT})"

lemma ssl_handle_events_keeps [simp]: "ssl_wr_q (quic_handle_events t s) = ssl_wr_q s"
  by (simp add: quic_handle_events_def ssl_handle_events_def split: list.splits)

lemma poll_retry_ssl [simp]: "ssl_wr_q (snd (snd (poll_retry p s))) = ssl_wr_q s"
proof (induction p s rule: poll_retry.induct)
  case (1 p s)
  obtain rc rev s1 where pl: "sys_poll [p] s = (rc, rev, s1)" using prod_cases3 by blast
  then have "ssl_wr_q s1 = ssl_wr_q s"
    by (auto simp: sys_poll_def Let_def split: list.splits poll_ans.splits)
  with pl "1.IH" [OF pl [symmetric] refl refl] show ?case by (simp add: poll_retry.simps [of p s])
qed

function tls_write_loop :: "wcat_tls_stream \<Rightarrow> bytes \<Rightarrow> nat \<Rightarrow> sys \<Rightarrow> int \<times> sys" where
  "tls_write_loop t buf off s =
     (if off < length buf
      then case ssl_write (tfd t) (drop off buf) (quic_handle_events t s) of
             (SslWrote k, s1) \<Rightarrow> tls_write_loop t buf (off + (k + 1)) (quic_handle_events t s1)
           | (SslWrWant w, s1) \<Rightarrow>
               (let (prc, _, s2) = poll_retry (tfd t, want_events w) (quic_handle_events t s1)
                in if prc \<le> 0 then (- 1, s2) else tls_write_loop t buf off s2)
           | (SslWrFatal, s1) \<Rightarrow> (- 1, s1)
      else (int off, quic_handle_events t s))"
  by pat_completeness auto
termination
proof (relation "measure (\<lambda>(t, buf, off, s). length buf - off + length (ssl_wr_q s (tfd t)))", goal_cases)
  case 1
  show ?case by simp
next
  case (2 t buf off s x s1 k)
  then have "length (ssl_wr_q s1 (tfd t)) \<le> length (ssl_wr_q s (tfd t))"
    by (auto simp: ssl_write_def split: list.splits ssl_wr.splits)
  with 2 show ?case by simp
next
  case (3 t buf off s x s1 w y prc z rev s2)
  then have "length (ssl_wr_q s1 (tfd t)) < length (ssl_wr_q s (tfd t))"
    by (auto simp: ssl_write_def split: list.splits ssl_wr.splits)
  moreover have "ssl_wr_q s2 = ssl_wr_q s1"
  proof -
    have "(prc, rev, s2) = poll_retry (tfd t, want_events w) (quic_handle_events t s1)" using 3 by simp
    then have "s2 = snd (snd (poll_retry (tfd t, want_events w) (quic_handle_events t s1)))" by (metis snd_conv)
    then show ?thesis by simp
  qed
  ultimately show ?case by simp
qed

declare tls_write_loop.simps [simp del]

definition wcat_tls_write :: "wcat_tls_stream \<Rightarrow> bytes \<Rightarrow> sys \<Rightarrow> int \<times> sys" where
  "wcat_tls_write t buf s = tls_write_loop t buf 0 s"

definition wcat_tls_pending :: "wcat_tls_stream \<Rightarrow> sys \<Rightarrow> nat \<times> sys" where
  "wcat_tls_pending t s = ssl_pending (quic_handle_events t s)"

definition wcat_tls_tick :: "wcat_tls_stream \<Rightarrow> sys \<Rightarrow> int \<times> sys" where
  "wcat_tls_tick t s =
     (if quic_event_ssl t \<noteq> None
      then let (ok, s1) = ssl_handle_events s in (if ok then 0 else - 1, s1)
      else (0, s))"

text \<open>The loop that concludes the sending side of a QUIC stream.\<close>

lemma sys_poll_ssl_end: "sys_poll p s = (rc, evs, s') \<Longrightarrow> ssl_end_q s' = ssl_end_q s"
  by (auto simp: sys_poll_def Let_def split: list.splits poll_ans.splits)

lemma poll_retry_ssl_end [simp]: "ssl_end_q (snd (snd (poll_retry p s))) = ssl_end_q s"
proof (induction p s rule: poll_retry.induct)
  case (1 p s)
  obtain rc rev s1 where pl: "sys_poll [p] s = (rc, rev, s1)" using prod_cases3 by blast
  with sys_poll_ssl_end [OF pl] "1.IH" [OF pl [symmetric] refl refl] show ?case
    by (simp add: poll_retry.simps [of p s])
qed

lemma quic_events_ssl_end [simp]: "ssl_end_q (quic_handle_events t s) = ssl_end_q s"
  by (simp add: quic_handle_events_def ssl_handle_events_def split: list.splits)

lemma observe_stop_ssl_end: "observe_stop s = (b, s') \<Longrightarrow> ssl_end_q s' = ssl_end_q s"
  by (auto simp: observe_stop_def Let_def on_signal_def split: list.splits if_splits)

function quic_conclude :: "wcat_tls_stream \<Rightarrow> sys \<Rightarrow> int \<times> sys" where
  "quic_conclude t s =
     (let (stop, s0) = observe_stop s
      in if stop then (0, s0)
         else case ssl_finish (quic_handle_events t s0) of
                (SslEnded, s1) \<Rightarrow> (0, s1)
              | (SslEndFatal, s1) \<Rightarrow> (- 1, s1)
              | (SslEndWant w, s1) \<Rightarrow>
                  (let (prc, _, s2) = poll_retry (tfd t, want_events w) s1
                   in if prc < 0 then (- 1, s2) else quic_conclude t s2))"
  by pat_completeness auto
termination
proof (relation "measure (\<lambda>(t, s). length (ssl_end_q s))", goal_cases)
  case 1
  show ?case by simp
next
  case (2 t s x stop s0 y s1 w z prc u rev s2)
  have "ssl_end_q s0 = ssl_end_q s" using 2 observe_stop_ssl_end by metis
  moreover have "length (ssl_end_q s1) < length (ssl_end_q s0)"
    using 2 by (auto simp: ssl_finish_def split: list.splits)
  moreover have "ssl_end_q s2 = ssl_end_q s1"
  proof -
    have "(prc, rev, s2) = poll_retry (tfd t, want_events w) s1" using 2 by simp
    then have "s2 = snd (snd (poll_retry (tfd t, want_events w) s1))" by (metis snd_conv)
    then show ?thesis by simp
  qed
  ultimately show ?case by simp
qed

declare quic_conclude.simps [simp del]

definition wcat_tls_shutdown_write :: "wcat_tls_stream \<Rightarrow> sys \<Rightarrow> int \<times> sys" where
  "wcat_tls_shutdown_write t s =
     (if tssl t = None then (0, s)
      else if quic_stream t then quic_conclude t s
      else case ssl_finish s of
             (SslEnded, s1) \<Rightarrow> (0, s1)
           | (SslEndWant w, s1) \<Rightarrow> (0, s1)
           | (SslEndFatal, s1) \<Rightarrow> (- 1, s1))"

section \<open>A successful handshake was configured as requested\<close>

text \<open>What a server (client) certificate has been checked against.\<close>

definition client_secure :: "cstr \<Rightarrow> cstr \<Rightarrow> wcat_tls_stream \<Rightarrow> bool" where
  "client_secure servername ca t \<longleftrightarrow>
     (\<exists>ctx x. tctx t = Some ctx \<and> tssl t = Some x \<and> ctx_verify ctx = SSL_VERIFY_PEER
        \<and> ctx_ca ctx = Some (case ca of Some f \<Rightarrow> CaFile f | None \<Rightarrow> CaDefault)
        \<and> ssl_host x = servername \<and> ctx_tls12 ctx \<and> ssl_open x)"

definition server_secure :: "string \<Rightarrow> wcat_tls_stream \<Rightarrow> bool" where
  "server_secure ca t \<longleftrightarrow>
     (\<exists>ctx x. tctx t = Some ctx \<and> tssl t = Some x \<and> ctx_verify ctx = SSL_VERIFY_REQUIRED
        \<and> ctx_ca ctx = Some (CaFile ca) \<and> ctx_tls12 ctx \<and> ssl_open x)"

lemma tls_fail_result [simp]:
  "tls_fail ev m t s \<noteq> (0, t', s')" "tls_invalid t s \<noteq> (0, t', s')"
  by (simp_all add: tls_fail_def tls_invalid_def case_prod_unfold Let_def)

lemma client_handshake_secure:
  assumes "client_handshake t servername True s = (0, t', s')" and "tctx t = Some ctx"
    and "ctx_verify ctx = SSL_VERIFY_PEER" and "ctx_tls12 ctx"
    and "ctx_ca ctx = Some (case ca of Some f \<Rightarrow> CaFile f | None \<Rightarrow> CaDefault)"
  shows "client_secure servername ca t' \<and> None \<in> set (ssl_verify_q s)"
proof -
  obtain ok s1 where c1: "ssl_call s = (ok, s1)" by force
  obtain hok s2 where c2: "(if servername \<noteq> None \<and> True then ssl_call s1 else (True, s1)) = (hok, s2)" by force
  obtain cok s3 where c3: "ssl_call s2 = (cok, s3)" by force
  obtain v s4 where c4: "ssl_verify s3 = (v, s4)" by force
  have q: "ssl_verify_q s3 = ssl_verify_q s"
    using c1 c2 c3 by (auto simp: ssl_call_def split: list.splits if_splits)
  have "ok \<and> hok \<and> cok \<and> v = None"
    using assms(1) c1 c2 c3 c4
    by (auto simp: client_handshake_def tls_fail_def case_prod_unfold Let_def split: if_splits)
  moreover from this have "None \<in> set (ssl_verify_q s)"
    using c4 q by (auto simp: ssl_verify_def split: list.splits)
  ultimately show ?thesis
    using assms c1 c2 c3 c4 by (auto simp: client_handshake_def client_secure_def Let_def)
qed

lemma wcat_tls_client_open_secure:
  assumes "wcat_tls_client_open fd servername True ca cert key s = (0, t, s')"
  shows "client_secure servername ca t \<and> None \<in> set (ssl_verify_q s)"
proof -
  obtain ok s1 where c1: "ssl_call s = (ok, s1)" by force
  obtain v s2 where c2: "client_verify True ca (new_ctx\<lparr>ctx_tls12 := True\<rparr>) s1 = (v, s2)" by force
  obtain cok s3 where c3: "ssl_calls3 s2 = (cok, s3)" by force
  note q1 = c1 [unfolded ssl_call_def] and q2 = c2 [unfolded client_verify_def ssl_call_def]
  have vq: "ssl_verify_q s1 = ssl_verify_q s" "ssl_verify_q s2 = ssl_verify_q s1"
      "ssl_verify_q s3 = ssl_verify_q s2"
    using c1 c2 c3
    by (auto simp: ssl_call_def client_verify_def ssl_calls3_def Let_def split: list.splits if_splits option.splits prod.splits)
  have ok: "ok" using assms c1 by (cases ok) (simp_all add: wcat_tls_client_open_def)
  obtain ctx where v: "v = Inr ctx"
    using assms c1 c2 ok by (cases v) (auto simp: wcat_tls_client_open_def Let_def)
  have ctx: "ctx_verify ctx = SSL_VERIFY_PEER" "ctx_tls12 ctx"
      "ctx_ca ctx = Some (case ca of Some f \<Rightarrow> CaFile f | None \<Rightarrow> CaDefault)"
    using c2 v by (auto simp: client_verify_def Let_def split: option.splits if_splits prod.splits)
  define t0 where "t0 = (stream_init fd)\<lparr>tctx := Some ctx\<rparr>"
  define t1 where "t1 = (stream_init fd)\<lparr>tctx := Some (ctx\<lparr>ctx_cert := Some (the cert, the key)\<rparr>)\<rparr>"
  have run: "wcat_tls_client_open fd servername True ca cert key s =
     (if cert \<noteq> None \<or> key \<noteq> None
      then if cert = None \<or> key = None then tls_invalid t0 s2
           else if \<not> cok then tls_fail ''tls_client_certificate'' ''failed to load TLS client certificate or key'' t0 s3
           else client_handshake t1 servername True s3
      else client_handshake t0 servername True s2)"
    using c1 c2 c3 ok v by (simp add: wcat_tls_client_open_def t0_def t1_def Let_def)
  from assms [unfolded run] consider "client_handshake t1 servername True s3 = (0, t, s')"
    | "client_handshake t0 servername True s2 = (0, t, s')"
    by (auto split: if_splits)
  then show ?thesis
  proof cases
    case 1
    have "client_secure servername ca t \<and> None \<in> set (ssl_verify_q s3)"
      by (rule client_handshake_secure [OF 1, of "ctx\<lparr>ctx_cert := Some (the cert, the key)\<rparr>"])
        (simp_all add: t1_def ctx)
    with vq show ?thesis by simp
  next
    case 2
    have "client_secure servername ca t \<and> None \<in> set (ssl_verify_q s2)"
      by (rule client_handshake_secure [OF 2, of ctx]) (simp_all add: t0_def ctx)
    with vq show ?thesis by simp
  qed
qed

lemma server_handshake_secure:
  assumes "server_handshake t True s = (0, t', s')" and "tctx t = Some ctx"
    and "ctx_verify ctx = SSL_VERIFY_REQUIRED" and "ctx_tls12 ctx" and "ctx_ca ctx = Some (CaFile ca)"
  shows "server_secure ca t' \<and> None \<in> set (ssl_verify_q s)"
proof -
  obtain ok s1 where c1: "ssl_call s = (ok, s1)" by force
  obtain aok s2 where c2: "ssl_call s1 = (aok, s2)" by force
  obtain v s3 where c3: "ssl_verify s2 = (v, s3)" by force
  have q: "ssl_verify_q s2 = ssl_verify_q s"
    using c1 c2 by (auto simp: ssl_call_def split: list.splits)
  have "ok \<and> aok \<and> v = None"
    using assms(1) c1 c2 c3
    by (auto simp: server_handshake_def tls_fail_def case_prod_unfold Let_def split: if_splits)
  moreover from this have "None \<in> set (ssl_verify_q s)"
    using c3 q by (auto simp: ssl_verify_def split: list.splits)
  ultimately show ?thesis
    using assms c1 c2 c3 by (auto simp: server_handshake_def server_secure_def Let_def)
qed

lemma wcat_tls_server_open_secure:
  assumes "wcat_tls_server_open fd cert key (Some ca) True s = (0, t, s')"
  shows "server_secure ca t \<and> None \<in> set (ssl_verify_q s)"
proof -
  have ck: "cert \<noteq> None" "key \<noteq> None" using assms by (cases "cert = None \<or> key = None"; simp add: wcat_tls_server_open_def)+
  obtain ok s1 where c1: "ssl_call s = (ok, s1)" by force
  obtain cok s2 where c2: "ssl_calls3 s1 = (cok, s2)" by force
  obtain lok s3 where c3: "ssl_call s2 = (lok, s3)" by force
  have vq: "ssl_verify_q s3 = ssl_verify_q s"
    using c1 c2 c3 by (auto simp: ssl_call_def ssl_calls3_def Let_def split: list.splits if_splits prod.splits)
  have ok: "ok" "cok" "lok"
    using assms ck c1 c2 c3 by (auto simp: wcat_tls_server_open_def Let_def split: if_splits)
  define ctx where "ctx = new_ctx\<lparr>ctx_tls12 := True, ctx_cert := Some (the cert, the key),
    ctx_ca := Some (CaFile ca), ctx_verify := SSL_VERIFY_REQUIRED\<rparr>"
  have "server_handshake ((stream_init fd)\<lparr>tctx := Some ctx\<rparr>) True s3 = (0, t, s')"
    using assms ck c1 c2 c3 ok by (simp add: wcat_tls_server_open_def ctx_def Let_def)
  from server_handshake_secure [OF this, of ctx ca] vq show ?thesis by (simp add: ctx_def)
qed

section \<open>A stream that could not be opened is closed\<close>

text \<open>Whatever goes wrong, the descriptor handed over is closed exactly once and nothing else is.\<close>

lemma wcat_tls_close_effect:
  "wcat_tls_close t s = (t', s') \<Longrightarrow>
     t' = tls_zero \<and> open_fds s' = (if owns_fd t \<and> 0 \<le> tfd t then removeAll (tfd t) (open_fds s) else open_fds s)
     \<and> sent s' = sent s \<and> got s' = got s"
  by (auto simp: wcat_tls_close_def ssl_finish_def Let_def split: list.splits if_splits)

lemma log_openssl_error_open [simp]: "open_fds (log_openssl_error ev m s) = open_fds s"
  by (auto simp: log_openssl_error_def ssl_error_text_def wcat_log_def Let_def split: list.splits option.splits)

definition open_result :: "fd \<Rightarrow> sys \<Rightarrow> int \<times> wcat_tls_stream \<times> sys \<Rightarrow> bool" where
  "open_result fd s r \<longleftrightarrow>
     (case r of (rc, t, s') \<Rightarrow>
        rc = 0 \<and> open_fds s' = open_fds s \<and> tfd t = fd \<and> owns_fd t \<and> tssl t \<noteq> None \<and> \<not> quic_stream t
          \<and> (fd \<in> set (open_fds s) \<longrightarrow> fd \<in> set (nonblocking s'))
        \<or> rc = - 1 \<and> t = tls_zero \<and> open_fds s' = removeAll fd (open_fds s))"

lemma ssl_calls_open [simp]:
  "open_fds (snd (ssl_call s)) = open_fds s" "open_fds (snd (ssl_calls3 s)) = open_fds s"
  "open_fds (snd (ssl_verify s)) = open_fds s" "open_fds (snd (client_verify b ca ctx s)) = open_fds s"
  by (auto simp: ssl_call_def ssl_calls3_def ssl_verify_def client_verify_def Let_def
      split: list.splits option.splits prod.splits)

lemma tls_fail_closes:
  assumes "tfd t = fd" and "owns_fd t" and "0 \<le> fd" and "open_fds s1 = open_fds s"
  shows "open_result fd s (tls_fail ev m t s1)" and "open_result fd s (tls_invalid t s1)"
    and "open_result fd s (let (t', s') = wcat_tls_close t (wcat_log lv ev m s1) in (- 1, t', s'))"
proof -
  have l: "open_fds (wcat_log lv ev m s1) = open_fds s1" by (simp add: wcat_log_def Let_def)
  obtain t1 r1 where 1: "wcat_tls_close t (log_openssl_error ev m s1) = (t1, r1)" by force
  obtain t2 r2 where 2: "wcat_tls_close t (s1\<lparr>errno_of := EINVAL\<rparr>) = (t2, r2)" by force
  obtain t3 r3 where 3: "wcat_tls_close t (wcat_log lv ev m s1) = (t3, r3)" by force
  show "open_result fd s (tls_fail ev m t s1)" "open_result fd s (tls_invalid t s1)"
    "open_result fd s (let (t', s') = wcat_tls_close t (wcat_log lv ev m s1) in (- 1, t', s'))"
    using wcat_tls_close_effect [OF 1] wcat_tls_close_effect [OF 2] wcat_tls_close_effect [OF 3] 1 2 3 l assms
    by (simp_all add: tls_fail_def tls_invalid_def open_result_def)
qed

lemma client_handshake_result:
  assumes "tfd t = fd" and "owns_fd t" and "0 \<le> fd" and "open_fds s1 = open_fds s" and "\<not> quic_stream t"
  shows "open_result fd s (client_handshake t sn vp s1)"
proof -
  obtain a r1 where 1: "ssl_call s1 = (a, r1)" by force
  obtain b r2 where 2: "(if sn \<noteq> None \<and> vp then ssl_call r1 else (True, r1)) = (b, r2)" by force
  obtain c r3 where 3: "ssl_call r2 = (c, r3)" by force
  obtain d r4 where 4: "(if vp then ssl_verify r3 else (None, r3)) = (d, r4)" by force
  have o1: "open_fds r1 = open_fds s" using 1 ssl_calls_open(1) [of s1] assms(4) by simp
  have o2: "open_fds r2 = open_fds s" using 2 ssl_calls_open(1) [of r1] o1 by (cases "sn \<noteq> None \<and> vp") auto
  have o3: "open_fds r3 = open_fds s" using 3 ssl_calls_open(1) [of r2] o2 by simp
  have o4: "open_fds r4 = open_fds s" using 4 ssl_calls_open(3) [of r3] o3 by (cases vp) auto
  define t1 where "t1 = t\<lparr>tssl := Some (new_ssl\<lparr>ssl_sni := sn\<rparr>)\<rparr>"
  define t2 where "t2 = t\<lparr>tssl := Some (new_ssl\<lparr>ssl_sni := sn, ssl_host := (if vp then sn else None)\<rparr>)\<rparr>"
  define t3 where "t3 = t2\<lparr>tssl := map_option (\<lambda>x. x\<lparr>ssl_open := True\<rparr>) (tssl t2)\<rparr>"
  have ts: "tfd t1 = fd" "owns_fd t1" "tfd t2 = fd" "owns_fd t2" "tfd t3 = fd" "owns_fd t3"
      "tssl t3 \<noteq> None" "\<not> quic_stream t3"
    using assms by (simp_all add: t1_def t2_def t3_def)
  have run: "client_handshake t sn vp s1 =
      (if \<not> a then tls_fail ''tls_session'' ''TLS client session creation failed'' t r1
       else if \<not> b then tls_fail ''tls_verify'' ''failed to configure hostname verification'' t1 r2
       else if \<not> c then tls_fail ''tls_handshake'' ''TLS client handshake failed'' t2 r3
       else if d \<noteq> None then (let (t', s') = wcat_tls_close t3 (wcat_log WCAT_LOG_ERROR ''tls_verify''
              (''TLS certificate verification failed: '' @ the d) r4) in (- 1, t', s'))
       else (0, t3, snd (wcat_set_nonblock (tfd t3) True r4)))"
    unfolding client_handshake_def 1 prod.case Let_def t1_def [symmetric] 2 t2_def [symmetric] 3
      t3_def [symmetric] 4 by (rule refl)
  have last: "open_result fd s (0, t3, snd (wcat_set_nonblock (tfd t3) True r4))"
    using ts o4 by (simp add: open_result_def wcat_set_nonblock_def)
  show ?thesis
    unfolding run
    using tls_fail_closes(1) [OF assms(1-3) o1] tls_fail_closes(1) [OF ts(1,2) assms(3) o2]
      tls_fail_closes(1) [OF ts(3,4) assms(3) o3] tls_fail_closes(3) [OF ts(5,6) assms(3) o4] last
    by (simp only: split: if_split) simp
qed

lemma wcat_tls_client_open_result:
  assumes "0 \<le> fd"
  shows "open_result fd s (wcat_tls_client_open fd sn vp ca cert key s)"
proof -
  define t where "t = stream_init fd"
  define ctx where "ctx = new_ctx\<lparr>ctx_tls12 := True\<rparr>"
  obtain a s1 where 1: "ssl_call s = (a, s1)" by force
  obtain v s2 where 2: "client_verify vp ca ctx s1 = (v, s2)" by force
  obtain c s3 where 3: "ssl_calls3 s2 = (c, s3)" by force
  have o1: "open_fds s1 = open_fds s" using 1 ssl_calls_open(1) [of s] by simp
  have o2: "open_fds s2 = open_fds s" using 2 ssl_calls_open(4) [of vp ca ctx s1] o1 by simp
  have o3: "open_fds s3 = open_fds s" using 3 ssl_calls_open(2) [of s2] o2 by simp
  have ts: "tfd (t\<lparr>tctx := x\<rparr>) = fd" "owns_fd (t\<lparr>tctx := x\<rparr>)" "\<not> quic_stream (t\<lparr>tctx := x\<rparr>)" for x
    by (simp_all add: t_def stream_init_def tls_zero_def)
  have tt: "tfd t = fd" "owns_fd t" by (simp_all add: t_def stream_init_def)
  have run: "wcat_tls_client_open fd sn vp ca cert key s =
     (if \<not> a then tls_fail ''tls_context'' ''TLS client context creation failed'' t s1
      else case v of
             Inl message \<Rightarrow> tls_fail ''tls_ca'' message (t\<lparr>tctx := Some ctx\<rparr>) s2
           | Inr ctx1 \<Rightarrow>
               if cert \<noteq> None \<or> key \<noteq> None
               then if cert = None \<or> key = None then tls_invalid (t\<lparr>tctx := Some ctx1\<rparr>) s2
                    else if \<not> c then tls_fail ''tls_client_certificate''
                           ''failed to load TLS client certificate or key'' (t\<lparr>tctx := Some ctx1\<rparr>) s3
                    else client_handshake (t\<lparr>tctx := Some (ctx1\<lparr>ctx_cert := Some (the cert, the key)\<rparr>)\<rparr>) sn vp s3
               else client_handshake (t\<lparr>tctx := Some ctx1\<rparr>) sn vp s2)"
    unfolding wcat_tls_client_open_def t_def [symmetric] Let_def 1 prod.case ctx_def [symmetric] 2 3
    by (rule refl)
  note facts = tls_fail_closes(1) [OF tt assms o1] tls_fail_closes(1) [OF ts(1,2) assms o2]
    tls_fail_closes(1) [OF ts(1,2) assms o3] tls_fail_closes(2) [OF ts(1,2) assms o2]
    client_handshake_result [OF ts(1,2) assms o2 ts(3)] client_handshake_result [OF ts(1,2) assms o3 ts(3)]
  show ?thesis unfolding run using facts by (cases v) simp_all
qed

lemma server_handshake_result:
  assumes "tfd t = fd" and "owns_fd t" and "0 \<le> fd" and "open_fds s1 = open_fds s" and "\<not> quic_stream t"
  shows "open_result fd s (server_handshake t rq s1)"
proof -
  obtain a r1 where 1: "ssl_call s1 = (a, r1)" by force
  obtain c r3 where 3: "ssl_call r1 = (c, r3)" by force
  obtain d r4 where 4: "(if rq then ssl_verify r3 else (None, r3)) = (d, r4)" by force
  have o1: "open_fds r1 = open_fds s" using 1 ssl_calls_open(1) [of s1] assms(4) by simp
  have o3: "open_fds r3 = open_fds s" using 3 ssl_calls_open(1) [of r1] o1 by simp
  have o4: "open_fds r4 = open_fds s" using 4 ssl_calls_open(3) [of r3] o3 by (cases rq) auto
  define t1 where "t1 = t\<lparr>tssl := Some new_ssl\<rparr>"
  define t2 where "t2 = t1\<lparr>tssl := Some (new_ssl\<lparr>ssl_open := True\<rparr>)\<rparr>"
  have ts: "tfd t1 = fd" "owns_fd t1" "tfd t2 = fd" "owns_fd t2" "tssl t2 \<noteq> None" "\<not> quic_stream t2"
    using assms by (simp_all add: t1_def t2_def)
  have run: "server_handshake t rq s1 =
      (if \<not> a then tls_fail ''tls_session'' ''TLS server session creation failed'' t r1
       else if \<not> c then tls_fail ''tls_handshake'' ''TLS server handshake failed'' t1 r3
       else if d \<noteq> None then (let (t', s') = wcat_tls_close t2 (wcat_log WCAT_LOG_ERROR ''tls_verify''
              (''TLS client certificate verification failed: '' @ the d) r4) in (- 1, t', s'))
       else (0, t2, snd (wcat_set_nonblock (tfd t2) True r4)))"
    unfolding server_handshake_def 1 prod.case Let_def t1_def [symmetric] 3 t2_def [symmetric] 4 by (rule refl)
  have last: "open_result fd s (0, t2, snd (wcat_set_nonblock (tfd t2) True r4))"
    using ts o4 by (simp add: open_result_def wcat_set_nonblock_def)
  show ?thesis
    unfolding run
    using tls_fail_closes(1) [OF assms(1-3) o1] tls_fail_closes(1) [OF ts(1,2) assms(3) o3]
      tls_fail_closes(3) [OF ts(3,4) assms(3) o4] last
    by (simp only: split: if_split) simp
qed

lemma wcat_tls_server_open_result:
  assumes "0 \<le> fd"
  shows "open_result fd s (wcat_tls_server_open fd cert key ca rq s)"
proof -
  define t where "t = stream_init fd"
  define ctx where "ctx = new_ctx\<lparr>ctx_tls12 := True\<rparr>"
  define ctx1 where "ctx1 = ctx\<lparr>ctx_cert := Some (the cert, the key)\<rparr>"
  obtain a s1 where 1: "ssl_call s = (a, s1)" by force
  obtain c s2 where 2: "ssl_calls3 s1 = (c, s2)" by force
  obtain l s3 where 3: "ssl_call s2 = (l, s3)" by force
  have o1: "open_fds s1 = open_fds s" using 1 ssl_calls_open(1) [of s] by simp
  have o2: "open_fds s2 = open_fds s" using 2 ssl_calls_open(2) [of s1] o1 by simp
  have o3: "open_fds s3 = open_fds s" using 3 ssl_calls_open(1) [of s2] o2 by simp
  have ts: "tfd (t\<lparr>tctx := x\<rparr>) = fd" "owns_fd (t\<lparr>tctx := x\<rparr>)" "\<not> quic_stream (t\<lparr>tctx := x\<rparr>)" for x
    by (simp_all add: t_def stream_init_def tls_zero_def)
  have tt: "tfd t = fd" "owns_fd t" by (simp_all add: t_def stream_init_def)
  have run: "wcat_tls_server_open fd cert key ca rq s =
     (if cert = None \<or> key = None then tls_invalid t s
      else if \<not> a then tls_fail ''tls_context'' ''TLS server context creation failed'' t s1
      else if \<not> c then tls_fail ''tls_certificate'' ''failed to load TLS certificate or key''
                          (t\<lparr>tctx := Some ctx\<rparr>) s2
      else if rq
      then (case ca of
              None \<Rightarrow> tls_invalid (t\<lparr>tctx := Some ctx1\<rparr>) s2
            | Some f \<Rightarrow>
                if \<not> l then tls_fail ''tls_ca'' ''failed to load client certificate CA file'' (t\<lparr>tctx := Some ctx1\<rparr>) s3
                else server_handshake (t\<lparr>tctx := Some (ctx1\<lparr>ctx_ca := Some (CaFile f),
                       ctx_verify := SSL_VERIFY_REQUIRED\<rparr>)\<rparr>) rq s3)
      else server_handshake (t\<lparr>tctx := Some ctx1\<rparr>) rq s2)"
    unfolding wcat_tls_server_open_def t_def [symmetric] Let_def 1 prod.case ctx_def [symmetric] 2
      ctx1_def [symmetric] 3
    by (rule refl)
  note facts = tls_fail_closes(2) [OF tt assms refl] tls_fail_closes(1) [OF tt assms o1]
    tls_fail_closes(1) [OF ts(1,2) assms o2] tls_fail_closes(1) [OF ts(1,2) assms o3]
    tls_fail_closes(2) [OF ts(1,2) assms o2]
    server_handshake_result [OF ts(1,2) assms o2 ts(3)] server_handshake_result [OF ts(1,2) assms o3 ts(3)]
  show ?thesis unfolding run using facts by (cases ca) simp_all
qed

section \<open>Reading and writing\<close>

text \<open>What input and output leave alone, and that they concern one descriptor.\<close>

definition io_frame :: "sys \<Rightarrow> sys \<Rightarrow> bool" where
  "io_frame s s' \<longleftrightarrow> open_fds s' = open_fds s \<and> peer_of s' = peer_of s \<and> stderr_out s' = stderr_out s"

lemma quic_events_frame: "io_frame s (quic_handle_events t s)" "sent (quic_handle_events t s) = sent s"
  "got (quic_handle_events t s) = got s"
  by (auto simp: io_frame_def quic_handle_events_def ssl_handle_events_def split: list.splits)

lemma wcat_tls_read_effect:
  assumes "wcat_tls_read t len s = (r, s')"
  shows "io_frame s s'" and "sent s' = sent s"
    and "got s' = (got s)(tfd t := got s (tfd t) @ (case r of None \<Rightarrow> [] | Some d \<Rightarrow> d))"
    and "r = None \<Longrightarrow> errno_of s' = EAGAIN" and "r = Some d \<Longrightarrow> length d \<le> len"
proof -
  obtain a s1 where a: "ssl_read (tfd t) len (quic_handle_events t s) = (a, s1)" by force
  have 1: "io_frame s s1" "sent s1 = sent s"
    "got s1 = (got s)(tfd t := got s (tfd t) @ (case a of SslData d \<Rightarrow> d | _ \<Rightarrow> []))"
    "a = SslData d' \<Longrightarrow> length d' \<le> len" for d'
    using a quic_events_frame [where s = s and t = t]
    by (auto simp: ssl_read_def io_frame_def split: list.splits ssl_rd.splits if_splits)
  show "io_frame s s'" "sent s' = sent s"
    "got s' = (got s)(tfd t := got s (tfd t) @ (case r of None \<Rightarrow> [] | Some d \<Rightarrow> d))"
    "r = None \<Longrightarrow> errno_of s' = EAGAIN" "r = Some d \<Longrightarrow> length d \<le> len"
    using assms a 1 quic_events_frame [where s = s1 and t = t]
    by (auto simp: wcat_tls_read_def io_frame_def split: ssl_rd.splits)
qed

lemma poll_retry_frame:
  "io_frame s (snd (snd (poll_retry p s)))" "sent (snd (snd (poll_retry p s))) = sent s"
  "got (snd (snd (poll_retry p s))) = got s"
proof (atomize (full), induction p s rule: poll_retry.induct)
  case (1 p s)
  obtain rc evs s1 where pl: "sys_poll [p] s = (rc, evs, s1)" using prod_cases3 by blast
  then have "io_frame s s1 \<and> sent s1 = sent s \<and> got s1 = got s"
    by (auto simp: io_frame_def sys_poll_def Let_def split: list.splits poll_ans.splits)
  with pl "1.IH" [OF pl [symmetric] refl refl] show ?case
    by (auto simp: poll_retry.simps [of p s] io_frame_def)
qed

lemma ssl_write_effect:
  assumes "ssl_write fd buf s = (a, s1)" and "buf \<noteq> []"
  shows "io_frame s s1" and "got s1 = got s"
    and "sent s1 = (sent s)(fd := sent s fd @ (case a of SslWrote k \<Rightarrow> take (k + 1) buf | _ \<Rightarrow> []))"
    and "a = SslWrote k \<Longrightarrow> k + 1 \<le> length buf"
  using assms
  by (cases buf; auto simp: ssl_write_def io_frame_def min_def split: list.splits ssl_wr.splits if_splits)+

lemma tls_write_loop_effect:
  assumes "tls_write_loop t buf off s = (n, s')" and "off \<le> length buf"
  shows "\<exists>k \<le> length buf - off. sent s' = (sent s)(tfd t := sent s (tfd t) @ take k (drop off buf))
     \<and> io_frame s s' \<and> got s' = got s \<and> (n = int (length buf) \<and> k = length buf - off \<or> n = - 1)"
  using assms
proof (induction t buf off s rule: tls_write_loop.induct)
  case (1 t buf off s)
  let ?q = "quic_handle_events t s"
  note q = quic_events_frame [where s = s and t = t]
  show ?case
  proof (cases "off < length buf")
    case False
    with "1.prems" q show ?thesis
      by (intro exI [of _ 0]) (simp add: tls_write_loop.simps [of t buf off s])
  next
    case True
    obtain a s1 where w: "ssl_write (tfd t) (drop off buf) ?q = (a, s1)" by force
    have ne: "drop off buf \<noteq> []" using True by simp
    note we = ssl_write_effect [OF w ne]
    note run = "1.prems"(1) [unfolded tls_write_loop.simps [of t buf off s] if_P [OF True] w prod.case]
    show ?thesis
    proof (cases a)
      case (SslWrote k)
      with run have rec: "tls_write_loop t buf (off + (k + 1)) (quic_handle_events t s1) = (n, s')" by simp
      have le: "off + (k + 1) \<le> length buf" using we(4) [OF SslWrote] True by simp
      let ?q1 = "quic_handle_events t s1"
      from "1.IH"(1) [OF True w [symmetric] SslWrote rec le] obtain j where
        j: "j \<le> length buf - (off + (k + 1))"
          "sent s' = (sent ?q1)(tfd t := sent ?q1 (tfd t) @ take j (drop (off + (k + 1)) buf))"
          "io_frame ?q1 s'" "got s' = got ?q1" "n = int (length buf) \<and> j = length buf - (off + (k + 1)) \<or> n = - 1"
        by blast
      note q1 = quic_events_frame [where s = s1 and t = t]
      have "take (k + 1) (drop off buf) @ take j (drop (off + (k + 1)) buf) = take (k + 1 + j) (drop off buf)"
        by (simp only: take_add drop_drop add.commute [of off])
      then have "sent s' = (sent s)(tfd t := sent s (tfd t) @ take (k + 1 + j) (drop off buf))"
        using j(2) q1(2) we(3) SslWrote q(2) by simp
      moreover have "io_frame s s'" "got s' = got s"
        using j(3,4) q1(1,3) we(1,2) q(1,3) by (simp_all add: io_frame_def)
      ultimately show ?thesis
        using j(1,5) le by (intro exI [of _ "k + 1 + j"]) auto
    next
      case (SslWrWant wt)
      obtain prc evs s2 where p: "poll_retry (tfd t, want_events wt) (quic_handle_events t s1) = (prc, evs, s2)"
        using prod_cases3 by blast
      have s2: "sent s2 = sent s" "io_frame s s2" "got s2 = got s"
        using poll_retry_frame [where s = "quic_handle_events t s1" and p = "(tfd t, want_events wt)"] p we SslWrWant q
          quic_events_frame [where s = s1 and t = t] by (auto simp: io_frame_def)
      show ?thesis
      proof (cases "prc \<le> 0")
        case True
        with run SslWrWant p s2 show ?thesis by (intro exI [of _ 0]) simp
      next
        case False
        with run SslWrWant p have rec: "tls_write_loop t buf off s2 = (n, s')" by simp
        from "1.IH"(2) [OF True w [symmetric] SslWrWant p [symmetric] refl refl False rec "1.prems"(2)] s2
        show ?thesis by (simp add: io_frame_def)
      qed
    next
      case SslWrFatal
      with run we q show ?thesis by (intro exI [of _ 0]) (simp add: io_frame_def)
    qed
  qed
qed

lemma wcat_tls_write_effect:
  assumes "wcat_tls_write t buf s = (n, s')"
  shows "\<exists>k \<le> length buf. sent s' = (sent s)(tfd t := sent s (tfd t) @ take k buf)
     \<and> io_frame s s' \<and> got s' = got s \<and> (n = int (length buf) \<and> k = length buf \<or> n = - 1)"
  using tls_write_loop_effect [of t buf 0 s n s'] assms by (simp add: wcat_tls_write_def)

end
