(* ===== verification/Wcat_Relay.thy ===== *)
theory Wcat_Relay
  imports Wcat_Tls
begin

text \<open>
  src/relay.c: byte streams over descriptors and TLS connections, the bidirectional relay loop and
  the one-way copy. The function pointers of \<open>wcat_stream\<close> are set by its three constructors
  only, so a stream is either over descriptors or over a TLS connection, and a call through a
  pointer is a case distinction. Every pass of the relay loop uses an answer of \<open>poll\<close> or of
  \<open>SSL_pending\<close>, which makes the loop terminate on every finite script.

  The lemmas show that what leaves one side is exactly what arrived at the other, in order, and
  how the loop treats end of file, errors, timeouts and conditions it does not ask for.
\<close>

section \<open>Streams\<close>

definition WCAT_BUFSIZE :: nat where "WCAT_BUFSIZE = 16384"

record wcat_stream =
  st_tls :: "wcat_tls_stream option"
  raw_fd :: fd
  write_fd :: fd
  can_close_write :: bool
  close_on_eof :: bool
  st_name :: string

record wcat_relay_options =
  opt_timeout :: int
  opt_hex :: bool

definition wcat_stream_from_fd :: "fd \<Rightarrow> string \<Rightarrow> wcat_stream" where
  "wcat_stream_from_fd fd nm =
     \<lparr>st_tls = None, raw_fd = fd, write_fd = fd, can_close_write = True, close_on_eof = True, st_name = nm\<rparr>"

definition wcat_stream_from_fd_pair :: "fd \<Rightarrow> fd \<Rightarrow> string \<Rightarrow> wcat_stream" where
  "wcat_stream_from_fd_pair rfd wfd nm =
     \<lparr>st_tls = None, raw_fd = rfd, write_fd = wfd, can_close_write = (wfd \<noteq> 1), close_on_eof = (rfd \<noteq> 0),
      st_name = nm\<rparr>"

definition wcat_stream_from_tls :: "wcat_tls_stream \<Rightarrow> string \<Rightarrow> wcat_stream" where
  "wcat_stream_from_tls t nm =
     \<lparr>st_tls = Some t, raw_fd = 0, write_fd = 0, can_close_write = False, close_on_eof = True, st_name = nm\<rparr>"

text \<open>
  The read loop \<open>do n = src->read (...); while (n < 0 && errno == EINTR);\<close> of \<open>pump_once\<close>. For a
  TLS stream it runs once, because \<open>wcat_tls_read\<close> gives -1 only with \<open>EAGAIN\<close>.
\<close>

definition stream_read :: "wcat_stream \<Rightarrow> nat \<Rightarrow> sys \<Rightarrow> bytes option \<times> sys" where
  "stream_read st len s =
     (case st_tls st of None \<Rightarrow> read_retry (raw_fd st) len s | Some t \<Rightarrow> wcat_tls_read t len s)"

definition stream_write :: "wcat_stream \<Rightarrow> bytes \<Rightarrow> sys \<Rightarrow> int \<times> sys" where
  "stream_write st buf s =
     (case st_tls st of None \<Rightarrow> wcat_full_write (write_fd st) buf s | Some t \<Rightarrow> wcat_tls_write t buf s)"

definition stream_fd :: "wcat_stream \<Rightarrow> fd" where
  "stream_fd st = (case st_tls st of None \<Rightarrow> raw_fd st | Some t \<Rightarrow> tfd t)"

definition fd_shutdown_write :: "wcat_stream \<Rightarrow> sys \<Rightarrow> int \<times> wcat_stream \<times> sys" where
  "fd_shutdown_write st s =
     (if \<not> can_close_write st \<or> write_fd st < 0 then (0, st, s)
      else if write_fd st = raw_fd st
      then let (rc, s1) = sys_shutdown_wr (write_fd st) s
           in (if rc = 0 \<or> errno_of s1 = ENOTSOCK then 0 else - 1, st, s1)
      else (0, st\<lparr>write_fd := - 1\<rparr>, close_quiet (write_fd st) s))"

definition stream_shutdown_write :: "wcat_stream \<Rightarrow> sys \<Rightarrow> wcat_stream \<times> sys" where
  "stream_shutdown_write st s =
     (case st_tls st of
        None \<Rightarrow> (let (_, st', s') = fd_shutdown_write st s in (st', s'))
      | Some t \<Rightarrow> (st, snd (wcat_tls_shutdown_write t s)))"

definition stream_tick :: "wcat_stream \<Rightarrow> sys \<Rightarrow> int \<times> sys" where
  "stream_tick st s = (case st_tls st of None \<Rightarrow> (0, s) | Some t \<Rightarrow> wcat_tls_tick t s)"

text \<open>\<open>s->pending != NULL && s->pending (ctx) > 0\<close>.\<close>

definition stream_pending :: "wcat_stream \<Rightarrow> sys \<Rightarrow> bool \<times> sys" where
  "stream_pending st s =
     (case st_tls st of
        None \<Rightarrow> (False, s)
      | Some t \<Rightarrow> (let (n, s') = wcat_tls_pending t s in (n > 0, s')))"

section \<open>Pumping\<close>

definition pump_once ::
  "wcat_stream \<Rightarrow> wcat_stream \<Rightarrow> string \<Rightarrow> wcat_relay_options option \<Rightarrow> sys \<Rightarrow> int \<times> sys" where
  "pump_once src dst label opts s =
     (case stream_read src WCAT_BUFSIZE s of
        (None, s1) \<Rightarrow> if errno_of s1 = EIO then (0, s1)
                      else if errno_of s1 = EAGAIN then (1, s1)
                      else (0, s1)
      | (Some buf, s1) \<Rightarrow>
          if buf = [] then (0, s1)
          else let s2 = (if opts \<noteq> None \<and> opt_hex (the opts) then wcat_hexdump label buf s1 else s1);
                   (n, s3) = stream_write dst buf s2
               in (if n \<noteq> int (length buf) then - 1 else 1, s3))"

record relay =
  sa :: wcat_stream
  sb :: wcat_stream
  a_active :: bool
  b_active :: bool

text \<open>
  One direction: \<open>Some rc\<close> is a return. \<open>flip\<close> exchanges the sides, so that the code for the
  direction from b to a is the one from a to b.
\<close>

definition flip_relay :: "relay \<Rightarrow> relay" where
  "flip_relay r = \<lparr>sa = sb r, sb = sa r, a_active = b_active r, b_active = a_active r\<rparr>"

definition pump_ab ::
  "string \<Rightarrow> wcat_relay_options option \<Rightarrow> relay \<Rightarrow> sys \<Rightarrow> int option \<times> relay \<times> sys" where
  "pump_ab label opts r s =
     (let (rc, s1) = pump_once (sa r) (sb r) label opts s
      in if rc < 0 then (Some (- 1), r, s1)
         else if rc = 0
         then let (b', s2) = stream_shutdown_write (sb r) s1
              in if close_on_eof (sa r) then (Some 0, r\<lparr>sb := b'\<rparr>, s2)
                 else (None, r\<lparr>sb := b', a_active := False\<rparr>, s2)
         else (None, r, s1))"

definition pump_ba ::
  "string \<Rightarrow> wcat_relay_options option \<Rightarrow> relay \<Rightarrow> sys \<Rightarrow> int option \<times> relay \<times> sys" where
  "pump_ba label opts r s =
     (let (res, r', s') = pump_ab label opts (flip_relay r) s in (res, flip_relay r', s'))"

definition relay_pollfds :: "fd \<Rightarrow> fd \<Rightarrow> relay \<Rightarrow> (fd \<times> pflag set) list" where
  "relay_pollfds af bf r =
     [(if a_active r then af else - 1, if a_active r then {POLLIN} else {}),
      (if b_active r then bf else - 1, if b_active r then {POLLIN} else {})]"

definition has_tick :: "wcat_stream \<Rightarrow> bool" where
  "has_tick st = (st_tls st \<noteq> None)"

definition poll_timeout :: "relay \<Rightarrow> int \<Rightarrow> int" where
  "poll_timeout r timeout =
     (if (has_tick (sa r) \<or> has_tick (sb r)) \<and> (timeout < 0 \<or> timeout > 50) then 50 else timeout)"

text \<open>The part of a pass from \<open>poll\<close> on.\<close>

definition relay_poll ::
  "fd \<Rightarrow> fd \<Rightarrow> int \<Rightarrow> wcat_relay_options option \<Rightarrow> relay \<Rightarrow> sys \<Rightarrow> int option \<times> relay \<times> sys" where
  "relay_poll af bf timeout opts r s =
     (let (rc, revs, s1) = sys_poll (relay_pollfds af bf r) s
      in if rc < 0 then (if errno_of s1 = EINTR then (None, r, s1) else (Some (- 1), r, s1))
         else if rc = 0 \<and> poll_timeout r timeout \<noteq> timeout then (None, r, s1)
         else if rc = 0 then (Some 0, r, wcat_log WCAT_LOG_WARN ''timeout'' ''relay timed out'' s1)
         else let (res, r2, s2) = (if POLLIN \<in> revs ! 0 \<or> POLLHUP \<in> revs ! 0 then pump_ab ''a>b'' opts r s1
                                   else (None, r, s1))
              in if res \<noteq> None then (res, r2, s2)
                 else if POLLIN \<in> revs ! 1 \<or> POLLHUP \<in> revs ! 1 then pump_ba ''b>a'' opts r2 s2
                 else (None, r2, s2))"

text \<open>One pass of the loop, after its condition.\<close>

definition relay_pass ::
  "fd \<Rightarrow> fd \<Rightarrow> int \<Rightarrow> wcat_relay_options option \<Rightarrow> relay \<Rightarrow> sys \<Rightarrow> int option \<times> relay \<times> sys" where
  "relay_pass af bf timeout opts r s =
     (let (ta, s1) = stream_tick (sa r) s
      in if ta < 0 then (Some (- 1), r, s1)
         else let (tb, s2) = stream_tick (sb r) s1
              in if tb < 0 then (Some (- 1), r, s2)
                 else let (pa, s3) = (if a_active r then stream_pending (sa r) s2 else (False, s2))
                      in if pa then pump_ab ''a>b'' opts r s3
                         else let (pb, s4) = (if b_active r then stream_pending (sb r) s3 else (False, s3))
                              in if pb then pump_ba ''b>a'' opts r s4
                                 else relay_poll af bf timeout opts r s4)"

section \<open>Termination of the loop\<close>

text \<open>The answers a pass may use up; no call adds to them.\<close>

definition answers_left :: "sys \<Rightarrow> nat" where
  "answers_left s = length (poll_q s) + length (ssl_pend_q s)"

lemma sys_poll_answers: "sys_poll p s = (rc, evs, s') \<Longrightarrow> answers_left s' \<le> answers_left s
    \<and> (poll_q s \<noteq> [] \<longrightarrow> answers_left s' < answers_left s)"
  by (auto simp: answers_left_def sys_poll_def Let_def split: list.splits poll_ans.splits)

lemma poll_retry_answers: "answers_left (snd (snd (poll_retry p s))) \<le> answers_left s"
proof (induction p s rule: poll_retry.induct)
  case (1 p s)
  obtain rc evs s1 where pl: "sys_poll [p] s = (rc, evs, s1)" using prod_cases3 by blast
  with sys_poll_answers [OF pl] "1.IH" [OF pl [symmetric] refl refl] show ?case
    by (auto simp: poll_retry.simps [of p s])
qed

lemma quic_events_answers [simp]: "answers_left (quic_handle_events t s) = answers_left s"
  by (simp add: answers_left_def quic_handle_events_def ssl_handle_events_def split: list.splits)

lemma observe_stop_answers: "observe_stop s = (b, s') \<Longrightarrow> answers_left s' = answers_left s"
  by (auto simp: answers_left_def observe_stop_def Let_def on_signal_def split: list.splits if_splits)

lemma tick_answers: "answers_left (snd (stream_tick st s)) = answers_left s"
  by (auto simp: stream_tick_def wcat_tls_tick_def ssl_handle_events_def answers_left_def Let_def
      split: option.splits list.splits)

lemma pending_answers: "stream_pending st s = (b, s') \<Longrightarrow> answers_left s' \<le> answers_left s \<and> (b \<longrightarrow> answers_left s' < answers_left s)"
  using quic_events_answers [of "the (st_tls st)" s]
  by (auto simp: stream_pending_def wcat_tls_pending_def ssl_pending_def answers_left_def
      split: option.splits list.splits)

lemma read_retry_pend: "ssl_pend_q (snd (read_retry fd len s)) = ssl_pend_q s"
proof (induction fd len s rule: read_retry.induct)
  case (1 fd len s)
  obtain r s1 where r: "sys_read fd len s = (r, s1)" by force
  then have "ssl_pend_q s1 = ssl_pend_q s" by (auto simp: sys_read_def split: list.splits rd_ans.splits)
  with r "1.IH" [OF r [symmetric]] show ?case by (auto simp: read_retry.simps [of fd len s] split: option.splits)
qed

lemma read_answers: "answers_left (snd (stream_read st len s)) = answers_left s"
proof (cases "st_tls st")
  case None
  obtain r s' where r: "read_retry (raw_fd st) len s = (r, s')" by force
  with read_retry_frame [OF r] read_retry_pend [of "raw_fd st" len s] None show ?thesis
    by (simp add: stream_read_def answers_left_def)
next
  case (Some t)
  obtain a s1 where a: "ssl_read (tfd t) len (quic_handle_events t s) = (a, s1)" by force
  then have "answers_left s1 = answers_left s"
    using quic_events_answers [of t s]
    by (auto simp: ssl_read_def answers_left_def split: list.splits ssl_rd.splits if_splits)
  with a quic_events_answers [of t s1] Some show ?thesis
    by (auto simp: stream_read_def wcat_tls_read_def answers_left_def split: ssl_rd.splits)
qed

lemma full_write_pend: "ssl_pend_q (snd (full_write_loop fd buf off s)) = ssl_pend_q s"
proof (induction fd buf off s rule: full_write_loop.induct)
  case (1 fd buf off s)
  obtain n s1 where w: "sys_write fd (drop off buf) s = (n, s1)" by force
  then have "ssl_pend_q s1 = ssl_pend_q s" by (auto simp: sys_write_def split: list.splits wr_ans.splits)
  with w "1.IH" [OF _ w [symmetric] refl] show ?case by (simp add: full_write_loop.simps [of fd buf off s])
qed

lemma tls_write_answers: "answers_left (snd (tls_write_loop t buf off s)) \<le> answers_left s"
proof (induction t buf off s rule: tls_write_loop.induct)
  case (1 t buf off s)
  obtain a s1 where w: "ssl_write (tfd t) (drop off buf) (quic_handle_events t s) = (a, s1)" by force
  then have f1: "answers_left s1 = answers_left s"
    using quic_events_answers [of t s] by (auto simp: ssl_write_def answers_left_def split: list.splits ssl_wr.splits)
  show ?case
  proof (cases "off < length buf")
    case False
    then show ?thesis by (simp add: tls_write_loop.simps [of t buf off s])
  next
    case True
    show ?thesis
    proof (cases a)
      case (SslWrote k)
      with "1.IH"(1) [OF True w [symmetric] SslWrote] True w f1 show ?thesis
        by (simp add: tls_write_loop.simps [of t buf off s])
    next
      case (SslWrWant x)
      obtain prc evs s2 where p: "poll_retry (tfd t, want_events x) (quic_handle_events t s1) = (prc, evs, s2)"
        using prod_cases3 by blast
      have "answers_left s2 \<le> answers_left s" using poll_retry_answers [of "(tfd t, want_events x)" "quic_handle_events t s1"] p f1 by simp
      with "1.IH"(2) [OF True w [symmetric] SslWrWant p [symmetric] refl refl] True w p SslWrWant show ?thesis
        by (auto simp: tls_write_loop.simps [of t buf off s])
    next
      case SslWrFatal
      with True w f1 show ?thesis by (simp add: tls_write_loop.simps [of t buf off s])
    qed
  qed
qed

lemma write_answers: "answers_left (snd (stream_write st buf s)) \<le> answers_left s"
proof (cases "st_tls st")
  case None
  obtain n s' where w: "wcat_full_write (write_fd st) buf s = (n, s')" by force
  from wcat_full_write_effect [OF w] have "poll_q s' = poll_q s" by (auto simp: write_effect_def)
  moreover have "ssl_pend_q s' = ssl_pend_q s"
    using full_write_pend [of "write_fd st" buf 0 s] w by (simp add: wcat_full_write_def)
  ultimately show ?thesis using None w by (simp add: stream_write_def answers_left_def)
next
  case (Some t)
  then show ?thesis using tls_write_answers by (simp add: stream_write_def wcat_tls_write_def)
qed

lemma hexdump_answers [simp]: "answers_left (wcat_hexdump lb b s) = answers_left s"
  by (simp add: answers_left_def wcat_hexdump_def)

lemma pump_once_answers: "answers_left (snd (pump_once src dst lb opts s)) \<le> answers_left s"
proof -
  obtain r s1 where r: "stream_read src WCAT_BUFSIZE s = (r, s1)" by force
  then have f: "answers_left s1 = answers_left s" using read_answers [of src WCAT_BUFSIZE s] by simp
  have "answers_left (snd (stream_write dst b s1)) \<le> answers_left s" "answers_left (snd (stream_write dst b (wcat_hexdump lb b s1))) \<le> answers_left s" for b
    using write_answers [of dst b s1] write_answers [of dst b "wcat_hexdump lb b s1"] f by simp_all
  with r f show ?thesis by (auto simp: pump_once_def case_prod_unfold Let_def split: option.splits)
qed

lemma close_loop_pend: "ssl_pend_q (close_loop fd s) = ssl_pend_q s"
proof (induction fd s rule: close_loop.induct)
  case (1 fd s)
  obtain n s1 where c: "sys_close fd s = (n, s1)" by force
  then have "ssl_pend_q s1 = ssl_pend_q s"
    by (auto simp: sys_close_def Let_def split: list.splits option.splits if_splits)
  with c "1.IH" [OF c [symmetric] refl] show ?case by (auto simp: close_loop.simps [of fd s])
qed

lemma close_answers [simp]: "answers_left (close_quiet fd s) = answers_left s"
  by (simp add: answers_left_def wcat_close_quiet_def close_loop_pend close_loop_frame)

lemma ssl_finish_answers: "ssl_finish s = (a, s') \<Longrightarrow> answers_left s' = answers_left s"
  by (auto simp: ssl_finish_def answers_left_def split: list.splits)

lemma quic_conclude_answers: "answers_left (snd (quic_conclude t s)) \<le> answers_left s"
proof (induction t s rule: quic_conclude.induct)
  case (1 t s)
  obtain stop s0 where o: "observe_stop s = (stop, s0)" by force
  obtain a s1 where f: "ssl_finish (quic_handle_events t s0) = (a, s1)" by force
  have f1: "answers_left s1 = answers_left s" using ssl_finish_answers [OF f] observe_stop_answers [OF o] by simp
  show ?case
  proof (cases "stop \<or> (\<forall>w. a \<noteq> SslEndWant w)")
    case True
    with o f f1 observe_stop_answers [OF o] show ?thesis
      by (cases a) (auto simp: quic_conclude.simps [of t s])
  next
    case False
    then obtain w where w: "\<not> stop" "a = SslEndWant w" by auto
    obtain prc evs s2 where p: "poll_retry (tfd t, want_events w) s1 = (prc, evs, s2)" using prod_cases3 by blast
    have "answers_left s2 \<le> answers_left s" using poll_retry_answers [of "(tfd t, want_events w)" s1] p f1 by simp
    with "1.IH" [OF o [symmetric] refl w(1) f [symmetric] w(2) p [symmetric] refl refl] o f w p show ?thesis
      by (auto simp: quic_conclude.simps [of t s])
  qed
qed

lemma shutdown_answers: "answers_left (snd (stream_shutdown_write st s)) \<le> answers_left s"
proof (cases "st_tls st")
  case None
  then show ?thesis
    by (auto simp: stream_shutdown_write_def fd_shutdown_write_def sys_shutdown_wr_def answers_left_def Let_def
        close_quiet_frame wcat_close_quiet_def close_loop_pend close_loop_frame split: list.splits option.splits)
next
  case (Some t)
  obtain a s1 where f: "ssl_finish s = (a, s1)" by force
  with Some ssl_finish_answers [OF f] quic_conclude_answers [of t s] show ?thesis
    by (cases a) (auto simp: stream_shutdown_write_def wcat_tls_shutdown_write_def)
qed

lemma pump_ab_answers: "pump_ab lb opts r s = (res, r', s') \<Longrightarrow> answers_left s' \<le> answers_left s"
proof -
  assume p: "pump_ab lb opts r s = (res, r', s')"
  obtain rc s1 where o: "pump_once (sa r) (sb r) lb opts s = (rc, s1)" by force
  obtain b' s2 where sh: "stream_shutdown_write (sb r) s1 = (b', s2)" by force
  have "answers_left s1 \<le> answers_left s" "answers_left s2 \<le> answers_left s1"
    using pump_once_answers [of "sa r" "sb r" lb opts s] o shutdown_answers [of "sb r" s1] sh by simp_all
  with p o sh show ?thesis by (auto simp: pump_ab_def split: if_splits)
qed

lemma pump_ba_answers: "pump_ba lb opts r s = (res, r', s') \<Longrightarrow> answers_left s' \<le> answers_left s"
proof -
  assume p: "pump_ba lb opts r s = (res, r', s')"
  obtain res1 r1 s1 where o: "pump_ab lb opts (flip_relay r) s = (res1, r1, s1)" using prod_cases3 by blast
  with pump_ab_answers [OF o] p show ?thesis by (simp add: pump_ba_def)
qed

lemma relay_poll_answers:
  assumes "relay_poll af bf tmo opts r s = (None, r', s')"
  shows "answers_left s' < answers_left s"
proof -
  obtain rc evs s1 where p: "sys_poll (relay_pollfds af bf r) s = (rc, evs, s1)" using prod_cases3 by blast
  have ne: "poll_q s \<noteq> []" using assms p by (auto simp: relay_poll_def sys_poll_def split: if_splits)
  obtain res r2 s2 where a: "(if POLLIN \<in> evs ! 0 \<or> POLLHUP \<in> evs ! 0 then pump_ab ''a>b'' opts r s1
      else (None, r, s1)) = (res, r2, s2)" using prod_cases3 by blast
  have f1: "answers_left s1 < answers_left s" using sys_poll_answers [OF p] ne by simp
  have "answers_left s2 \<le> answers_left s1" using a pump_ab_answers by (auto split: if_splits)
  moreover have "answers_left s' \<le> answers_left s2 \<or> answers_left s' = answers_left s1"
    using assms p a pump_ba_answers [of "''b>a''" opts r2 s2] by (auto simp: relay_poll_def split: if_splits)
  ultimately show ?thesis using f1 by auto
qed

lemma relay_pass_answers:
  assumes "relay_pass af bf tmo opts r s = (None, r', s')"
  shows "answers_left s' < answers_left s"
proof -
  obtain ta s1 where 1: "stream_tick (sa r) s = (ta, s1)" by force
  obtain tb s2 where 2: "stream_tick (sb r) s1 = (tb, s2)" by force
  obtain pa s3 where 3: "(if a_active r then stream_pending (sa r) s2 else (False, s2)) = (pa, s3)" by force
  obtain pb s4 where 4: "(if b_active r then stream_pending (sb r) s3 else (False, s3)) = (pb, s4)" by force
  have f: "answers_left s2 = answers_left s" using tick_answers [of "sa r" s] tick_answers [of "sb r" s1] 1 2 by simp
  have f3: "answers_left s3 \<le> answers_left s \<and> (pa \<longrightarrow> answers_left s3 < answers_left s)"
    using 3 pending_answers [of "sa r" s2] f by (auto split: if_splits)
  have f4: "answers_left s4 \<le> answers_left s \<and> (pb \<longrightarrow> answers_left s4 < answers_left s)"
    using 4 pending_answers [of "sb r" s3] f3 by (fastforce split: if_splits)
  have "(if pa then pump_ab ''a>b'' opts r s3 else if pb then pump_ba ''b>a'' opts r s4
      else relay_poll af bf tmo opts r s4) = (None, r', s')"
    using assms 1 2 3 4 by (auto simp: relay_pass_def split: if_splits)
  then show ?thesis
    using f3 f4 pump_ab_answers pump_ba_answers relay_poll_answers by (fastforce split: if_splits)
qed

function relay_loop ::
  "fd \<Rightarrow> fd \<Rightarrow> int \<Rightarrow> wcat_relay_options option \<Rightarrow> relay \<Rightarrow> sys \<Rightarrow> int \<times> relay \<times> sys" where
  "relay_loop af bf timeout opts r s =
     (let (stop, s0) = observe_stop s
      in if stop \<or> \<not> (a_active r \<or> b_active r) then (0, r, s0)
         else let (res, r', s') = relay_pass af bf timeout opts r s0
              in case res of Some rc \<Rightarrow> (rc, r', s') | None \<Rightarrow> relay_loop af bf timeout opts r' s')"
  by pat_completeness auto
termination
proof (relation "measure (\<lambda>(af, bf, t, opts, r, s). answers_left s)", goal_cases)
  case 1
  show ?case by simp
next
  case (2 af bf timeout opts r s x stop s0 y res z r' s')
  have "relay_pass af bf timeout opts r s0 = (None, r', s')" using 2 by simp
  from relay_pass_answers [OF this] observe_stop_answers [of s stop s0] 2(1,2) show ?case by simp
qed

declare relay_loop.simps [simp del]

definition wcat_relay_bidirectional ::
  "wcat_stream \<Rightarrow> wcat_stream \<Rightarrow> wcat_relay_options option \<Rightarrow> sys \<Rightarrow> int \<times> relay \<times> sys" where
  "wcat_relay_bidirectional a b opts s =
     relay_loop (stream_fd a) (stream_fd b) (case opts of None \<Rightarrow> - 1 | Some p \<Rightarrow> opt_timeout p) opts
       \<lparr>sa = a, sb = b, a_active = True, b_active = True\<rparr> s"

section \<open>The one-way copy\<close>

fun rd_weight :: "rd_ans list \<Rightarrow> nat" where
  "rd_weight [] = 0"
| "rd_weight (RdData d # q) = length d + 1 + rd_weight q"
| "rd_weight (RdErr e # q) = 1 + rd_weight q"

fun ssl_weight :: "ssl_rd list \<Rightarrow> nat" where
  "ssl_weight [] = 0"
| "ssl_weight (SslData d # q) = length d + 1 + ssl_weight q"
| "ssl_weight (a # q) = 1 + ssl_weight q"

definition src_weight :: "wcat_stream \<Rightarrow> sys \<Rightarrow> nat" where
  "src_weight st s = (case st_tls st of None \<Rightarrow> rd_weight (rd_q s (raw_fd st)) | Some t \<Rightarrow> ssl_weight (ssl_rd_q s (tfd t)))"

lemma src_weight_cong: "rd_q s' = rd_q s \<Longrightarrow> ssl_rd_q s' = ssl_rd_q s \<Longrightarrow> src_weight st s' = src_weight st s"
  by (simp add: src_weight_def split: option.splits)

lemma sys_read_weight:
  "sys_read fd len s = (r, s') \<Longrightarrow> 0 < len \<Longrightarrow> r \<noteq> Some [] \<Longrightarrow> rd_weight (rd_q s' fd) < rd_weight (rd_q s fd)"
  by (auto simp: sys_read_def split: list.splits rd_ans.splits if_splits)

lemma read_retry_weight:
  "read_retry fd len s = (r, s') \<Longrightarrow> 0 < len \<Longrightarrow> r \<noteq> Some [] \<Longrightarrow> rd_weight (rd_q s' fd) < rd_weight (rd_q s fd)"
proof (induction fd len s rule: read_retry.induct)
  case (1 fd len s)
  obtain r1 s1 where r1: "sys_read fd len s = (r1, s1)" by force
  show ?case
  proof (cases "r1 = None \<and> errno_of s1 = EINTR")
    case True
    with "1.prems" r1 have "read_retry fd len s1 = (r, s')" by (simp add: read_retry.simps [of fd len s])
    with "1.IH" [OF r1 [symmetric]] True "1.prems" sys_read_weight [OF r1] show ?thesis by auto
  next
    case False
    with "1.prems" r1 sys_read_weight [OF r1] show ?thesis
      by (auto simp: read_retry.simps [of fd len s] split: option.splits)
  qed
qed

lemma stream_read_weight:
  assumes "stream_read st len s = (r, s')" and "0 < len" and "r \<noteq> Some []"
  shows "src_weight st s' < src_weight st s"
proof (cases "st_tls st")
  case None
  with assms read_retry_weight [of "raw_fd st" len s r s'] show ?thesis by (simp add: stream_read_def src_weight_def)
next
  case (Some t)
  have q: "ssl_rd_q (quic_handle_events t x) = ssl_rd_q x" for x
    by (simp add: quic_handle_events_def ssl_handle_events_def split: list.splits)
  obtain a s1 where a: "ssl_read (tfd t) len (quic_handle_events t s) = (a, s1)" by force
  have "a \<noteq> SslClosed \<Longrightarrow> ssl_weight (ssl_rd_q s1 (tfd t)) < ssl_weight (ssl_rd_q s (tfd t))"
    using a assms(2) q [of s] by (auto simp: ssl_read_def split: list.splits ssl_rd.splits if_splits)
  moreover have "a \<noteq> SslClosed \<and> ssl_rd_q s' = ssl_rd_q s1"
    using assms a Some q [of s1] by (auto simp: stream_read_def wcat_tls_read_def split: ssl_rd.splits)
  ultimately show ?thesis using Some by (simp add: src_weight_def)
qed

lemma tls_write_keeps_input:
  "rd_q (snd (tls_write_loop t buf off s)) = rd_q s \<and> ssl_rd_q (snd (tls_write_loop t buf off s)) = ssl_rd_q s"
proof (induction t buf off s rule: tls_write_loop.induct)
  case (1 t buf off s)
  have q: "rd_q (quic_handle_events t x) = rd_q x \<and> ssl_rd_q (quic_handle_events t x) = ssl_rd_q x" for x
    by (simp add: quic_handle_events_def ssl_handle_events_def split: list.splits)
  have pr: "rd_q (snd (snd (poll_retry p x))) = rd_q x \<and> ssl_rd_q (snd (snd (poll_retry p x))) = ssl_rd_q x" for p x
  proof (induction p x rule: poll_retry.induct)
    case (1 p x)
    obtain rc evs y where pl: "sys_poll [p] x = (rc, evs, y)" using prod_cases3 by blast
    then have "rd_q y = rd_q x \<and> ssl_rd_q y = ssl_rd_q x"
      by (auto simp: sys_poll_def Let_def split: list.splits poll_ans.splits)
    with pl "1.IH" [OF pl [symmetric] refl refl] show ?case by (simp add: poll_retry.simps [of p x])
  qed
  obtain a s1 where w: "ssl_write (tfd t) (drop off buf) (quic_handle_events t s) = (a, s1)" by force
  then have s1: "rd_q s1 = rd_q s \<and> ssl_rd_q s1 = ssl_rd_q s"
    using q [of s] by (auto simp: ssl_write_def split: list.splits ssl_wr.splits)
  show ?case
  proof (cases "off < length buf")
    case False
    with q [of s] show ?thesis by (simp add: tls_write_loop.simps [of t buf off s])
  next
    case True
    show ?thesis
    proof (cases a)
      case (SslWrote k)
      with "1.IH"(1) [OF True w [symmetric] SslWrote] True w s1 q [of s1] show ?thesis
        by (simp add: tls_write_loop.simps [of t buf off s])
    next
      case (SslWrWant x)
      obtain prc evs s2 where p: "poll_retry (tfd t, want_events x) (quic_handle_events t s1) = (prc, evs, s2)"
        using prod_cases3 by blast
      have "rd_q s2 = rd_q s \<and> ssl_rd_q s2 = ssl_rd_q s"
        using pr [of "(tfd t, want_events x)" "quic_handle_events t s1"] p s1 q [of s1] by simp
      with "1.IH"(2) [OF True w [symmetric] SslWrWant p [symmetric] refl refl] True w p SslWrWant show ?thesis
        by (simp add: tls_write_loop.simps [of t buf off s])
    next
      case SslWrFatal
      with True w s1 show ?thesis by (simp add: tls_write_loop.simps [of t buf off s])
    qed
  qed
qed

lemma full_write_ssl_rd: "ssl_rd_q (snd (full_write_loop fd buf off s)) = ssl_rd_q s"
proof (induction fd buf off s rule: full_write_loop.induct)
  case (1 fd buf off s)
  obtain n s1 where w: "sys_write fd (drop off buf) s = (n, s1)" by force
  then have "ssl_rd_q s1 = ssl_rd_q s" by (auto simp: sys_write_def split: list.splits wr_ans.splits)
  with w "1.IH" [OF _ w [symmetric] refl] show ?case by (simp add: full_write_loop.simps [of fd buf off s])
qed

lemma stream_write_weight: "src_weight st (snd (stream_write dst buf s)) = src_weight st s"
proof (cases "st_tls dst")
  case None
  obtain n s' where w: "wcat_full_write (write_fd dst) buf s = (n, s')" by force
  from wcat_full_write_effect [OF w] have "rd_q s' = rd_q s" by (auto simp: write_effect_def)
  moreover have "ssl_rd_q s' = ssl_rd_q s"
    using full_write_ssl_rd [of "write_fd dst" buf 0 s] w by (simp add: wcat_full_write_def)
  ultimately have "src_weight st s' = src_weight st s" by (rule src_weight_cong)
  with None w show ?thesis by (simp add: stream_write_def)
next
  case (Some t)
  have "src_weight st (snd (wcat_tls_write t buf s)) = src_weight st s"
    unfolding wcat_tls_write_def using tls_write_keeps_input [of t buf 0 s] by (intro src_weight_cong) blast+
  with Some show ?thesis by (simp add: stream_write_def)
qed

lemma pump_once_weight:
  assumes "pump_once src dst lb opts s = (rc, s')" and "0 < rc"
  shows "src_weight src s' < src_weight src s"
proof -
  obtain r s1 where r: "stream_read src WCAT_BUFSIZE s = (r, s1)" by force
  have r': "r \<noteq> Some []" using assms r by (auto simp: pump_once_def)
  have w: "src_weight src s1 < src_weight src s"
    using stream_read_weight [OF r _ r'] by (simp add: WCAT_BUFSIZE_def)
  have h: "src_weight src (wcat_hexdump lb b x) = src_weight src x" for b x
    by (rule src_weight_cong) (simp_all add: wcat_hexdump_def)
  show ?thesis
  proof (cases r)
    case None
    with assms r w show ?thesis by (auto simp: pump_once_def split: if_splits)
  next
    case (Some b)
    define s2 where "s2 = (if opts \<noteq> None \<and> opt_hex (the opts) then wcat_hexdump lb b s1 else s1)"
    obtain n s3 where wr: "stream_write dst b s2 = (n, s3)" by force
    have "s' = s3" using assms r Some r' wr by (auto simp: pump_once_def s2_def Let_def split: if_splits)
    with stream_write_weight [of src dst b s2] wr w h show ?thesis by (simp add: s2_def)
  qed
qed

lemma observe_stop_weight: "observe_stop s = (b, s') \<Longrightarrow> src_weight st s' = src_weight st s"
  by (rule src_weight_cong)
    (auto simp: observe_stop_def Let_def on_signal_def split: list.splits if_splits)

function wcat_copy_stream ::
  "wcat_stream \<Rightarrow> wcat_stream \<Rightarrow> wcat_relay_options option \<Rightarrow> sys \<Rightarrow> int \<times> sys" where
  "wcat_copy_stream src dst opts s =
     (let (stop, s0) = observe_stop s
      in if stop then (0, s0)
         else let (rc, s1) = pump_once src dst ''copy'' opts s0
              in if rc \<le> 0 then (rc, s1) else wcat_copy_stream src dst opts s1)"
  by pat_completeness auto
termination
proof (relation "measure (\<lambda>(src, dst, opts, s). src_weight src s)", goal_cases)
  case 1
  show ?case by simp
next
  case (2 src dst opts s x stop s0 y rc s1)
  with pump_once_weight [of src dst "''copy''" opts s0 rc s1] observe_stop_weight [of s stop s0 src]
  show ?case by simp
qed

declare wcat_copy_stream.simps [simp del]

section \<open>What arrives is what was sent\<close>

text \<open>
  The interface the relay relies on: reading appends to what has been received on a stream,
  writing appends a prefix of the buffer to what has been sent on it, all of it when the result
  says so.
\<close>

definition moved :: "fd \<Rightarrow> fd \<Rightarrow> bytes \<Rightarrow> bytes \<Rightarrow> sys \<Rightarrow> sys \<Rightarrow> bool" where
  "moved i j d d' s s' \<longleftrightarrow>
     got s' = (got s)(i := got s i @ d) \<and> sent s' = (sent s)(j := sent s j @ d') \<and> prefix d' d"

locale byte_stream =
  fixes rd :: "'st \<Rightarrow> nat \<Rightarrow> sys \<Rightarrow> bytes option \<times> sys" and wr :: "'st \<Rightarrow> bytes \<Rightarrow> sys \<Rightarrow> int \<times> sys"
    and in_fd :: "'st \<Rightarrow> fd" and out_fd :: "'st \<Rightarrow> fd"
  assumes rd_law: "rd st len s = (r, s') \<Longrightarrow>
      sent s' = sent s \<and> got s' = (got s)(in_fd st := got s (in_fd st) @ (case r of None \<Rightarrow> [] | Some d \<Rightarrow> d))"
    and wr_law: "wr st buf s = (n, s') \<Longrightarrow>
      \<exists>k \<le> length buf. got s' = got s \<and> sent s' = (sent s)(out_fd st := sent s (out_fd st) @ take k buf)
        \<and> (n = int (length buf) \<longrightarrow> k = length buf)"
begin

lemma transfer:
  assumes "rd src len s = (Some b, s1)" and "sent s2 = sent s1" and "got s2 = got s1" and "wr dst b s2 = (n, s3)"
  shows "\<exists>d'. moved (in_fd src) (out_fd dst) b d' s s3 \<and> (n = int (length b) \<longrightarrow> d' = b)"
proof -
  from wr_law [OF assms(4)] obtain k where k: "k \<le> length b" "got s3 = got s2"
    "sent s3 = (sent s2)(out_fd dst := sent s2 (out_fd dst) @ take k b)" "n = int (length b) \<longrightarrow> k = length b" by blast
  have "got s3 = (got s)(in_fd src := got s (in_fd src) @ b)" using rd_law [OF assms(1)] k(2) assms(3) by simp
  moreover have "sent s3 = (sent s)(out_fd dst := sent s (out_fd dst) @ take k b)"
    using rd_law [OF assms(1)] k(3) assms(2) by simp
  ultimately have "moved (in_fd src) (out_fd dst) b (take k b) s s3" by (simp add: moved_def take_is_prefix)
  with k(4) show ?thesis by (intro exI [of _ "take k b"]) simp
qed

lemma no_data:
  assumes "rd src len s = (r, s1)" and "r = None \<or> r = Some []"
  shows "moved (in_fd src) j [] [] s s1"
  using rd_law [OF assms(1)] assms(2) by (auto simp: moved_def)

end

definition stream_in :: "wcat_stream \<Rightarrow> fd" where
  "stream_in st = (case st_tls st of None \<Rightarrow> raw_fd st | Some t \<Rightarrow> tfd t)"

definition stream_out :: "wcat_stream \<Rightarrow> fd" where
  "stream_out st = (case st_tls st of None \<Rightarrow> write_fd st | Some t \<Rightarrow> tfd t)"

interpretation fd_stream: byte_stream "\<lambda>st. read_retry (raw_fd st)" "\<lambda>st. wcat_full_write (write_fd st)"
  raw_fd write_fd
proof (unfold_locales, goal_cases)
  case (1 st len s r s')
  from read_retry_frame [OF 1] show ?case by (auto simp: fun_eq_iff)
next
  case (2 st buf s n s')
  from wcat_full_write_effect [OF 2] show ?case by (auto simp: write_effect_def)
qed

interpretation tls_stream: byte_stream wcat_tls_read wcat_tls_write tfd tfd
proof (unfold_locales, goal_cases)
  case (1 t len s r s')
  from wcat_tls_read_effect(2,3) [OF 1] show ?case by simp
next
  case (2 t buf s n s')
  from wcat_tls_write_effect [OF 2] show ?case by auto
qed

interpretation any_stream: byte_stream stream_read stream_write stream_in stream_out
proof (unfold_locales, goal_cases)
  case (1 st len s r s')
  with fd_stream.rd_law [of st len s r s'] tls_stream.rd_law [of "the (st_tls st)" len s r s'] show ?case
    by (cases "st_tls st") (simp_all add: stream_read_def stream_in_def)
next
  case (2 st buf s n s')
  with fd_stream.wr_law [of st buf s n s'] tls_stream.wr_law [of "the (st_tls st)" buf s n s'] show ?case
    by (cases "st_tls st") (simp_all add: stream_write_def stream_out_def)
qed

lemma pump_once_effect:
  assumes "pump_once src dst lb opts s = (rc, s')"
  shows "\<exists>d d'. moved (stream_in src) (stream_out dst) d d' s s' \<and> rc \<in> {- 1, 0, 1}
     \<and> (0 \<le> rc \<longrightarrow> d' = d) \<and> (rc \<noteq> 1 \<longrightarrow> rc = - 1 \<or> d = [])"
proof -
  obtain r s1 where r: "stream_read src WCAT_BUFSIZE s = (r, s1)" by force
  show ?thesis
  proof (cases "r = None \<or> r = Some []")
    case True
    with assms r have "s' = s1" "rc \<in> {0, 1}" by (auto simp: pump_once_def split: if_splits)
    with any_stream.no_data [OF r True] show ?thesis by blast
  next
    case False
    then obtain b where b: "r = Some b" "b \<noteq> []" by auto
    define s2 where "s2 = (if opts \<noteq> None \<and> opt_hex (the opts) then wcat_hexdump lb b s1 else s1)"
    obtain n s3 where w: "stream_write dst b s2 = (n, s3)" by force
    have s2: "sent s2 = sent s1" "got s2 = got s1" by (simp_all add: s2_def wcat_hexdump_def)
    have "rc = (if n \<noteq> int (length b) then - 1 else 1)" "s' = s3"
      using assms r b w by (auto simp: pump_once_def s2_def Let_def)
    with any_stream.transfer [OF r [unfolded b(1)] s2 w] show ?thesis by (auto split: if_splits)
  qed
qed

lemma poll_retry_io:
  "sent (snd (snd (poll_retry p s))) = sent s" "got (snd (snd (poll_retry p s))) = got s"
  by (rule poll_retry_frame)+

lemma quic_conclude_io: "sent (snd (quic_conclude t s)) = sent s \<and> got (snd (quic_conclude t s)) = got s"
proof (induction t s rule: quic_conclude.induct)
  case (1 t s)
  obtain stop s0 where o: "observe_stop s = (stop, s0)" by force
  have s0: "sent s0 = sent s" "got s0 = got s"
    using o by (auto simp: observe_stop_def Let_def on_signal_def split: list.splits if_splits)
  obtain a s1 where f: "ssl_finish (quic_handle_events t s0) = (a, s1)" by force
  have s1: "sent s1 = sent s" "got s1 = got s"
    using f s0 quic_events_frame [where s = s0 and t = t] by (auto simp: ssl_finish_def split: list.splits)
  show ?case
  proof (cases "stop \<or> (\<forall>w. a \<noteq> SslEndWant w)")
    case True
    with o f s0 s1 show ?thesis by (cases a) (auto simp: quic_conclude.simps [of t s])
  next
    case False
    then obtain w where w: "\<not> stop" "a = SslEndWant w" by auto
    obtain prc evs s2 where p: "poll_retry (tfd t, want_events w) s1 = (prc, evs, s2)" using prod_cases3 by blast
    have "sent s2 = sent s" "got s2 = got s" using poll_retry_io [where p = "(tfd t, want_events w)" and s = s1] p s1 by simp_all
    with "1.IH" [OF o [symmetric] refl w(1) f [symmetric] w(2) p [symmetric] refl refl] o f w p show ?thesis
      by (simp add: quic_conclude.simps [of t s])
  qed
qed

lemma stream_shutdown_effect:
  assumes "stream_shutdown_write st s = (st', s')"
  shows "sent s' = sent s \<and> got s' = got s \<and> stream_in st' = stream_in st \<and> close_on_eof st' = close_on_eof st"
proof (cases "st_tls st")
  case None
  with assms show ?thesis
    by (auto simp: stream_shutdown_write_def fd_shutdown_write_def sys_shutdown_wr_def stream_in_def Let_def
        split: if_splits list.splits option.splits)
next
  case (Some t)
  have "sent (snd (wcat_tls_shutdown_write t s)) = sent s \<and> got (snd (wcat_tls_shutdown_write t s)) = got s"
    using quic_conclude_io [of t s]
    by (auto simp: wcat_tls_shutdown_write_def ssl_finish_def split: list.splits ssl_end.splits)
  with assms Some show ?thesis by (auto simp: stream_shutdown_write_def)
qed

lemma pump_ab_effect:
  assumes "pump_ab lb opts r s = (res, r', s')"
  shows "\<exists>d d'. moved (stream_in (sa r)) (stream_out (sb r)) d d' s s' \<and> (res \<noteq> Some (- 1) \<longrightarrow> d' = d)"
    and "sa r' = sa r \<and> stream_in (sb r') = stream_in (sb r) \<and> b_active r' = b_active r
      \<and> (res = None \<and> a_active r' \<longrightarrow> a_active r \<and> sb r' = sb r) \<and> res \<in> {None, Some 0, Some (- 1)}"
proof -
  obtain rc s1 where p: "pump_once (sa r) (sb r) lb opts s = (rc, s1)" by force
  obtain b' s2 where sh: "stream_shutdown_write (sb r) s1 = (b', s2)" by force
  note se = stream_shutdown_effect [OF sh]
  from pump_once_effect [OF p] obtain d d' where
    pe: "moved (stream_in (sa r)) (stream_out (sb r)) d d' s s1" "rc \<in> {- 1, 0, 1}" "0 \<le> rc \<longrightarrow> d' = d" by blast
  have "moved (stream_in (sa r)) (stream_out (sb r)) d d' s s2" using pe(1) se by (simp add: moved_def)
  with pe(1) have m: "moved (stream_in (sa r)) (stream_out (sb r)) d d' s s'"
    using assms p sh by (auto simp: pump_ab_def split: if_splits)
  moreover have "res \<noteq> Some (- 1) \<longrightarrow> d' = d"
    using assms p sh pe(2,3) by (auto simp: pump_ab_def split: if_splits)
  ultimately show "\<exists>d d'. moved (stream_in (sa r)) (stream_out (sb r)) d d' s s' \<and> (res \<noteq> Some (- 1) \<longrightarrow> d' = d)"
    by blast
  show "sa r' = sa r \<and> stream_in (sb r') = stream_in (sb r) \<and> b_active r' = b_active r
      \<and> (res = None \<and> a_active r' \<longrightarrow> a_active r \<and> sb r' = sb r) \<and> res \<in> {None, Some 0, Some (- 1)}"
    using assms p sh se by (auto simp: pump_ab_def split: if_splits)
qed

text \<open>
  The state of a relay between the streams \<open>a\<close> and \<open>b\<close> that started in \<open>s0\<close>. While a direction
  is active its output is still open; with \<open>ok\<close> everything that was read has been written.
\<close>

definition relayed :: "wcat_stream \<Rightarrow> wcat_stream \<Rightarrow> sys \<Rightarrow> bool \<Rightarrow> relay \<Rightarrow> sys \<Rightarrow> bool" where
  "relayed a b s0 ok r s \<longleftrightarrow>
     stream_in (sa r) = stream_in a \<and> stream_in (sb r) = stream_in b
     \<and> (a_active r \<longrightarrow> stream_out (sb r) = stream_out b) \<and> (b_active r \<longrightarrow> stream_out (sa r) = stream_out a)
     \<and> (\<exists>da da' db db'.
          got s (stream_in a) = got s0 (stream_in a) @ da \<and> sent s (stream_out b) = sent s0 (stream_out b) @ da'
          \<and> got s (stream_in b) = got s0 (stream_in b) @ db \<and> sent s (stream_out a) = sent s0 (stream_out a) @ db'
          \<and> prefix da' da \<and> prefix db' db \<and> (ok \<longrightarrow> da' = da \<and> db' = db))"

lemma relayed_flip: "relayed b a s0 ok (flip_relay r) s \<longleftrightarrow> relayed a b s0 ok r s"
  unfolding relayed_def flip_relay_def by (simp, blast)

lemma relayed_io:
  "relayed a b s0 ok r s \<Longrightarrow> sent s' = sent s \<Longrightarrow> got s' = got s \<Longrightarrow> relayed a b s0 ok r s'"
  by (simp add: relayed_def)

lemma relayed_weaken: "relayed a b s0 True r s \<Longrightarrow> relayed a b s0 ok r s"
  unfolding relayed_def by blast

definition apart :: "wcat_stream \<Rightarrow> wcat_stream \<Rightarrow> bool" where
  "apart a b \<longleftrightarrow> stream_in a \<noteq> stream_in b \<and> stream_out a \<noteq> stream_out b"

lemma relayed_pump_ab:
  assumes "apart a b" and "relayed a b s0 True r s" and "a_active r"
    and "pump_ab lb opts r s = (res, r', s')"
  shows "relayed a b s0 (res \<noteq> Some (- 1)) (if res = None then r' else r'\<lparr>a_active := False, b_active := False\<rparr>) s'
    \<and> (res = None \<longrightarrow> b_active r' = b_active r) \<and> res \<in> {None, Some 0, Some (- 1)}"
proof -
  note pe = pump_ab_effect [OF assms(4)]
  from assms(2,3) have o: "stream_in (sa r) = stream_in a" "stream_in (sb r) = stream_in b"
    "stream_out (sb r) = stream_out b" "b_active r \<longrightarrow> stream_out (sa r) = stream_out a" by (auto simp: relayed_def)
  from pe(1) obtain d d' where m: "moved (stream_in a) (stream_out b) d d' s s'" "res \<noteq> Some (- 1) \<longrightarrow> d' = d"
    using o by auto
  from assms(2) obtain da db where f: "got s (stream_in a) = got s0 (stream_in a) @ da"
    "sent s (stream_out b) = sent s0 (stream_out b) @ da" "got s (stream_in b) = got s0 (stream_in b) @ db"
    "sent s (stream_out a) = sent s0 (stream_out a) @ db" by (auto simp: relayed_def)
  have "got s' (stream_in a) = got s0 (stream_in a) @ (da @ d)"
      "sent s' (stream_out b) = sent s0 (stream_out b) @ (da @ d')"
      "got s' (stream_in b) = got s0 (stream_in b) @ db" "sent s' (stream_out a) = sent s0 (stream_out a) @ db"
      "prefix (da @ d') (da @ d)"
    using m(1) f assms(1) by (auto simp: moved_def apart_def)
  then have "\<exists>da da' db db'.
          got s' (stream_in a) = got s0 (stream_in a) @ da \<and> sent s' (stream_out b) = sent s0 (stream_out b) @ da'
          \<and> got s' (stream_in b) = got s0 (stream_in b) @ db \<and> sent s' (stream_out a) = sent s0 (stream_out a) @ db'
          \<and> prefix da' da \<and> prefix db' db \<and> (res \<noteq> Some (- 1) \<longrightarrow> da' = da \<and> db' = db)"
    using m(2) by (intro exI [of _ "da @ d"] exI [of _ "da @ d'"] exI [of _ db]) auto
  with pe(2) o show ?thesis by (cases "res = None") (auto simp: relayed_def)
qed

lemma relayed_pump_ba:
  assumes "apart a b" and "relayed a b s0 True r s" and "b_active r"
    and "pump_ba lb opts r s = (res, r', s')"
  shows "relayed a b s0 (res \<noteq> Some (- 1)) (if res = None then r' else r'\<lparr>a_active := False, b_active := False\<rparr>) s'
    \<and> res \<in> {None, Some 0, Some (- 1)}"
proof -
  obtain res1 r1 s1 where p0: "pump_ab lb opts (flip_relay r) s = (res1, r1, s1)" using prod_cases3 by blast
  have p: "pump_ab lb opts (flip_relay r) s = (res, r1, s')" "r' = flip_relay r1"
    using assms(4) p0 by (simp_all add: pump_ba_def)
  have f: "relayed b a s0 True (flip_relay r) s" using assms(2) by (simp add: relayed_flip)
  have ap: "apart b a" using assms(1) by (auto simp: apart_def)
  have act: "a_active (flip_relay r)" using assms(3) by (simp add: flip_relay_def)
  note x = relayed_pump_ab [OF ap f act p(1)]
  have e: "(if res = None then r1 else r1\<lparr>a_active := False, b_active := False\<rparr>)
      = flip_relay (if res = None then r' else r'\<lparr>a_active := False, b_active := False\<rparr>)"
    by (simp add: p(2) flip_relay_def)
  from x have "relayed b a s0 (res \<noteq> Some (- 1))
      (flip_relay (if res = None then r' else r'\<lparr>a_active := False, b_active := False\<rparr>)) s'"
    unfolding e by (rule conjunct1)
  with x show ?thesis unfolding relayed_flip by simp
qed

text \<open>A side that is not active is not polled, so it is not pumped.\<close>

lemma relay_pollfds_active:
  assumes "sys_poll (relay_pollfds af bf r) s = (rc, evs, s1)" and "0 < rc"
  shows "evs ! 0 \<noteq> {} \<longrightarrow> a_active r" and "evs ! 1 \<noteq> {} \<longrightarrow> b_active r"
proof -
  obtain f q where "poll_q s = PollReady f # q"
    using assms by (auto simp: sys_poll_def split: list.splits poll_ans.splits)
  with assms(1) have e: "evs = map (poll_revents f) (relay_pollfds af bf r)" by (simp add: sys_poll_def Let_def)
  show "evs ! 0 \<noteq> {} \<longrightarrow> a_active r" by (cases "a_active r") (simp_all add: e relay_pollfds_def poll_revents_def)
  show "evs ! 1 \<noteq> {} \<longrightarrow> b_active r" by (cases "b_active r") (simp_all add: e relay_pollfds_def poll_revents_def)
qed

definition final_relay :: "int option \<Rightarrow> relay \<Rightarrow> relay" where
  "final_relay res r = (if res = None then r else r\<lparr>a_active := False, b_active := False\<rparr>)"

lemma relayed_final: "relayed a b s0 ok r s \<Longrightarrow> relayed a b s0 ok (final_relay res r) s"
  by (auto simp: relayed_def final_relay_def)

lemma relayed_poll:
  assumes "apart a b" and "relayed a b s0 True r s" and "relay_poll af bf tmo opts r s = (res, r', s')"
  shows "relayed a b s0 (res \<noteq> Some (- 1)) (final_relay res r') s' \<and> res \<in> {None, Some 0, Some (- 1)}"
proof -
  obtain rc evs s1 where p: "sys_poll (relay_pollfds af bf r) s = (rc, evs, s1)" using prod_cases3 by blast
  have io: "sent s1 = sent s" "got s1 = got s"
    using p by (auto simp: sys_poll_def Let_def split: list.splits poll_ans.splits)
  have r1: "relayed a b s0 True r s1" using relayed_io [OF assms(2) io] .
  have rl: "relayed a b s0 True r (wcat_log lv ev m s1)" for lv ev m
    by (rule relayed_io [OF r1]) (simp_all add: wcat_log_def Let_def)
  show ?thesis
  proof (cases "0 < rc")
    case False
    note run = assms(3) [unfolded relay_poll_def p prod.case Let_def]
    have "(res = Some (- 1) \<or> res = None) \<and> r' = r \<and> s' = s1
        \<or> res = Some 0 \<and> r' = r \<and> s' = wcat_log WCAT_LOG_WARN ''timeout'' ''relay timed out'' s1"
    proof (cases "rc < 0")
      case True
      with run show ?thesis by (cases "errno_of s1 = EINTR") simp_all
    next
      case n: False
      with False have "rc = 0" by simp
      with run show ?thesis by (cases "poll_timeout r tmo = tmo") simp_all
    qed
    then show ?thesis
    proof
      assume "(res = Some (- 1) \<or> res = None) \<and> r' = r \<and> s' = s1"
      with relayed_final [OF relayed_weaken [OF r1]] show ?thesis by blast
    next
      assume "res = Some 0 \<and> r' = r \<and> s' = wcat_log WCAT_LOG_WARN ''timeout'' ''relay timed out'' s1"
      with relayed_final [OF relayed_weaken [OF rl]] show ?thesis by blast
    qed
  next
    case True
    note act = relay_pollfds_active [OF p True]
    obtain res2 r2 s2 where a: "(if POLLIN \<in> evs ! 0 \<or> POLLHUP \<in> evs ! 0 then pump_ab ''a>b'' opts r s1
      else (None, r, s1)) = (res2, r2, s2)" using prod_cases3 by blast
    have 2: "relayed a b s0 (res2 \<noteq> Some (- 1)) (final_relay res2 r2) s2
        \<and> (res2 = None \<longrightarrow> b_active r2 = b_active r) \<and> res2 \<in> {None, Some 0, Some (- 1)}"
    proof (cases "POLLIN \<in> evs ! 0 \<or> POLLHUP \<in> evs ! 0")
      case True
      with act have "a_active r" by auto
      from relayed_pump_ab [OF assms(1) r1 this] True a show ?thesis by (simp add: final_relay_def)
    next
      case False
      with a r1 show ?thesis by (auto simp: final_relay_def)
    qed
    have run: "(if res2 \<noteq> None then (res2, r2, s2)
        else if POLLIN \<in> evs ! 1 \<or> POLLHUP \<in> evs ! 1 then pump_ba ''b>a'' opts r2 s2 else (None, r2, s2)) = (res, r', s')"
    proof -
      have n: "\<not> rc < 0" "\<not> (rc = 0 \<and> poll_timeout r tmo \<noteq> tmo)" "rc \<noteq> 0" using True by simp_all
      show ?thesis
        using assms(3) unfolding relay_poll_def p prod.case Let_def if_not_P [OF n(1)] if_not_P [OF n(2)]
          if_not_P [OF n(3)] a .
    qed
    show ?thesis
    proof (cases "res2 = None \<and> (POLLIN \<in> evs ! 1 \<or> POLLHUP \<in> evs ! 1)")
      case True
      then have "b_active r2" using act 2 by auto
      moreover have "relayed a b s0 True r2 s2" using 2 True by (simp add: final_relay_def)
      moreover have "pump_ba ''b>a'' opts r2 s2 = (res, r', s')" using run True by simp
      ultimately show ?thesis using relayed_pump_ba [OF assms(1)] by (simp add: final_relay_def)
    next
      case False
      with run 2 show ?thesis by (auto split: if_splits)
    qed
  qed
qed

lemma tick_io: "stream_tick st s = (n, s') \<Longrightarrow> sent s' = sent s \<and> got s' = got s"
  by (auto simp: stream_tick_def wcat_tls_tick_def ssl_handle_events_def Let_def
      split: option.splits list.splits if_splits)

lemma pending_io: "stream_pending st s = (b, s') \<Longrightarrow> sent s' = sent s \<and> got s' = got s"
  using quic_events_frame [where t = "the (st_tls st)" and s = s]
  by (auto simp: stream_pending_def wcat_tls_pending_def ssl_pending_def split: option.splits list.splits)

lemma relayed_pass:
  assumes "apart a b" and "relayed a b s0 True r s" and "relay_pass af bf tmo opts r s = (res, r', s')"
  shows "relayed a b s0 (res \<noteq> Some (- 1)) (final_relay res r') s' \<and> res \<in> {None, Some 0, Some (- 1)}"
proof -
  obtain ta s1 where 1: "stream_tick (sa r) s = (ta, s1)" by force
  obtain tb s2 where 2: "stream_tick (sb r) s1 = (tb, s2)" by force
  obtain pa s3 where 3: "(if a_active r then stream_pending (sa r) s2 else (False, s2)) = (pa, s3)" by force
  obtain pb s4 where 4: "(if b_active r then stream_pending (sb r) s3 else (False, s3)) = (pb, s4)" by force
  have i1: "sent s1 = sent s" "got s1 = got s" using tick_io [OF 1] by simp_all
  have i2: "sent s2 = sent s" "got s2 = got s" using tick_io [OF 2] i1 by simp_all
  have i3: "sent s3 = sent s" "got s3 = got s" using 3 pending_io [of "sa r" s2] i2 by (auto split: if_splits)
  have i4: "sent s4 = sent s" "got s4 = got s" using 4 pending_io [of "sb r" s3] i3 by (auto split: if_splits)
  note r = relayed_io [OF assms(2)]
  note r1 = r [OF i1] and r2 = r [OF i2] and r3 = r [OF i3] and r4 = r [OF i4]
  have act: "pa \<longrightarrow> a_active r" "pb \<longrightarrow> b_active r" using 3 4 by (auto split: if_splits)
  have run: "(if ta < 0 then (Some (- 1), r, s1) else if tb < 0 then (Some (- 1), r, s2)
      else if pa then pump_ab ''a>b'' opts r s3 else if pb then pump_ba ''b>a'' opts r s4
      else relay_poll af bf tmo opts r s4) = (res, r', s')"
    using assms(3) unfolding relay_pass_def 1 prod.case Let_def 2 3 4 .
  consider "ta < 0 \<or> tb < 0" | "\<not> (ta < 0 \<or> tb < 0)" "pa" | "\<not> (ta < 0 \<or> tb < 0)" "\<not> pa" "pb"
    | "\<not> (ta < 0 \<or> tb < 0)" "\<not> pa" "\<not> pb" by blast
  then show ?thesis
  proof cases
    case 1
    have "res = Some (- 1) \<and> r' = r \<and> (s' = s1 \<or> s' = s2)"
    proof (cases "ta < 0")
      case True
      with run show ?thesis by simp
    next
      case False
      with 1 run show ?thesis by simp
    qed
    with relayed_final [OF relayed_weaken [OF r1]] relayed_final [OF relayed_weaken [OF r2]]
    show ?thesis by blast
  next
    case 2
    with run have p: "pump_ab ''a>b'' opts r s3 = (res, r', s')" by simp
    have "a_active r" using act 2 by simp
    from relayed_pump_ab [OF assms(1) r3 this p] show ?thesis unfolding final_relay_def by blast
  next
    case 3
    with run have p: "pump_ba ''b>a'' opts r s4 = (res, r', s')" by simp
    have "b_active r" using act 3 by simp
    from relayed_pump_ba [OF assms(1) r4 this p] show ?thesis unfolding final_relay_def .
  next
    case 4
    with run have "relay_poll af bf tmo opts r s4 = (res, r', s')" by simp
    from relayed_poll [OF assms(1) r4 this] show ?thesis .
  qed
qed

lemma relayed_loop:
  assumes "apart a b" and "relayed a b s0 True r s" and "relay_loop af bf tmo opts r s = (rc, r', s')"
  shows "(\<exists>x. relayed a b s0 (rc = 0) x s') \<and> rc \<in> {0, - 1}"
  using assms
proof (induction af bf tmo opts r s rule: relay_loop.induct)
  case (1 af bf tmo opts r s)
  obtain stop t0 where o: "observe_stop s = (stop, t0)" by force
  have io: "sent t0 = sent s" "got t0 = got s"
    using o by (auto simp: observe_stop_def Let_def on_signal_def split: list.splits if_splits)
  have r0: "relayed a b s0 True r t0" using relayed_io [OF "1.prems"(2) io] .
  obtain res r1 s1 where p: "relay_pass af bf tmo opts r t0 = (res, r1, s1)" using prod_cases3 by blast
  note pe = relayed_pass [OF "1.prems"(1) r0 p]
  show ?case
  proof (cases "stop \<or> \<not> (a_active r \<or> b_active r)")
    case True
    with "1.prems"(3) o r0 show ?thesis
      by (auto simp: relay_loop.simps [of af bf tmo opts r s] split: if_splits)
  next
    case False
    note run = "1.prems"(3) [unfolded relay_loop.simps [of af bf tmo opts r s] o prod.case Let_def if_not_P [OF False] p]
    show ?thesis
    proof (cases res)
      case None
      with run have "relay_loop af bf tmo opts r1 s1 = (rc, r', s')" by simp
      moreover have "relayed a b s0 True r1 s1" using pe None by (simp add: final_relay_def)
      ultimately show ?thesis
        using "1.IH" [OF o [symmetric] refl False p [symmetric] refl refl None "1.prems"(1)] by blast
    next
      case (Some x)
      with run pe show ?thesis by auto
    qed
  qed
qed

lemma wcat_relay_bidirectional_faithful:
  assumes "apart a b" and "wcat_relay_bidirectional a b opts s = (rc, r, s')"
  shows "\<exists>da da' db db'.
      got s' (stream_in a) = got s (stream_in a) @ da \<and> sent s' (stream_out b) = sent s (stream_out b) @ da'
      \<and> got s' (stream_in b) = got s (stream_in b) @ db \<and> sent s' (stream_out a) = sent s (stream_out a) @ db'
      \<and> prefix da' da \<and> prefix db' db \<and> (rc = 0 \<longrightarrow> da' = da \<and> db' = db)"
    and "rc \<in> {0, - 1}"
proof -
  let ?r = "\<lparr>sa = a, sb = b, a_active = True, b_active = True\<rparr>"
  have "relayed a b s True ?r s" by (auto simp: relayed_def)
  note l = relayed_loop [OF assms(1) this assms(2) [unfolded wcat_relay_bidirectional_def]]
  then show "rc \<in> {0, - 1}" by blast
  from l obtain x where x: "relayed a b s (rc = 0) x s'" by blast
  show "\<exists>da da' db db'.
      got s' (stream_in a) = got s (stream_in a) @ da \<and> sent s' (stream_out b) = sent s (stream_out b) @ da'
      \<and> got s' (stream_in b) = got s (stream_in b) @ db \<and> sent s' (stream_out a) = sent s (stream_out a) @ db'
      \<and> prefix da' da \<and> prefix db' db \<and> (rc = 0 \<longrightarrow> da' = da \<and> db' = db)"
    using x unfolding relayed_def by (elim conjE)
qed

lemma moved_trans: "moved i j d d s s1 \<Longrightarrow> moved i j e e' s1 s2 \<Longrightarrow> moved i j (d @ e) (d @ e') s s2"
  by (auto simp: moved_def)

lemma wcat_copy_stream_faithful:
  assumes "wcat_copy_stream src dst opts s = (rc, s')"
  shows "\<exists>d d'. moved (stream_in src) (stream_out dst) d d' s s' \<and> (rc = 0 \<longrightarrow> d' = d) \<and> rc \<in> {0, - 1}"
  using assms
proof (induction src dst opts s rule: wcat_copy_stream.induct)
  case (1 src dst opts s)
  obtain stop s0 where o: "observe_stop s = (stop, s0)" by force
  have io: "sent s0 = sent s" "got s0 = got s"
    using o by (auto simp: observe_stop_def Let_def on_signal_def split: list.splits if_splits)
  obtain rc1 s1 where p: "pump_once src dst ''copy'' opts s0 = (rc1, s1)" by force
  from pump_once_effect [OF p] obtain d d' where pe: "moved (stream_in src) (stream_out dst) d d' s s1"
    "rc1 \<in> {- 1, 0, 1}" "0 \<le> rc1 \<longrightarrow> d' = d" using io by (auto simp: moved_def)
  note run = "1.prems" [unfolded wcat_copy_stream.simps [of src dst opts s] o prod.case Let_def p]
  show ?case
  proof (cases "stop \<or> rc1 \<le> 0")
    case True
    show ?thesis
    proof (cases stop)
      case True
      with run io show ?thesis by (intro exI [of _ "[]"]) (auto simp: moved_def)
    next
      case False
      with True run pe show ?thesis by (intro exI [of _ d] exI [of _ d']) auto
    qed
  next
    case False
    with run have rec: "wcat_copy_stream src dst opts s1 = (rc, s')" by simp
    from False have n: "\<not> stop" "\<not> rc1 \<le> 0" by simp_all
    from "1.IH" [OF o [symmetric] refl n(1) p [symmetric] refl n(2) rec] obtain e e' where
      e: "moved (stream_in src) (stream_out dst) e e' s1 s'" "rc = 0 \<longrightarrow> e' = e" "rc \<in> {0, - 1}" by blast
    have "d' = d" using pe(3) n(2) by simp
    with moved_trans [OF _ e(1)] pe(1) e(2,3) show ?thesis by blast
  qed
qed

section \<open>A file is copied completely\<close>

definition data_only :: "rd_ans list \<Rightarrow> bool" where
  "data_only q \<longleftrightarrow> (\<forall>a \<in> set q. \<exists>d. a = RdData d \<and> d \<noteq> [])"

definition script_data :: "rd_ans list \<Rightarrow> bytes" where
  "script_data q = concat (map (\<lambda>a. case a of RdData d \<Rightarrow> d | RdErr _ \<Rightarrow> []) q)"

lemma read_retry_data:
  assumes "data_only (rd_q s fd)" and "0 < len"
  shows "\<exists>b s'. read_retry fd len s = (Some b, s') \<and> data_only (rd_q s' fd)
    \<and> script_data (rd_q s fd) = b @ script_data (rd_q s' fd) \<and> (b = [] \<longleftrightarrow> rd_q s fd = [])"
proof (cases "rd_q s fd")
  case Nil
  then show ?thesis
    by (simp add: read_retry.simps [of fd len s] sys_read_def data_only_def script_data_def)
next
  case (Cons a q)
  with assms obtain d where a: "a = RdData d" "d \<noteq> []" by (auto simp: data_only_def)
  show ?thesis
    using assms Cons a
    by (simp add: read_retry.simps [of fd len s] sys_read_def data_only_def script_data_def)
qed

lemma full_write_queue:
  assumes "writable (wr_q s fd)" and "off \<le> length buf"
  shows "writable (wr_q (snd (full_write_loop fd buf off s)) fd)"
  using assms
proof (induction fd buf off s rule: full_write_loop.induct)
  case (1 fd buf off s)
  show ?case
  proof (cases "off < length buf")
    case False
    with "1.prems" show ?thesis by (subst full_write_loop.simps) simp
  next
    case True
    obtain n s1 where w: "sys_write fd (drop off buf) s = (n, s1)" by force
    have "drop off buf \<noteq> []" using True by simp
    note g = sys_write_writable [OF w "1.prems"(1) this]
    have n: "n \<le> int (length buf - off)" using sys_write_frame [OF w] by auto
    from g consider (intr) "n < 0" "errno_of s1 = EINTR" | (pos) "n > 0" by blast
    then show ?thesis
    proof cases
      case intr
      with "1.IH"(1) [OF True w [symmetric] refl intr] g True w "1.prems"(2) show ?thesis
        by (simp add: full_write_loop.simps [of fd buf off s])
    next
      case pos
      have "off + nat n \<le> length buf" using n pos by linarith
      with "1.IH"(2) [OF True w [symmetric] refl] pos g True w show ?thesis
        by (simp add: full_write_loop.simps [of fd buf off s])
    qed
  qed
qed

lemma wcat_copy_stream_complete:
  assumes "st_tls src = None" and "st_tls dst = None"
    and "data_only (rd_q s (raw_fd src))" and "writable (wr_q s (write_fd dst))"
    and "sig_q s = []" and "\<not> wcat_stop s"
  shows "\<exists>s'. wcat_copy_stream src dst opts s = (0, s')
    \<and> sent s' (write_fd dst) = sent s (write_fd dst) @ script_data (rd_q s (raw_fd src))"
  using assms
proof (induction src dst opts s rule: wcat_copy_stream.induct)
  case (1 src dst opts s)
  have o: "observe_stop s = (False, s)" using "1.prems"(5,6) by (simp add: observe_stop_def)
  have len: "0 < WCAT_BUFSIZE" by (simp add: WCAT_BUFSIZE_def)
  from read_retry_data [OF "1.prems"(3) len] obtain b s1 where r: "read_retry (raw_fd src) WCAT_BUFSIZE s = (Some b, s1)"
    and s1: "data_only (rd_q s1 (raw_fd src))" "script_data (rd_q s (raw_fd src)) = b @ script_data (rd_q s1 (raw_fd src))"
      "b = [] \<longleftrightarrow> rd_q s (raw_fd src) = []" by blast
  note rf = read_retry_frame [OF r]
  define s2 where "s2 = (if opts \<noteq> None \<and> opt_hex (the opts) then wcat_hexdump ''copy'' b s1 else s1)"
  have s2: "wr_q s2 = wr_q s1" "rd_q s2 = rd_q s1" "sent s2 = sent s1" "sig_q s2 = sig_q s1" "wcat_stop s2 = wcat_stop s1"
    by (simp_all add: s2_def wcat_hexdump_def)
  have wq: "writable (wr_q s2 (write_fd dst))" using "1.prems"(4) rf s2 by simp
  from wcat_full_write_total [OF wq] obtain s3 where w: "wcat_full_write (write_fd dst) b s2 = (int (length b), s3)"
    "write_effect (write_fd dst) b s2 s3" by blast
  have pump: "pump_once src dst ''copy'' opts s = (if b = [] then (0, s1) else (1, s3))"
    using r w(1) "1.prems"(1,2) by (simp add: pump_once_def stream_read_def stream_write_def s2_def)
  note run = wcat_copy_stream.simps [of src dst opts s, unfolded o prod.case Let_def if_False pump]
  show ?case
  proof (cases "b = []")
    case True
    with run s1(3) rf show ?thesis by (simp add: script_data_def)
  next
    case False
    have p: "(1, s3) = pump_once src dst ''copy'' opts s" using pump False by simp
    have c: "data_only (rd_q s3 (raw_fd src))" "sig_q s3 = []" "\<not> wcat_stop s3"
      "writable (wr_q s3 (write_fd dst))"
      using w(2) s1(1) s2 rf "1.prems"(5,6) full_write_queue [OF wq, of 0 b] w(1)
      by (simp_all add: write_effect_def wcat_full_write_def)
    have "\<exists>s'. wcat_copy_stream src dst opts s3 = (0, s')
      \<and> sent s' (write_fd dst) = sent s3 (write_fd dst) @ script_data (rd_q s3 (raw_fd src))"
      by (rule "1.IH" [OF o [symmetric] refl _ p refl _ "1.prems"(1,2) c(1,4,2,3)]) simp_all
    then obtain s' where "wcat_copy_stream src dst opts s3 = (0, s')"
      "sent s' (write_fd dst) = sent s3 (write_fd dst) @ script_data (rd_q s3 (raw_fd src))" by blast
    with run False w(2) s2 rf s1(2) show ?thesis by (simp add: write_effect_def)
  qed
qed

section \<open>End of file, errors and timeouts\<close>

text \<open>Every read error but \<open>EINTR\<close> and \<open>EAGAIN\<close> is taken for the end of the stream.\<close>

lemma pump_once_read_error:
  assumes "st_tls src = None" and "rd_q s (raw_fd src) = RdErr e # q" and "e \<noteq> EINTR" and "e \<noteq> EAGAIN"
  shows "fst (pump_once src dst lb opts s) = 0"
  using assms by (simp add: pump_once_def stream_read_def read_retry.simps [of "raw_fd src"] sys_read_def)

lemma pump_once_tls_error:
  assumes "st_tls src = Some t" and "ssl_rd_q s (tfd t) = SslRdFatal # q"
  shows "fst (pump_once src dst lb opts s) = 0"
proof -
  have "ssl_rd_q (quic_handle_events t s) = ssl_rd_q s"
    by (simp add: quic_handle_events_def ssl_handle_events_def split: list.splits)
  with assms show ?thesis by (simp add: pump_once_def stream_read_def wcat_tls_read_def ssl_read_def)
qed

lemma sys_poll_idle:
  "poll_q s = PollReady (\<lambda>_. {}) # q \<Longrightarrow> sys_poll p s = (0, map (\<lambda>_. {}) p, s\<lparr>poll_q := q\<rparr>)"
  by (simp add: sys_poll_def poll_revents_def)

text \<open>Without TLS an idle wait ends the relay; with it only for a timeout of 0 to 50 ms.\<close>

lemma relay_poll_idle:
  assumes "poll_q s = PollReady (\<lambda>_. {}) # q"
  shows "relay_poll af bf tmo opts r s =
    (if (has_tick (sa r) \<or> has_tick (sb r)) \<and> (tmo < 0 \<or> 50 < tmo) then (None, r, s\<lparr>poll_q := q\<rparr>)
     else (Some 0, r, wcat_log WCAT_LOG_WARN ''timeout'' ''relay timed out'' (s\<lparr>poll_q := q\<rparr>)))"
  using sys_poll_idle [OF assms] by (auto simp: relay_poll_def poll_timeout_def)

text \<open>A condition that is neither input nor hang-up leaves the relay where it was.\<close>

lemma relay_poll_error_only:
  assumes "poll_q s = PollReady f # q" and "\<And>x. f x \<subseteq> {POLLERR, POLLNVAL}" and "f af \<noteq> {}"
    and "a_active r" and "0 \<le> af"
  shows "relay_poll af bf tmo opts r s = (None, r, s\<lparr>poll_q := q\<rparr>)"
proof -
  have e: "POLLIN \<notin> poll_revents f p" "POLLHUP \<notin> poll_revents f p" for p
    using assms(2) [of "fst p"] by (auto simp: poll_revents_def)
  have n: "poll_revents f (af, {POLLIN}) \<noteq> {}"
    using assms(2) [of af] assms(3,5) by (auto simp: poll_revents_def)
  have p: "sys_poll (relay_pollfds af bf r) s =
      (int (length (filter (\<lambda>x. x \<noteq> {}) (map (poll_revents f) (relay_pollfds af bf r)))),
       map (poll_revents f) (relay_pollfds af bf r), s\<lparr>poll_q := q\<rparr>)"
    by (simp add: sys_poll_def assms(1))
  have "0 < int (length (filter (\<lambda>x. x \<noteq> {}) (map (poll_revents f) (relay_pollfds af bf r))))"
    using n assms(4) by (simp add: relay_pollfds_def)
  then show ?thesis
    unfolding relay_poll_def p using n assms(4) by (simp add: e relay_pollfds_def)
qed

end
