(* ===== verification/Wcat_Frame.thy ===== *)
theory Wcat_Frame
  imports Wcat_Relay
begin

text \<open>
  What the relay and the TLS calls leave alone, for the modes of the program that open
  descriptors around them: which descriptors are open, the connections waiting to be accepted,
  the peers, the child processes and the mode of the terminal. A relay closes at most the write
  ends of streams that have a separate write end (\<open>closable\<close>).
\<close>

section \<open>The part of the state the relay does not use\<close>

definition rest_of ::
  "fd set \<Rightarrow> sys \<Rightarrow> fd list \<times> (fd \<Rightarrow> acc_ans list) \<times> (fd \<Rightarrow> peer) \<times> int list \<times> bool \<times> bool list" where
  "rest_of K s = (filter (\<lambda>f. f \<notin> K) (open_fds s), acc_q s, peer_of s, children s, term_raw s, term_q s)"

named_theorems rest \<open>calls that keep the rest of the state\<close>

lemma rest_fields:
  assumes "rest_of K s' = rest_of K s"
  shows "acc_q s' = acc_q s" "peer_of s' = peer_of s" "children s' = children s" "term_raw s' = term_raw s"
    "term_q s' = term_q s"
  using assms by (simp_all add: rest_of_def)

lemma rest_open: "rest_of {} s' = rest_of {} s \<Longrightarrow> open_fds s' = open_fds s"
  by (simp add: rest_of_def)

lemma rest_mono: "rest_of K s' = rest_of K s \<Longrightarrow> K \<subseteq> M \<Longrightarrow> rest_of M s' = rest_of M s"
proof -
  assume r: "rest_of K s' = rest_of K s" and m: "K \<subseteq> M"
  have e: "filter (\<lambda>f. f \<notin> M) xs = filter (\<lambda>f. f \<notin> M) (filter (\<lambda>f. f \<notin> K) xs)" for xs
    using m by (induction xs) auto
  have "filter (\<lambda>f. f \<notin> K) (open_fds s') = filter (\<lambda>f. f \<notin> K) (open_fds s)" using r by (simp add: rest_of_def)
  then have "filter (\<lambda>f. f \<notin> M) (open_fds s') = filter (\<lambda>f. f \<notin> M) (open_fds s)"
    using e [of "open_fds s'"] e [of "open_fds s"] by argo
  with r show ?thesis by (simp add: rest_of_def)
qed

lemma rest_log [rest]: "rest_of K (wcat_log lv ev m s) = rest_of K s"
  by (simp add: rest_of_def wcat_log_def Let_def)

lemma rest_log_errno [rest]: "rest_of K (wcat_log_errno ev m s) = rest_of K s"
  by (simp add: wcat_log_errno_def rest_log)

lemma rest_hexdump [rest]: "rest_of K (wcat_hexdump lb b s) = rest_of K s"
  by (simp add: rest_of_def wcat_hexdump_def)

lemma rest_errno [rest]: "rest_of K (s\<lparr>errno_of := e\<rparr>) = rest_of K s"
  by (simp add: rest_of_def)

lemma rest_read1: "sys_read fd len s = (r, s') \<Longrightarrow> rest_of K s' = rest_of K s"
  by (auto simp: sys_read_def rest_of_def split: list.splits rd_ans.splits)

lemma rest_read [rest]: "rest_of K (snd (read_retry fd len s)) = rest_of K s"
proof (induction fd len s rule: read_retry.induct)
  case (1 fd len s)
  obtain r1 s1 where r: "sys_read fd len s = (r1, s1)" by force
  with rest_read1 [OF r] "1.IH" [OF r [symmetric]] show ?case
    by (cases r1) (simp_all add: read_retry.simps [of fd len s])
qed

lemma rest_write1: "sys_write fd b s = (r, s') \<Longrightarrow> rest_of K s' = rest_of K s"
  by (auto simp: sys_write_def rest_of_def split: list.splits wr_ans.splits)

lemma rest_write_loop: "rest_of K (snd (full_write_loop fd buf off s)) = rest_of K s"
proof (induction fd buf off s rule: full_write_loop.induct)
  case (1 fd buf off s)
  obtain n s1 where w: "sys_write fd (drop off buf) s = (n, s1)" by force
  note u = full_write_loop.simps [of fd buf off s]
  show ?case
  proof (cases "off < length buf")
    case True
    with rest_write1 [OF w] "1.IH" [OF True w [symmetric] refl] w u show ?thesis by simp
  next
    case False
    with u show ?thesis by simp
  qed
qed

lemma rest_write [rest]: "rest_of K (snd (wcat_full_write fd buf s)) = rest_of K s"
  by (simp add: wcat_full_write_def rest_write_loop)

lemma rest_poll1: "sys_poll p s = (rc, evs, s') \<Longrightarrow> rest_of K s' = rest_of K s"
  by (auto simp: sys_poll_def rest_of_def Let_def split: list.splits poll_ans.splits)

lemma rest_poll [rest]: "rest_of K (snd (snd (sys_poll p s))) = rest_of K s"
  by (metis prod.collapse rest_poll1)

lemma rest_poll_retry [rest]: "rest_of K (snd (snd (poll_retry p s))) = rest_of K s"
proof (induction p s rule: poll_retry.induct)
  case (1 p s)
  obtain rc evs s1 where pl: "sys_poll [p] s = (rc, evs, s1)" using prod_cases3 by blast
  with rest_poll1 [OF pl] "1.IH" [OF pl [symmetric] refl refl] show ?case
    by (simp add: poll_retry.simps [of p s])
qed

lemma rest_stop: "observe_stop s = (b, s') \<Longrightarrow> rest_of K s' = rest_of K s"
  by (auto simp: observe_stop_def rest_of_def on_signal_def Let_def split: list.splits if_splits)

lemma rest_events [rest]: "rest_of K (quic_handle_events t s) = rest_of K s"
  by (simp add: quic_handle_events_def ssl_handle_events_def rest_of_def split: list.splits)

lemma rest_tls_call [rest]:
  "rest_of K (snd (ssl_handle_events s)) = rest_of K s" "rest_of K (snd (ssl_pending s)) = rest_of K s"
  "rest_of K (snd (ssl_finish s)) = rest_of K s" "rest_of K (snd (ssl_read fd n s)) = rest_of K s"
  "rest_of K (snd (ssl_write fd b s)) = rest_of K s" "rest_of K (snd (sys_shutdown_wr fd s)) = rest_of K s"
  "rest_of K (snd (ssl_call s)) = rest_of K s" "rest_of K (snd (ssl_verify s)) = rest_of K s"
  "rest_of K (snd (ssl_error_text s)) = rest_of K s"
  by (auto simp: ssl_handle_events_def ssl_pending_def ssl_finish_def ssl_read_def ssl_write_def
      sys_shutdown_wr_def ssl_call_def ssl_verify_def ssl_error_text_def rest_of_def
      split: list.splits ssl_rd.splits ssl_wr.splits option.splits)

lemma filter_removeAll: "fd \<in> K \<Longrightarrow> filter (\<lambda>f. f \<notin> K) (removeAll fd xs) = filter (\<lambda>f. f \<notin> K) xs"
  by (induction xs) auto

lemma rest_close_loop: "fd \<in> K \<Longrightarrow> rest_of K (close_loop fd s) = rest_of K s"
proof (induction fd s rule: close_loop.induct)
  case (1 fd s)
  obtain n s1 where c: "sys_close fd s = (n, s1)" by force
  have "rest_of K s1 = rest_of K s"
    using c "1.prems"
    by (auto simp: sys_close_def rest_of_def Let_def filter_removeAll
        split: if_splits list.splits option.splits)
  with c "1.IH" [OF c [symmetric] refl _ "1.prems"] show ?case by (simp add: close_loop.simps [of fd s])
qed

lemma rest_close: "fd \<in> K \<Longrightarrow> rest_of K (close_quiet fd s) = rest_of K s"
  by (simp add: wcat_close_quiet_def rest_close_loop)

section \<open>The relay\<close>

lemma rest_tls_read [rest]: "rest_of K (snd (wcat_tls_read t len s)) = rest_of K s"
proof -
  obtain a s1 where r: "ssl_read (tfd t) len (quic_handle_events t s) = (a, s1)" by force
  then have "rest_of K s1 = rest_of K s" by (metis rest_events rest_tls_call(4) snd_conv)
  with r show ?thesis by (cases a) (simp_all add: wcat_tls_read_def rest)
qed

lemma rest_tls_write_loop: "rest_of K (snd (tls_write_loop t buf off s)) = rest_of K s"
proof (induction t buf off s rule: tls_write_loop.induct)
  case (1 t buf off s)
  show ?case
  proof (cases "off < length buf")
    case False
    then show ?thesis by (simp add: tls_write_loop.simps [of t buf off s] rest)
  next
    case True
    obtain a s1 where w: "ssl_write (tfd t) (drop off buf) (quic_handle_events t s) = (a, s1)" by force
    then have r1: "rest_of K s1 = rest_of K s" by (metis rest_events rest_tls_call(5) snd_conv)
    note u = tls_write_loop.simps [of t buf off s]
    show ?thesis
    proof (cases a)
      case (SslWrote k)
      with "1.IH"(1) [OF True w [symmetric] SslWrote] u w True r1 show ?thesis by (simp add: rest)
    next
      case (SslWrWant w')
      obtain prc evs s2 where p: "poll_retry (tfd t, want_events w') (quic_handle_events t s1) = (prc, evs, s2)"
        using prod_cases3 by blast
      then have "rest_of K s2 = rest_of K s" using r1 by (metis rest_events rest_poll_retry snd_conv)
      with "1.IH"(2) [OF True w [symmetric] SslWrWant p [symmetric] refl] u w True p SslWrWant show ?thesis by simp
    next
      case SslWrFatal
      with u w True r1 show ?thesis by simp
    qed
  qed
qed

lemma rest_tls_write [rest]: "rest_of K (snd (wcat_tls_write t buf s)) = rest_of K s"
  by (simp add: wcat_tls_write_def rest_tls_write_loop)

lemma rest_stream_io [rest]:
  "rest_of K (snd (stream_read st len s)) = rest_of K s" "rest_of K (snd (stream_write st b s)) = rest_of K s"
  "rest_of K (snd (stream_tick st s)) = rest_of K s" "rest_of K (snd (stream_pending st s)) = rest_of K s"
  by (simp_all add: stream_read_def stream_write_def stream_tick_def stream_pending_def wcat_tls_tick_def
      wcat_tls_pending_def case_prod_unfold Let_def rest split: option.splits)

lemma rest_pump [rest]: "rest_of K (snd (pump_once src dst lb opts s)) = rest_of K s"
proof -
  obtain r s1 where r: "stream_read src WCAT_BUFSIZE s = (r, s1)" by force
  then have "rest_of K s1 = rest_of K s" by (metis rest_stream_io(1) snd_conv)
  with r show ?thesis by (cases r) (simp_all add: pump_once_def case_prod_unfold Let_def rest)
qed

lemma rest_conclude [rest]: "rest_of K (snd (quic_conclude t s)) = rest_of K s"
proof (induction t s rule: quic_conclude.induct)
  case (1 t s)
  obtain stop s0 where o: "observe_stop s = (stop, s0)" by force
  obtain a s1 where f: "ssl_finish (quic_handle_events t s0) = (a, s1)" by force
  have r1: "rest_of K s1 = rest_of K s" using f rest_stop [OF o] by (metis rest_events rest_tls_call(3) snd_conv)
  show ?case
  proof (cases "stop \<or> (\<forall>w. a \<noteq> SslEndWant w)")
    case True
    with o f r1 rest_stop [OF o] show ?thesis by (cases a) (auto simp: quic_conclude.simps [of t s])
  next
    case False
    then obtain w where w: "\<not> stop" "a = SslEndWant w" by auto
    obtain prc evs s2 where p: "poll_retry (tfd t, want_events w) s1 = (prc, evs, s2)" using prod_cases3 by blast
    then have "rest_of K s2 = rest_of K s" using r1 by (metis rest_poll_retry snd_conv)
    with "1.IH" [OF o [symmetric] refl w(1) f [symmetric] w(2) p [symmetric] refl refl] o f w p show ?thesis
      by (simp add: quic_conclude.simps [of t s])
  qed
qed

text \<open>The descriptors a stream may close when its peer ends: a write end of its own.\<close>

definition closable :: "wcat_stream \<Rightarrow> fd set" where
  "closable st = (if st_tls st = None \<and> can_close_write st \<and> 0 \<le> write_fd st \<and> write_fd st \<noteq> raw_fd st
                  then {write_fd st} else {})"

lemma rest_shutdown:
  assumes "stream_shutdown_write st s = (st', s')" and "closable st \<subseteq> K"
  shows "rest_of K s' = rest_of K s" and "closable st' \<subseteq> K"
proof -
  have "rest_of K s' = rest_of K s \<and> closable st' \<subseteq> K"
  proof (cases "st_tls st")
    case None
    consider (no) "\<not> can_close_write st \<or> write_fd st < 0" | (same) "can_close_write st" "0 \<le> write_fd st" "write_fd st = raw_fd st"
      | (pair) "can_close_write st" "0 \<le> write_fd st" "write_fd st \<noteq> raw_fd st" by linarith
    then show ?thesis
    proof cases
      case pair
      then have "write_fd st \<in> K" using assms(2) None by (simp add: closable_def)
      with assms pair None show ?thesis
        by (auto simp: stream_shutdown_write_def fd_shutdown_write_def closable_def rest_close)
    qed (use assms None in \<open>auto simp: stream_shutdown_write_def fd_shutdown_write_def case_prod_unfold Let_def rest\<close>)
  next
    case (Some t)
    have "rest_of K (snd (wcat_tls_shutdown_write t s)) = rest_of K s"
      by (simp add: wcat_tls_shutdown_write_def rest case_prod_unfold split: ssl_end.splits)
    with assms Some show ?thesis by (auto simp: stream_shutdown_write_def)
  qed
  then show "rest_of K s' = rest_of K s" "closable st' \<subseteq> K" by simp_all
qed

lemma rest_pump_ab:
  assumes "pump_ab lb opts r s = (res, r', s')" and "closable (sa r) \<subseteq> K" and "closable (sb r) \<subseteq> K"
  shows "rest_of K s' = rest_of K s \<and> closable (sa r') \<subseteq> K \<and> closable (sb r') \<subseteq> K"
proof -
  obtain rc s1 where p: "pump_once (sa r) (sb r) lb opts s = (rc, s1)" by force
  then have r1: "rest_of K s1 = rest_of K s" by (metis rest_pump snd_conv)
  obtain b' s2 where sh: "stream_shutdown_write (sb r) s1 = (b', s2)" by force
  note rs = rest_shutdown [OF sh assms(3)]
  consider "rc < 0" | "rc = 0" "close_on_eof (sa r)" | "rc = 0" "\<not> close_on_eof (sa r)" | "0 < rc" by linarith
  then show ?thesis
    by cases (use assms p sh r1 rs in \<open>auto simp: pump_ab_def\<close>)
qed

lemma rest_pump_ba:
  assumes "pump_ba lb opts r s = (res, r', s')" and "closable (sa r) \<subseteq> K" and "closable (sb r) \<subseteq> K"
  shows "rest_of K s' = rest_of K s \<and> closable (sa r') \<subseteq> K \<and> closable (sb r') \<subseteq> K"
proof -
  obtain res1 r1 s1 where p: "pump_ab lb opts (flip_relay r) s = (res1, r1, s1)" using prod_cases3 by blast
  with assms(1) have "s' = s1" "r' = flip_relay r1" by (auto simp: pump_ba_def)
  with rest_pump_ab [OF p] assms(2,3) show ?thesis by (simp add: flip_relay_def)
qed

lemma rest_relay_poll:
  assumes "relay_poll af bf tmo opts r s = (res, r', s')" and "closable (sa r) \<subseteq> K" and "closable (sb r) \<subseteq> K"
  shows "rest_of K s' = rest_of K s \<and> closable (sa r') \<subseteq> K \<and> closable (sb r') \<subseteq> K"
proof -
  obtain rc evs s1 where p: "sys_poll (relay_pollfds af bf r) s = (rc, evs, s1)" using prod_cases3 by blast
  note r1 = rest_poll1 [OF p, of K]
  obtain res2 r2 s2 where a: "(if POLLIN \<in> evs ! 0 \<or> POLLHUP \<in> evs ! 0 then pump_ab ''a>b'' opts r s1
      else (None, r, s1)) = (res2, r2, s2)" using prod_cases3 by blast
  have 2: "rest_of K s2 = rest_of K s \<and> closable (sa r2) \<subseteq> K \<and> closable (sb r2) \<subseteq> K"
  proof (cases "POLLIN \<in> evs ! 0 \<or> POLLHUP \<in> evs ! 0")
    case True
    with a have "pump_ab ''a>b'' opts r s1 = (res2, r2, s2)" by simp
    from rest_pump_ab [OF this assms(2,3)] r1 show ?thesis by simp
  next
    case False
    with a r1 assms(2,3) show ?thesis by auto
  qed
  obtain res3 r3 s3 where b: "pump_ba ''b>a'' opts r2 s2 = (res3, r3, s3)" using prod_cases3 by blast
  have 3: "rest_of K s3 = rest_of K s \<and> closable (sa r3) \<subseteq> K \<and> closable (sb r3) \<subseteq> K"
    using rest_pump_ba [OF b] 2 by simp
  show ?thesis
    using assms p a b r1 2 3 unfolding relay_poll_def by (auto simp: rest Let_def split: if_splits)
qed

lemma rest_relay_pass:
  assumes "relay_pass af bf tmo opts r s = (res, r', s')" and "closable (sa r) \<subseteq> K" and "closable (sb r) \<subseteq> K"
  shows "rest_of K s' = rest_of K s \<and> closable (sa r') \<subseteq> K \<and> closable (sb r') \<subseteq> K"
proof -
  obtain ta s1 where 1: "stream_tick (sa r) s = (ta, s1)" by force
  then have r1: "rest_of K s1 = rest_of K s" by (metis rest_stream_io(3) snd_conv)
  obtain tb s2 where 2: "stream_tick (sb r) s1 = (tb, s2)" by force
  then have r2: "rest_of K s2 = rest_of K s" using r1 by (metis rest_stream_io(3) snd_conv)
  obtain pa s3 where 3: "(if a_active r then stream_pending (sa r) s2 else (False, s2)) = (pa, s3)" by force
  then have r3: "rest_of K s3 = rest_of K s" using r2 by (metis rest_stream_io(4) snd_conv)
  obtain pb s4 where 4: "(if b_active r then stream_pending (sb r) s3 else (False, s3)) = (pb, s4)" by force
  then have r4: "rest_of K s4 = rest_of K s" using r3 by (metis rest_stream_io(4) snd_conv)
  note run = assms(1) [unfolded relay_pass_def Let_def 1 2 3 4 prod.case]
  consider "ta < 0" | "0 \<le> ta" "tb < 0" | "0 \<le> ta" "0 \<le> tb" "pa" | "0 \<le> ta" "0 \<le> tb" "\<not> pa" "pb"
    | "0 \<le> ta" "0 \<le> tb" "\<not> pa" "\<not> pb" by linarith
  then show ?thesis
  proof cases
    case 3
    with run have "pump_ab ''a>b'' opts r s3 = (res, r', s')" by simp
    from rest_pump_ab [OF this assms(2,3)] r3 show ?thesis by simp
  next
    case 4
    with run have "pump_ba ''b>a'' opts r s4 = (res, r', s')" by simp
    from rest_pump_ba [OF this assms(2,3)] r4 show ?thesis by simp
  next
    case 5
    with run have "relay_poll af bf tmo opts r s4 = (res, r', s')" by simp
    from rest_relay_poll [OF this assms(2,3)] r4 show ?thesis by simp
  qed (use run r1 r2 assms(2,3) in auto)
qed

lemma rest_relay_loop:
  "relay_loop af bf tmo opts r s = (rc, r', s') \<Longrightarrow> closable (sa r) \<subseteq> K \<Longrightarrow> closable (sb r) \<subseteq> K \<Longrightarrow>
     rest_of K s' = rest_of K s"
proof (induction af bf tmo opts r s rule: relay_loop.induct)
  case (1 af bf tmo opts r s)
  obtain stop s0 where o: "observe_stop s = (stop, s0)" by force
  obtain res r1 s1 where p: "relay_pass af bf tmo opts r s0 = (res, r1, s1)" using prod_cases3 by blast
  note rp = rest_relay_pass [OF p "1.prems"(2,3)] rest_stop [OF o, of K]
  note run = "1.prems"(1) [unfolded relay_loop.simps [of af bf tmo opts r s] o prod.case Let_def p]
  show ?case
  proof (cases "stop \<or> \<not> (a_active r \<or> b_active r)")
    case True
    with run rp show ?thesis by auto
  next
    case False
    show ?thesis
    proof (cases res)
      case None
      with run False have "relay_loop af bf tmo opts r1 s1 = (rc, r', s')" by auto
      with "1.IH" [OF o [symmetric] refl False p [symmetric] refl refl None] rp show ?thesis by simp
    next
      case (Some x)
      with run False rp show ?thesis by auto
    qed
  qed
qed

lemma wcat_relay_bidirectional_rest:
  "closable a \<union> closable b \<subseteq> K \<Longrightarrow> rest_of K (snd (snd (wcat_relay_bidirectional a b opts s))) = rest_of K s"
  using rest_relay_loop [where K = K and s = s and r = "\<lparr>sa = a, sb = b, a_active = True, b_active = True\<rparr>"]
  unfolding wcat_relay_bidirectional_def by (metis (no_types, lifting) Un_subset_iff prod.collapse relay.select_convs(1,2))

lemma wcat_copy_stream_rest [rest]: "rest_of K (snd (wcat_copy_stream src dst opts s)) = rest_of K s"
proof (induction src dst opts s rule: wcat_copy_stream.induct)
  case (1 src dst opts s)
  obtain stop s0 where o: "observe_stop s = (stop, s0)" by force
  obtain rc s1 where p: "pump_once src dst ''copy'' opts s0 = (rc, s1)" by force
  then have r: "rest_of K s1 = rest_of K s" using rest_stop [OF o] by (metis rest_pump snd_conv)
  with o p rest_stop [OF o] "1.IH" [OF o [symmetric] refl _ p [symmetric] refl] show ?case
    by (cases "stop \<or> rc \<le> 0") (auto simp: wcat_copy_stream.simps [of src dst opts s])
qed

end
