(* ===== verification/Wcat_Proxy.thy ===== *)
theory Wcat_Proxy
  imports Wcat_Frame "HOL-Library.Multiset"
begin

text \<open>
  src/proxy.c: connecting through a SOCKS5 or HTTP CONNECT proxy, and the HTTP CONNECT proxy
  server. The reply buffer of the SOCKS5 negotiation has ten bytes; \<open>Overrun\<close> says that a reply
  has been stored beyond its end, which is where the program stops having a meaning.
\<close>

section \<open>Definitions\<close>

datatype 'a run = Ret 'a | Overrun

datatype wcat_proxy_type = WCAT_PROXY_NONE | WCAT_PROXY_SOCKS5 | WCAT_PROXY_HTTP

record wcat_proxy =
  proxy_type :: wcat_proxy_type
  proxy_host :: string
  proxy_port :: string

definition no_proxy :: wcat_proxy where
  "no_proxy = \<lparr>proxy_type = WCAT_PROXY_NONE, proxy_host = [], proxy_port = []\<rparr>"

text \<open>The host and the port, which fit buffers of the given sizes; \<open>None\<close> is -1.\<close>

definition split_host_port :: "string \<Rightarrow> nat \<Rightarrow> nat \<Rightarrow> (string \<times> string) option" where
  "split_host_port t host_len port_len =
     (case split_last (CHR '':'') t of
        None \<Rightarrow> None
      | Some (h, p) \<Rightarrow>
          if h = [] \<or> p = [] then None
          else if length h \<ge> host_len \<or> length p \<ge> port_len then None
          else if wcat_parse_port (Some p) > 0 then Some (h, p) else None)"

definition wcat_proxy_parse :: "cstr \<Rightarrow> wcat_proxy option" where
  "wcat_proxy_parse url =
     (case url of
        None \<Rightarrow> Some no_proxy
      | Some u \<Rightarrow>
          if u = [] then Some no_proxy
          else let (t, rest) = (if prefix ''socks5://'' u then (WCAT_PROXY_SOCKS5, drop 9 u)
                                else if prefix ''http://'' u then (WCAT_PROXY_HTTP, drop 7 u)
                                else (WCAT_PROXY_NONE, []))
               in if t = WCAT_PROXY_NONE then None
                  else map_option (\<lambda>(h, p). \<lparr>proxy_type = t, proxy_host = h, proxy_port = p\<rparr>)
                         (split_host_port rest 256 16))"

text \<open>The result and the bytes that have been stored, with a failure too.\<close>

lemma sys_read_queue: "sys_read fd len s = (r, s') \<Longrightarrow> length (rd_q s' fd) \<le> length (rd_q s fd)"
  by (auto simp: sys_read_def split: list.splits rd_ans.splits)

lemma shorter_rest: "b \<noteq> [] \<Longrightarrow> length buf < len \<Longrightarrow> len - length (buf @ b) < len - length buf"
  by (cases b) auto

function read_exact :: "fd \<Rightarrow> nat \<Rightarrow> bytes \<Rightarrow> sys \<Rightarrow> int \<times> bytes \<times> sys" where
  "read_exact fd len buf s =
     (if length buf < len
      then case sys_read fd (len - length buf) s of
             (None, s') \<Rightarrow> if errno_of s' = EINTR then read_exact fd len buf s' else (- 1, buf, s')
           | (Some b, s') \<Rightarrow> if b = [] then (- 1, buf, s') else read_exact fd len (buf @ b) s'
      else (0, buf, s))"
  by pat_completeness auto
termination
proof (relation "measure (\<lambda>(fd, len, buf, s). len - length buf + length (rd_q s fd))", goal_cases)
  case 1
  show ?case by simp
next
  case (2 fd len buf s x s')
  with sys_read_None [of fd "len - length buf" s s'] show ?case by simp
next
  case (3 fd len buf s x s' b)
  then have "len - length (buf @ b) < len - length buf" by (intro shorter_rest)
  moreover have "length (rd_q s' fd) \<le> length (rd_q s fd)"
    using 3 sys_read_queue [of fd "len - length buf" s "Some b" s'] by simp
  ultimately show ?case by simp
qed

declare read_exact.simps [simp del]

definition socks5_hello :: bytes where
  "socks5_hello = [CHR 0x05, CHR 0x01, CHR 0x00]"

definition socks5_request :: "string \<Rightarrow> int \<Rightarrow> bytes" where
  "socks5_request dst_host p =
     [CHR 0x05, CHR 0x01, CHR 0x00, CHR 0x03, char_of (length dst_host)] @ dst_host
     @ [char_of (nat (p div 256)), char_of (nat (p mod 256))]"

text \<open>The rest of the reply, by the type of the address in it.\<close>

definition REP_SIZE :: nat where "REP_SIZE = 10"

definition socks5_reply_tail :: "fd \<Rightarrow> char \<Rightarrow> sys \<Rightarrow> int run \<times> sys" where
  "socks5_reply_tail fd atyp s =
     (if atyp = CHR 0x01 then (let (rc, b, s1) = read_exact fd 6 [] s in (Ret rc, s1))
      else if atyp = CHR 0x03
      then (let (rc, b, s1) = read_exact fd 1 [] s
            in if rc < 0 then (Ret (- 1), s1)
               else let (rc2, b2, s2) = read_exact fd (code (b ! 0) + 2) [] s1
                    in (if length b2 > REP_SIZE then Overrun else Ret rc2, s2))
      else if atyp = CHR 0x04
      then (let (rc, b, s1) = read_exact fd 18 [] s in (if length b > REP_SIZE then Overrun else Ret rc, s1))
      else (Ret (- 1), wcat_log WCAT_LOG_ERROR ''proxy''
              (''SOCKS5 connect reply used unsupported address type 0x'' @ hex_pad 2 (code atyp)) s))"

definition socks5_negotiate :: "fd \<Rightarrow> string \<Rightarrow> string \<Rightarrow> sys \<Rightarrow> int run \<times> sys" where
  "socks5_negotiate fd dst_host dst_port s =
     (let p = wcat_parse_port (Some dst_port)
      in if length dst_host > 255 \<or> p < 0
         then (Ret (- 1), (wcat_log WCAT_LOG_ERROR ''proxy'' ''SOCKS5 target host or port is invalid'' s)\<lparr>errno_of := EINVAL\<rparr>)
         else let (n, s1) = wcat_full_write fd socks5_hello s;
                  (rc, rep, s2) = (if n \<noteq> 3 then (- 1, [], s1) else read_exact fd 2 [] s1)
              in if n \<noteq> 3 \<or> rc < 0 \<or> rep ! 0 \<noteq> CHR 0x05 \<or> rep ! 1 \<noteq> CHR 0x00
                 then (Ret (- 1), wcat_log WCAT_LOG_ERROR ''proxy'' ''SOCKS5 server rejected no-auth negotiation'' s2)
                 else let (n2, s3) = wcat_full_write fd (socks5_request dst_host p) s2
                      in if n2 \<noteq> int (7 + length dst_host)
                         then (Ret (- 1), wcat_log WCAT_LOG_ERROR ''proxy'' ''SOCKS5 connect request write failed'' s3)
                         else let (rc2, b2, s4) = read_exact fd 4 [] s3; rep2 = b2 @ drop (length b2) rep
                              in if rep2 ! 1 \<noteq> CHR 0x00
                                 then (Ret (- 1), wcat_log WCAT_LOG_ERROR ''proxy''
                                         (''SOCKS5 connect failed with reply code 0x'' @ hex_pad 2 (code (rep2 ! 1))) s4)
                                 else if rc2 < 0
                                 then (Ret (- 1), wcat_log WCAT_LOG_ERROR ''proxy'' ''SOCKS5 connect reply read failed'' s4)
                                 else socks5_reply_tail fd (rep2 ! 3) s4)"

definition crlf :: string where "crlf = [CHR 0x0D, CHR 0x0A]"

definition http_connect_request :: "string \<Rightarrow> string \<Rightarrow> string" where
  "http_connect_request h p =
     ''CONNECT '' @ h @ '':'' @ p @ '' HTTP/1.1'' @ crlf @ ''Host: '' @ h @ '':'' @ p @ crlf
     @ ''User-Agent: wcat/0.1'' @ crlf @ crlf"

text \<open>The response is read byte by byte; the buffer is searched as a C string.\<close>

function http_response_loop :: "fd \<Rightarrow> bytes \<Rightarrow> sys \<Rightarrow> bytes option \<times> sys" where
  "http_response_loop fd buf s =
     (if length buf + 1 < 1024
      then case sys_read fd 1 s of
             (None, s') \<Rightarrow> (None, s')
           | (Some b, s') \<Rightarrow>
               if b = [] then (None, s')
               else if contains (crlf @ crlf) (c_string (buf @ b)) then (Some (buf @ b), s')
               else http_response_loop fd (buf @ b) s'
      else (Some buf, s))"
  by pat_completeness auto
termination
proof (relation "measure (\<lambda>(fd, buf, s). 1024 - length buf)", goal_cases)
  case 1
  show ?case by simp
next
  case (2 fd buf s x s' b)
  then have "1024 - length (buf @ b) < 1024 - length buf" by (intro shorter_rest) simp_all
  then show ?case by simp
qed

declare http_response_loop.simps [simp del]

definition http_connect_negotiate :: "fd \<Rightarrow> string \<Rightarrow> string \<Rightarrow> sys \<Rightarrow> int \<times> sys" where
  "http_connect_negotiate fd dst_host dst_port s =
     (let req = http_connect_request dst_host dst_port
      in if length req \<ge> 512
         then (- 1, (wcat_log WCAT_LOG_ERROR ''proxy'' ''HTTP CONNECT request is too large'' s)\<lparr>errno_of := EINVAL\<rparr>)
         else let (n, s1) = wcat_full_write fd req s
              in if n \<noteq> int (length req)
                 then (- 1, wcat_log WCAT_LOG_ERROR ''proxy'' ''HTTP CONNECT request write failed'' s1)
                 else case http_response_loop fd [] s1 of
                        (None, s2) \<Rightarrow> (- 1, wcat_log WCAT_LOG_ERROR ''proxy'' ''HTTP CONNECT response read failed'' s2)
                      | (Some buf, s2) \<Rightarrow>
                          if \<not> contains '' 200 '' (c_string buf)
                          then (- 1, wcat_log WCAT_LOG_ERROR ''proxy'' ''HTTP CONNECT proxy did not return status 200'' s2)
                          else (0, s2))"

definition proxy_negotiate :: "wcat_proxy_type \<Rightarrow> fd \<Rightarrow> string \<Rightarrow> string \<Rightarrow> sys \<Rightarrow> int run \<times> sys" where
  "proxy_negotiate t fd dst_host dst_port s =
     (if t = WCAT_PROXY_SOCKS5 then socks5_negotiate fd dst_host dst_port s
      else let (rc, s') = http_connect_negotiate fd dst_host dst_port s in (Ret rc, s'))"

definition wcat_proxy_connect ::
  "wcat_proxy option \<Rightarrow> cstr \<Rightarrow> cstr \<Rightarrow> af \<Rightarrow> int \<Rightarrow> sys \<Rightarrow> int run \<times> sys" where
  "wcat_proxy_connect proxy dst_host dst_port fam timeout s =
     (if proxy = None \<or> proxy_type (the proxy) = WCAT_PROXY_NONE
      then (let (fd, s1) = wcat_tcp_connect dst_host dst_port fam timeout s in (Ret fd, s1))
      else let (fd, s1) = wcat_tcp_connect (Some (proxy_host (the proxy))) (Some (proxy_port (the proxy))) fam timeout s
           in if fd < 0 then (Ret (- 1), s1)
              else let (r, s2) = proxy_negotiate (proxy_type (the proxy)) fd (the dst_host) (the dst_port) s1
                   in if r = Overrun then (Overrun, s2)
                      else if r = Ret 0 then (Ret fd, s2)
                      else let (r', s3) = wcat_close_quiet fd
                                 (wcat_log WCAT_LOG_ERROR ''proxy'' ''proxy negotiation failed'' s2)
                           in (Ret r', s3))"

section \<open>The proxy server\<close>

function read_http_header :: "fd \<Rightarrow> nat \<Rightarrow> bytes \<Rightarrow> sys \<Rightarrow> bytes option \<times> sys" where
  "read_http_header fd len buf s =
     (if length buf + 1 < len
      then case sys_read fd 1 s of
             (None, s') \<Rightarrow> if errno_of s' = EINTR then read_http_header fd len buf s' else (None, s')
           | (Some b, s') \<Rightarrow>
               if b = [] then (None, s')
               else if contains (crlf @ crlf) (c_string (buf @ b)) then (Some (buf @ b), s')
               else read_http_header fd len (buf @ b) s'
      else (None, s\<lparr>errno_of := EMSGSIZE\<rparr>))"
  by pat_completeness auto
termination
proof (relation "measure (\<lambda>(fd, len, buf, s). len - length buf + length (rd_q s fd))", goal_cases)
  case 1
  show ?case by simp
next
  case (2 fd len buf s x s')
  with sys_read_None [of fd 1 s s'] show ?case by simp
next
  case (3 fd len buf s x s' b)
  then have "len - length (buf @ b) < len - length buf" by (intro shorter_rest) simp_all
  moreover have "length (rd_q s' fd) \<le> length (rd_q s fd)"
    using 3 sys_read_queue [of fd 1 s "Some b" s'] by simp
  ultimately show ?case by simp
qed

declare read_http_header.simps [simp del]

definition parse_connect_request :: "string \<Rightarrow> nat \<Rightarrow> nat \<Rightarrow> (string \<times> string) option" where
  "parse_connect_request buf host_len port_len =
     (if \<not> prefix ''CONNECT '' buf then None
      else case split_first (CHR '' '') (drop 8 buf) of
             None \<Rightarrow> None
           | Some (target, _) \<Rightarrow>
               if target = [] \<or> length target \<ge> 512 then None
               else split_host_port target host_len port_len)"

definition write_proxy_response :: "fd \<Rightarrow> nat \<Rightarrow> string \<Rightarrow> sys \<Rightarrow> int \<times> sys" where
  "write_proxy_response fd status text s =
     (let buf = ''HTTP/1.1 '' @ dec_string status @ '' '' @ text @ crlf @ crlf
      in if length buf \<ge> 128 then (- 1, s\<lparr>errno_of := EINVAL\<rparr>)
         else let (n, s1) = wcat_full_write fd buf s
              in (if n = int (length buf) then 0 else - 1, s1))"

definition proxy_relay :: "wcat_config \<Rightarrow> fd \<Rightarrow> fd \<Rightarrow> sys \<Rightarrow> int \<times> sys" where
  "proxy_relay cfg client upstream s =
     (let a = (wcat_stream_from_fd client ''proxy-client'')\<lparr>close_on_eof := False\<rparr>;
          b = wcat_stream_from_fd upstream ''proxy-upstream'';
          (rc, _, s1) = wcat_relay_bidirectional a b (Some \<lparr>opt_timeout = timeout_ms cfg, opt_hex = hex cfg\<rparr>) s
      in (if rc < 0 then 1 else 0, close_quiet upstream s1))"

definition serve_proxy_client :: "wcat_config \<Rightarrow> fd \<Rightarrow> sys \<Rightarrow> int \<times> sys" where
  "serve_proxy_client cfg client s =
     (let (req, s1) = read_http_header client 4096 [] s;
          target = (case req of None \<Rightarrow> None | Some buf \<Rightarrow> parse_connect_request (c_string buf) 256 32)
      in case target of
           None \<Rightarrow> (1, snd (write_proxy_response client 400 ''Bad Request'' s1))
         | Some (h, p) \<Rightarrow>
             let (upstream, s2) = wcat_tcp_connect (Some h) (Some p) (family cfg) (timeout_ms cfg) s1
             in if upstream < 0
                then (1, wcat_log_errno ''proxy_connect'' ''proxy upstream connect failed''
                           (snd (write_proxy_response client 502 ''Bad Gateway'' s2)))
                else let (w, s3) = write_proxy_response client 200 ''Connection Established'' s2
                     in if w < 0 then (1, close_quiet upstream s3)
                        else proxy_relay cfg client upstream
                               (wcat_log WCAT_LOG_INFO ''proxy_connect''
                                  (''proxy CONNECT '' @ h @ '':'' @ p) s3))"

section \<open>What a new descriptor leaves alone\<close>

text \<open>
  The contract of everything that opens a connection: a fresh descriptor and nothing else, or -1
  and nothing at all. An \<open>Overrun\<close> has no contract.
\<close>

definition makes_fd :: "sys \<Rightarrow> int \<Rightarrow> sys \<Rightarrow> bool" where
  "makes_fd s r s' \<longleftrightarrow>
     r = - 1 \<and> rest_of {} s' = rest_of {} s
     \<or> 0 \<le> r \<and> r \<notin> set (open_fds s) \<and> open_fds s' = open_fds s @ [r] \<and> rest_of {r} s' = rest_of {r} s"

lemma new_socket_makes_fd: "new_socket s r s' \<Longrightarrow> makes_fd s r s'"
  by (auto simp: new_socket_def sock_frame_def makes_fd_def rest_of_def)

lemma makes_fd_cases:
  assumes "makes_fd s r s'"
  obtains (failed) "r = - 1" "rest_of {} s' = rest_of {} s"
    | (fresh) "0 \<le> r" "r \<notin> set (open_fds s)" "open_fds s' = open_fds s @ [r]" "rest_of {r} s' = rest_of {r} s"
  using assms by (auto simp: makes_fd_def)

text \<open>Closing a descriptor that was made, after work that left the rest alone.\<close>

lemma filter_not_eq_id: "x \<notin> set xs \<Longrightarrow> filter (\<lambda>f. f \<noteq> x) xs = xs"
  by (induction xs) auto

lemma makes_fd_close:
  assumes "makes_fd s r s1" and "0 \<le> r" and "rest_of {r} s2 = rest_of {r} s1"
  shows "rest_of {} (close_quiet r s2) = rest_of {} s"
proof -
  from assms(1,2) have m: "r \<notin> set (open_fds s)" "open_fds s1 = open_fds s @ [r]" "rest_of {r} s1 = rest_of {r} s"
    by (auto elim: makes_fd_cases)
  have "filter (\<lambda>f. f \<noteq> r) (open_fds s2) = filter (\<lambda>f. f \<noteq> r) (open_fds s)"
    using assms(3) m(3) by (simp add: rest_of_def)
  then have "open_fds (close_quiet r s2) = open_fds s"
    using assms(2) m(1) by (simp add: removeAll_filter_not_eq filter_not_eq_id eq_commute)
  then show ?thesis using assms(3) m(3) by (simp add: rest_of_def)
qed

locale fd_maker =
  fixes make :: "sys \<Rightarrow> int run \<times> sys"
  assumes make_fd: "make s = (Ret r, s') \<Longrightarrow> makes_fd s r s'"
begin

lemma make_range: "make s = (Ret r, s') \<Longrightarrow> r < 0 \<Longrightarrow> r = - 1 \<and> rest_of {} s' = rest_of {} s"
  using make_fd [of s r s'] by (auto simp: makes_fd_def)

lemma make_close:
  assumes "make s = (Ret r, s1)" and "0 \<le> r" and "rest_of {r} s2 = rest_of {r} s1"
  shows "rest_of {} (close_quiet r s2) = rest_of {} s"
  using makes_fd_close [OF make_fd [OF assms(1)] assms(2,3)] .

end

text \<open>Every socket function is such a maker.\<close>

sublocale socket_maker \<subseteq> plain: fd_maker "\<lambda>s. (Ret (fst (make s)), snd (make s))"
  by unfold_locales (auto intro!: new_socket_makes_fd make_new simp: prod_eq_iff)

section \<open>Negotiations only read and write\<close>

lemma rest_read_exact [rest]: "rest_of K (snd (snd (read_exact fd len buf s))) = rest_of K s"
proof (induction fd len buf s rule: read_exact.induct)
  case (1 fd len buf s)
  note u = read_exact.simps [of fd len buf s]
  show ?case
  proof (cases "length buf < len")
    case False
    with u show ?thesis by simp
  next
    case True
    obtain r s1 where r: "sys_read fd (len - length buf) s = (r, s1)" by force
    note r1 = rest_read1 [OF r, of K]
    show ?thesis
    proof (cases r)
      case None
      with "1.IH"(1) [OF True r [symmetric] None] u True r r1 show ?thesis by simp
    next
      case (Some b)
      with "1.IH"(2) [OF True r [symmetric] Some] u True r r1 show ?thesis by simp
    qed
  qed
qed

lemma rest_response [rest]: "rest_of K (snd (http_response_loop fd buf s)) = rest_of K s"
proof (induction fd buf s rule: http_response_loop.induct)
  case (1 fd buf s)
  note u = http_response_loop.simps [of fd buf s]
  show ?case
  proof (cases "length buf + 1 < 1024")
    case False
    with u show ?thesis by simp
  next
    case True
    obtain r s1 where r: "sys_read fd 1 s = (r, s1)" by force
    note r1 = rest_read1 [OF r, of K]
    show ?thesis
    proof (cases r)
      case None
      with u True r r1 show ?thesis by simp
    next
      case (Some b)
      with "1.IH" [OF True r [symmetric] Some] u True r r1 show ?thesis by simp
    qed
  qed
qed

lemma rest_header [rest]: "rest_of K (snd (read_http_header fd len buf s)) = rest_of K s"
proof (induction fd len buf s rule: read_http_header.induct)
  case (1 fd len buf s)
  note u = read_http_header.simps [of fd len buf s]
  show ?case
  proof (cases "length buf + 1 < len")
    case False
    with u show ?thesis by (simp add: rest)
  next
    case True
    obtain r s1 where r: "sys_read fd 1 s = (r, s1)" by force
    note r1 = rest_read1 [OF r, of K]
    show ?thesis
    proof (cases r)
      case None
      with "1.IH"(1) [OF True r [symmetric] None] u True r r1 show ?thesis by simp
    next
      case (Some b)
      with "1.IH"(2) [OF True r [symmetric] Some] u True r r1 show ?thesis by simp
    qed
  qed
qed

lemma rest_tail [rest]: "rest_of K (snd (socks5_reply_tail fd a s)) = rest_of K s"
  by (simp add: socks5_reply_tail_def case_prod_unfold Let_def rest)

lemma rest_socks5 [rest]: "rest_of K (snd (socks5_negotiate fd h p s)) = rest_of K s"
  by (simp add: socks5_negotiate_def case_prod_unfold Let_def rest)

lemma rest_http [rest]: "rest_of K (snd (http_connect_negotiate fd h p s)) = rest_of K s"
  by (simp add: http_connect_negotiate_def case_prod_unfold Let_def rest split: option.splits)

lemma rest_negotiate [rest]: "rest_of K (snd (proxy_negotiate t fd h p s)) = rest_of K s"
  by (simp add: proxy_negotiate_def case_prod_unfold Let_def rest)

lemma rest_proxy_response [rest]: "rest_of K (snd (write_proxy_response fd st tx s)) = rest_of K s"
  by (simp add: write_proxy_response_def case_prod_unfold Let_def rest)

lemma tcp_makes_fd: "wcat_tcp_connect h p fam tmo s = (r, s') \<Longrightarrow> makes_fd s r s'"
  by (rule new_socket_makes_fd [OF tcp_connect.make_new])

lemma proxy_connect_makes_fd:
  assumes "wcat_proxy_connect pr h p fam tmo s = (Ret r, s')"
  shows "makes_fd s r s'"
proof (cases "pr = None \<or> proxy_type (the pr) = WCAT_PROXY_NONE")
  case True
  with assms show ?thesis by (auto simp: wcat_proxy_connect_def split: prod.splits intro: tcp_makes_fd)
next
  case False
  obtain fd s1 where c: "wcat_tcp_connect (Some (proxy_host (the pr))) (Some (proxy_port (the pr))) fam tmo s = (fd, s1)"
    by force
  note m = tcp_makes_fd [OF c]
  obtain q s2 where n: "proxy_negotiate (proxy_type (the pr)) fd (the h) (the p) s1 = (q, s2)" by force
  then have r2: "rest_of K s2 = rest_of K s1" for K by (metis rest_negotiate snd_conv)
  note run = assms [unfolded wcat_proxy_connect_def if_not_P [OF False] c prod.case Let_def n]
  show ?thesis
  proof (cases "fd < 0")
    case True
    with run m show ?thesis by (auto elim!: makes_fd_cases simp: makes_fd_def)
  next
    case pos: False
    show ?thesis
    proof (cases "q = Ret 0")
      case True
      have "open_fds s2 = open_fds s1" using r2 [of "{}"] by (rule rest_open)
      with run pos True m r2 [of "{fd}"] show ?thesis by (auto simp: makes_fd_def)
    next
      case False
      then have r: "r = - 1" "s' = close_quiet fd (wcat_log WCAT_LOG_ERROR ''proxy'' ''proxy negotiation failed'' s2)"
        using run pos False by (auto simp: case_prod_unfold split: if_splits)
      have "rest_of {} s' = rest_of {} s"
        unfolding r(2) using pos r2 by (intro makes_fd_close [OF m]) (simp_all add: rest)
      with r(1) show ?thesis by (simp add: makes_fd_def)
    qed
  qed
qed

interpretation proxied: fd_maker "wcat_proxy_connect pr h p fam tmo"
  by unfold_locales (rule proxy_connect_makes_fd)

lemma closable_socket [simp]: "closable (wcat_stream_from_fd fd nm) = {}"
  "closable ((wcat_stream_from_fd fd nm)\<lparr>close_on_eof := e\<rparr>) = {}"
  by (simp_all add: closable_def wcat_stream_from_fd_def)

lemma serve_proxy_client_rest: "rest_of {} (snd (serve_proxy_client cfg client s)) = rest_of {} s"
proof -
  obtain req s1 where q: "read_http_header client 4096 [] s = (req, s1)" by force
  then have r1: "rest_of K s1 = rest_of K s" for K by (metis rest_header snd_conv)
  show ?thesis
  proof (cases "case req of None \<Rightarrow> None | Some buf \<Rightarrow> parse_connect_request (c_string buf) 256 32")
    case None
    with q r1 show ?thesis by (simp add: serve_proxy_client_def rest)
  next
    case (Some hp)
    obtain h p where hp: "hp = (h, p)" by force
    obtain up s2 where c: "wcat_tcp_connect (Some h) (Some p) (family cfg) (timeout_ms cfg) s1 = (up, s2)" by force
    note m = tcp_makes_fd [OF c]
    obtain w s3 where w: "write_proxy_response client 200 ''Connection Established'' s2 = (w, s3)" by force
    then have r3: "rest_of K s3 = rest_of K s2" for K by (metis rest_proxy_response snd_conv)
    note run = serve_proxy_client_def [of cfg client s, unfolded q prod.case Let_def Some hp option.case c w]
    show ?thesis
    proof (cases "up < 0")
      case True
      with m have "rest_of {} s2 = rest_of {} s1" by (auto elim: makes_fd_cases)
      with run True r1 show ?thesis by (simp add: rest)
    next
      case False
      define s4 where "s4 = wcat_log WCAT_LOG_INFO ''proxy_connect'' (''proxy CONNECT '' @ h @ '':'' @ p) s3"
      define a where "a = (wcat_stream_from_fd client ''proxy-client'')\<lparr>close_on_eof := False\<rparr>"
      define b where "b = wcat_stream_from_fd up ''proxy-upstream''"
      have "rest_of {up} (snd (snd (wcat_relay_bidirectional a b opts s4))) = rest_of {up} s2" for opts
        using wcat_relay_bidirectional_rest [of a b "{up}" opts s4] r3 by (simp add: a_def b_def s4_def rest)
      then have "rest_of {} (snd (proxy_relay cfg client up s4)) = rest_of {} s1"
        unfolding proxy_relay_def Let_def a_def [symmetric] b_def [symmetric] case_prod_unfold snd_conv
        using False by (intro makes_fd_close [OF m]) simp_all
      moreover have "rest_of {} (close_quiet up s3) = rest_of {} s1"
        using False r3 by (intro makes_fd_close [OF m]) simp_all
      ultimately show ?thesis using run False r1 by (simp add: s4_def)
    qed
  qed
qed

section \<open>The server loop\<close>

lemma set_cloexec_fields:
  "acc_q (snd (wcat_set_cloexec fd s)) = acc_q s" "children (snd (wcat_set_cloexec fd s)) = children s"
  "term_raw (snd (wcat_set_cloexec fd s)) = term_raw s" "term_q (snd (wcat_set_cloexec fd s)) = term_q s"
  by (simp_all add: wcat_set_cloexec_def)

lemma wcat_accept_queue:
  "wcat_accept l s = (r, s') \<Longrightarrow>
     length (acc_q s' l) \<le> length (acc_q s l) \<and> (r \<noteq> None \<longrightarrow> length (acc_q s' l) < length (acc_q s l))
     \<and> children s' = children s \<and> term_raw s' = term_raw s \<and> term_q s' = term_q s"
proof (induction l s rule: wcat_accept.induct)
  case (1 l s)
  obtain a s1 where ac: "sys_accept l s = (a, s1)" by force
  have q: "length (acc_q s1 l) \<le> length (acc_q s l) \<and> (a \<noteq> None \<longrightarrow> length (acc_q s1 l) < length (acc_q s l))
      \<and> children s1 = children s \<and> term_raw s1 = term_raw s \<and> term_q s1 = term_q s"
    using ac by (auto simp: sys_accept_def add_fd_def Let_def split: list.splits acc_ans.splits)
  show ?case
  proof (cases a)
    case None
    with "1.prems" "1.IH" [OF ac [symmetric] None] ac q show ?thesis
      by (auto simp: wcat_accept.simps [of l s] split: if_splits)
  next
    case (Some x)
    with "1.prems" ac q show ?thesis
      by (cases x) (auto simp: wcat_accept.simps [of l s] set_cloexec_fields)
  qed
qed

lemma rest_access [rest]: "rest_of K (snd (wcat_access_check_fd L cfg fd s)) = rest_of K s"
  by (auto simp: wcat_access_check_fd_def fd_peer_addr_def rest split: option.splits prod.splits peer.splits)

function proxy_loop :: "inet \<Rightarrow> wcat_config \<Rightarrow> fd \<Rightarrow> int \<Rightarrow> sys \<Rightarrow> int \<times> sys" where
  "proxy_loop L cfg listener rc s =
     (let (stop, s0) = observe_stop s
      in if stop then (rc, s0)
         else case wcat_accept listener s0 of
                (None, s1) \<Rightarrow>
                  if errno_of s1 = EINTR then proxy_loop L cfg listener rc s1
                  else (1, wcat_log_errno ''proxy_accept'' ''proxy accept failed'' s1)
              | (Some (client, h, p), s1) \<Rightarrow>
                  (let (allowed, s2) = wcat_access_check_fd L cfg client s1
                   in if \<not> allowed then proxy_loop L cfg listener rc (close_quiet client s2)
                      else let (rc1, s3) = serve_proxy_client cfg client
                                 (wcat_log WCAT_LOG_INFO ''proxy_accept''
                                    (''accepted proxy client '' @ h @ '':'' @ p) s2);
                               s4 = close_quiet client s3
                           in if rc1 \<noteq> 0 \<and> \<not> keep_open cfg then (rc1, s4)
                              else proxy_loop L cfg listener 0 s4))"
  by pat_completeness auto
termination
proof (relation "measure (\<lambda>(L, cfg, l, rc, s). length (acc_q s l))", goal_cases)
  case 1
  show ?case by simp
next
  case (2 L cfg l rc s x stop s0 y s1)
  then show ?case using wcat_accept_effect [of l s0 None s1] by auto
next
  case (3 L cfg l rc s x stop s0 y s1 z client w h p v allowed s2)
  have "acc_q s0 = acc_q s" using rest_stop [of s stop s0 "{}"] 3(1,2) rest_fields(1) by metis
  moreover have "acc_q s2 = acc_q s1" using rest_access [of "{}" L cfg client s1] 3 rest_fields(1) by (metis snd_conv)
  moreover have "length (acc_q s1 l) < length (acc_q s0 l)" using wcat_accept_queue [of l s0 y s1] 3 by simp
  ultimately show ?case by simp
next
  case (4 L cfg l rc s x stop s0 y s1 z client w h p v allowed s2 u rc1 s3 s4)
  have "acc_q s0 = acc_q s" using rest_stop [of s stop s0 "{}"] 4(1,2) rest_fields(1) by metis
  moreover have "acc_q s2 = acc_q s1" using rest_access [of "{}" L cfg client s1] 4 rest_fields(1) by (metis snd_conv)
  moreover have "length (acc_q s1 l) < length (acc_q s0 l)" using wcat_accept_queue [of l s0 y s1] 4 by simp
  moreover have "acc_q s3 = acc_q s2"
    using serve_proxy_client_rest [of cfg client
        "wcat_log WCAT_LOG_INFO ''proxy_accept'' (''accepted proxy client '' @ h @ '':'' @ p) s2"] 4 rest_fields(1)
    by (metis rest_log snd_conv)
  ultimately show ?case using 4 by simp
qed

declare proxy_loop.simps [simp del]

definition wcat_proxy_server_run :: "inet \<Rightarrow> wcat_config \<Rightarrow> sys \<Rightarrow> int \<times> sys" where
  "wcat_proxy_server_run L cfg s =
     (let (listener, s1) = wcat_tcp_listen (host cfg) (port cfg) (family cfg) 64 s
      in if listener < 0
         then (1, wcat_log_errno ''proxy_listen'' ''HTTP CONNECT proxy listen failed'' s1)
         else let (rc, s2) = proxy_loop L cfg listener 0
                    (wcat_log WCAT_LOG_INFO ''proxy_listen''
                       (''HTTP CONNECT proxy listening on '' @ text_of (host cfg) @ '':'' @ text_of (port cfg)) s1)
              in (rc, close_quiet listener s2))"

text \<open>Apart from the connections it accepts, the server leaves everything as it was.\<close>

definition held :: "sys \<Rightarrow> fd list \<times> int multiset \<times> bool" where
  "held s = (open_fds s, mset (children s), term_raw s)"

lemma rest_held: "rest_of {} s' = rest_of {} s \<Longrightarrow> held s' = held s"
  by (simp add: rest_of_def held_def)

text \<open>A connection that is accepted, worked with and closed.\<close>

lemma accepted_held:
  assumes "wcat_accept l s = (Some (fd, h, p), s1)" and "rest_of {} s2 = rest_of {} s1"
  shows "held (close_quiet fd s2) = held s"
proof -
  have a: "0 \<le> fd" "fd \<notin> set (open_fds s)" "open_fds s1 = open_fds s @ [fd]"
    using wcat_accept_effect [OF assms(1)] by auto
  have c: "children s1 = children s" "term_raw s1 = term_raw s" using wcat_accept_queue [OF assms(1)] by simp_all
  have o: "open_fds s2 = open_fds s1" "children s2 = children s1" "term_raw s2 = term_raw s1"
    using assms(2) by (simp_all add: rest_of_def)
  with a c show ?thesis by (simp add: held_def)
qed

lemma proxy_loop_held: "held (snd (proxy_loop L cfg l rc s)) = held s"
proof (induction L cfg l rc s rule: proxy_loop.induct)
  case (1 L cfg l rc s)
  obtain stop s0 where o: "observe_stop s = (stop, s0)" by force
  have h0: "held s0 = held s" using rest_held [OF rest_stop [OF o]] .
  obtain a s1 where ac: "wcat_accept l s0 = (a, s1)" by force
  note u = proxy_loop.simps [of L cfg l rc s, unfolded o prod.case Let_def ac]
  show ?case
  proof (cases "stop")
    case True
    with u h0 show ?thesis by simp
  next
    case go: False
    show ?thesis
    proof (cases a)
      case None
      have e: "errno_of s1 \<noteq> EINTR" "held s1 = held s0"
        using wcat_accept_effect [OF ac] wcat_accept_queue [OF ac] None by (simp_all add: held_def)
      have "held (wcat_log_errno ''proxy_accept'' ''proxy accept failed'' s1) = held s1"
        by (rule rest_held) (rule rest_log_errno)
      with u go None e h0 show ?thesis by simp
    next
      case (Some x)
      obtain fd h p where x: "a = Some (fd, h, p)" using Some by (cases x) auto
      obtain allowed s2 where al: "wcat_access_check_fd L cfg fd s1 = (allowed, s2)" by force
      then have r2: "rest_of {} s2 = rest_of {} s1" by (metis rest_access snd_conv)
      define s2' where "s2' = wcat_log WCAT_LOG_INFO ''proxy_accept'' (''accepted proxy client '' @ h @ '':'' @ p) s2"
      obtain rc1 s3 where sv: "serve_proxy_client cfg fd s2' = (rc1, s3)" by force
      have r3: "rest_of {} s3 = rest_of {} s1"
        using serve_proxy_client_rest [of cfg fd s2'] sv r2 by (simp add: s2'_def rest)
      note h2 = accepted_held [OF ac [unfolded x] r2] and h3 = accepted_held [OF ac [unfolded x] r3]
      note u' = u [unfolded x option.case prod.case al s2'_def [symmetric] sv]
      show ?thesis
      proof (cases "allowed \<and> rc1 \<noteq> 0 \<and> \<not> keep_open cfg")
        case True
        with u' go h3 h0 show ?thesis by simp
      next
        case False
        show ?thesis
        proof (cases allowed)
          case denied: False
          from "1.IH"(2) [OF o [symmetric] refl go ac [symmetric] x refl refl al [symmetric] refl denied] u' go denied h2 h0
          show ?thesis by simp
        next
          case True
          with False have k: "\<not> (rc1 \<noteq> 0 \<and> \<not> keep_open cfg)" by simp
          from "1.IH"(3) [OF o [symmetric] refl go ac [symmetric] x refl refl al [symmetric] refl _
              sv [unfolded s2'_def, symmetric] refl refl k] u' go True k h3 h0
          show ?thesis by simp
        qed
      qed
    qed
  qed
qed

lemma listened_held:
  assumes "new_socket s l s1" and "0 \<le> l" and "held s2 = held s1"
  shows "held (close_quiet l s2) = held s"
proof -
  have "l \<notin> set (open_fds s)" "open_fds s1 = open_fds s @ [l]" "children s1 = children s" "term_raw s1 = term_raw s"
    using assms(1,2) by (auto simp: new_socket_def sock_frame_def)
  with assms(2,3) show ?thesis by (simp add: held_def)
qed

lemma wcat_proxy_server_run_held: "held (snd (wcat_proxy_server_run L cfg s)) = held s"
proof -
  obtain l s1 where l: "wcat_tcp_listen (host cfg) (port cfg) (family cfg) 64 s = (l, s1)" by force
  note ns = tcp_listen.make_new [OF l]
  define s2 where "s2 = wcat_log WCAT_LOG_INFO ''proxy_listen''
    (''HTTP CONNECT proxy listening on '' @ text_of (host cfg) @ '':'' @ text_of (port cfg)) s1"
  have h2: "held s2 = held s1" unfolding s2_def by (rule rest_held) (rule rest_log)
  show ?thesis
  proof (cases "l < 0")
    case True
    have "makes_fd s l s1" by (rule new_socket_makes_fd [OF ns])
    with True have "rest_of {} s1 = rest_of {} s" by (auto elim: makes_fd_cases)
    with True l show ?thesis
      by (auto simp: wcat_proxy_server_run_def Let_def rest intro: rest_held)
  next
    case False
    have "held (close_quiet l (snd (proxy_loop L cfg l 0 s2))) = held s"
      by (rule listened_held [OF ns]) (use False h2 proxy_loop_held [of L cfg l 0 s2] in simp_all)
    with False l show ?thesis
      by (simp add: wcat_proxy_server_run_def Let_def case_prod_unfold s2_def)
  qed
qed

end
