(* ===== verification/Wcat_Process.thy ===== *)
theory Wcat_Process
  imports Wcat_Proxy
begin

text \<open>
  src/process.c: starting the program of \<open>--exec\<close> behind two pipes or a pseudo terminal, releasing
  its descriptors and waiting for it. The parent's side works on the system state; the child's side,
  between \<open>fork\<close> and \<open>execl\<close>, only rearranges its own descriptor table.
\<close>

section \<open>Definitions\<close>

record wcat_process =
  proc_pid :: int
  in_fd :: fd
  out_fd :: fd
  err_fd :: fd
  pty_fd :: fd

definition no_process :: wcat_process where
  "no_process = \<lparr>proc_pid = - 1, in_fd = - 1, out_fd = - 1, err_fd = - 1, pty_fd = - 1\<rparr>"

definition make_pipe :: "sys \<Rightarrow> int \<times> (fd \<times> fd) \<times> sys" where
  "make_pipe s = (case sys_pipe s of (None, s') \<Rightarrow> (- 1, (- 1, - 1), s') | (Some p, s') \<Rightarrow> (0, p, s'))"

text \<open>The child's descriptor table, from descriptors to what they refer to.\<close>

definition child_dup2 :: "fd \<Rightarrow> fd \<Rightarrow> (fd \<rightharpoonup> 'f) \<Rightarrow> (fd \<rightharpoonup> 'f)" where
  "child_dup2 a b t = (case t a of None \<Rightarrow> t | Some f \<Rightarrow> t(b \<mapsto> f))"

definition child_close :: "fd \<Rightarrow> (fd \<rightharpoonup> 'f) \<Rightarrow> (fd \<rightharpoonup> 'f)" where
  "child_close a t = t(a := None)"

definition spawn_child :: "fd \<times> fd \<Rightarrow> fd \<times> fd \<Rightarrow> (fd \<rightharpoonup> 'f) \<Rightarrow> (fd \<rightharpoonup> 'f)" where
  "spawn_child in_pipe out_pipe t =
     (let t1 = child_dup2 (snd out_pipe) 2 (child_dup2 (snd out_pipe) 1 (child_dup2 (fst in_pipe) 0 t))
      in child_close (snd out_pipe) (child_close (fst out_pipe) (child_close (snd in_pipe) (child_close (fst in_pipe) t1))))"

definition spawn_fail :: "fd \<times> fd \<Rightarrow> fd \<times> fd \<Rightarrow> sys \<Rightarrow> int \<times> wcat_process \<times> sys" where
  "spawn_fail in_pipe out_pipe s =
     (- 1, no_process,
      close_quiet (snd out_pipe) (close_quiet (fst out_pipe) (close_quiet (snd in_pipe) (close_quiet (fst in_pipe) s))))"

definition wcat_process_spawn :: "bool \<Rightarrow> sys \<Rightarrow> int \<times> wcat_process \<times> sys" where
  "wcat_process_spawn use_pty s =
     (if use_pty
      then let (pid, m, s1) = sys_forkpty s
           in if pid < 0 then (- 1, no_process\<lparr>pty_fd := m\<rparr>, s1)
              else (0, no_process\<lparr>pty_fd := m, proc_pid := pid, in_fd := m, out_fd := m\<rparr>, s1)
      else let (r1, in_pipe, s1) = make_pipe s
           in if r1 < 0 then spawn_fail in_pipe (- 1, - 1) s1
              else let (r2, out_pipe, s2) = make_pipe s1
                   in if r2 < 0 then spawn_fail in_pipe out_pipe s2
                      else let (pid, s3) = sys_fork s2
                           in if pid < 0 then spawn_fail in_pipe out_pipe s3
                              else let (_, s4) = sys_close (fst in_pipe) s3; (_, s5) = sys_close (snd out_pipe) s4
                                   in (0, no_process\<lparr>proc_pid := pid, in_fd := snd in_pipe, out_fd := fst out_pipe\<rparr>, s5))"

definition wcat_process_close :: "wcat_process \<Rightarrow> sys \<Rightarrow> wcat_process \<times> sys" where
  "wcat_process_close proc s =
     (let i = in_fd proc; out = out_fd proc; e = err_fd proc; p = pty_fd proc;
          s1 = (if i \<ge> 0 then close_quiet i s else s);
          s2 = (if out \<ge> 0 \<and> out \<noteq> i then close_quiet out s1 else s1);
          s3 = (if e \<ge> 0 \<and> e \<noteq> i \<and> e \<noteq> out then close_quiet e s2 else s2);
          s4 = (if p \<ge> 0 \<and> p \<noteq> i \<and> p \<noteq> out \<and> p \<noteq> e then close_quiet p s3 else s3)
      in (proc\<lparr>in_fd := - 1, out_fd := - 1, err_fd := - 1, pty_fd := - 1\<rparr>, s4))"

lemma sys_waitpid_None: "sys_waitpid pid s = (None, s') \<Longrightarrow> errno_of s' = EINTR \<Longrightarrow> length (wait_q s') < length (wait_q s)"
  by (auto simp: sys_waitpid_def split: list.splits sum.splits)

function wait_loop :: "int \<Rightarrow> sys \<Rightarrow> int \<times> sys" where
  "wait_loop pid s =
     (case sys_waitpid pid s of
        (Some status, s') \<Rightarrow> (status, s')
      | (None, s') \<Rightarrow> if errno_of s' \<noteq> EINTR then (- 1, s') else wait_loop pid s')"
  by pat_completeness auto
termination
  by (relation "measure (\<lambda>(pid, s). length (wait_q s))") (auto dest: sys_waitpid_None sym)

declare wait_loop.simps [simp del]

definition wcat_process_wait :: "wcat_process \<Rightarrow> sys \<Rightarrow> int \<times> sys" where
  "wcat_process_wait proc s = (if proc_pid proc \<le> 0 then (0, s) else wait_loop (proc_pid proc) s)"

section \<open>The child\<close>

lemma child_wiring:
  assumes "distinct [a, b, c, d]" and "list_all (\<lambda>f. 2 < f) [a, b, c, d]" and "t a = Some r" and "t d = Some w"
  shows "spawn_child (a, b) (c, d) t
    = (\<lambda>f. if f = 0 then Some r else if f = 1 \<or> f = 2 then Some w
           else if f \<in> {a, b, c, d} then None else t f)"
proof -
  have n: "a \<noteq> 0" "a \<noteq> 1" "a \<noteq> 2" "b \<noteq> 0" "b \<noteq> 1" "b \<noteq> 2" "c \<noteq> 0" "c \<noteq> 1" "c \<noteq> 2" "d \<noteq> 0" "d \<noteq> 1" "d \<noteq> 2"
    using assms(2) by auto
  have 1: "child_dup2 a 0 t = t(0 \<mapsto> r)" using assms(3) by (simp add: child_dup2_def)
  have 2: "child_dup2 d 1 (t(0 \<mapsto> r)) = t(0 \<mapsto> r, 1 \<mapsto> w)" using assms(4) n by (simp add: child_dup2_def)
  have 3: "child_dup2 d 2 (t(0 \<mapsto> r, 1 \<mapsto> w)) = t(0 \<mapsto> r, 1 \<mapsto> w, 2 \<mapsto> w)" using assms(4) n by (simp add: child_dup2_def)
  show ?thesis
    unfolding spawn_child_def Let_def fst_conv snd_conv 1 2 3 child_close_def using n by (intro ext) simp
qed

section \<open>The parent\<close>

lemma make_pipe_effect:
  assumes "make_pipe s = (rc, p, s')"
  shows "rc = - 1 \<and> p = (- 1, - 1) \<and> rest_of K s' = rest_of K s
    \<or> rc = 0 \<and> 0 \<le> fst p \<and> 0 \<le> snd p \<and> fst p \<noteq> snd p \<and> fst p \<notin> set (open_fds s) \<and> snd p \<notin> set (open_fds s)
       \<and> open_fds s' = open_fds s @ [fst p, snd p] \<and> acc_q s' = acc_q s \<and> peer_of s' = peer_of s
       \<and> children s' = children s \<and> term_raw s' = term_raw s \<and> term_q s' = term_q s"
proof -
  consider "pipe_q s = []" | e q where "pipe_q s = Some e # q" | q where "pipe_q s = None # q"
    by (cases "pipe_q s") (auto simp: not_None_eq)
  then show ?thesis
  proof cases
    case (3 q)
    define s1 where "s1 = add_fd (fresh_fd s) (s\<lparr>pipe_q := q\<rparr>)"
    have o: "open_fds s1 = open_fds s @ [fresh_fd s]" by (simp add: s1_def add_fd_def)
    have e: "rc = 0" "p = (fresh_fd s, fresh_fd s1)" "s' = add_fd (fresh_fd s1) s1"
      using assms 3 by (auto simp: make_pipe_def sys_pipe_def s1_def Let_def)
    have "fresh_fd s1 \<noteq> fresh_fd s \<and> fresh_fd s1 \<notin> set (open_fds s)"
      using fresh_fd_not_open [of s1] by (auto simp: o)
    then show ?thesis by (simp add: e) (simp add: add_fd_def o, simp add: s1_def add_fd_def)
  qed (use assms in \<open>auto simp: make_pipe_def sys_pipe_def rest_of_def\<close>)
qed

lemma sys_fork_effect:
  assumes "sys_fork s = (pid, s')"
  shows "pid = - 1 \<and> rest_of K s' = rest_of K s
    \<or> 0 < pid \<and> open_fds s' = open_fds s \<and> acc_q s' = acc_q s \<and> peer_of s' = peer_of s
       \<and> children s' = pid # children s \<and> term_raw s' = term_raw s \<and> term_q s' = term_q s"
  using assms by (auto simp: sys_fork_def rest_of_def split: list.splits sum.splits)

text \<open>A failed start leaves everything as it was, descriptors included.\<close>

lemma spawn_fail_rest:
  assumes "open_fds s2 = open_fds s @ xs" and "acc_q s2 = acc_q s" and "peer_of s2 = peer_of s"
    and "children s2 = children s" and "term_raw s2 = term_raw s" and "term_q s2 = term_q s"
    and "\<forall>f \<in> set xs. 0 \<le> f \<and> f \<notin> set (open_fds s)" and "set xs \<subseteq> {a, b, c, d}"
    and "\<forall>f \<in> {a, b, c, d}. f = - 1 \<or> f \<in> set xs"
  shows "rest_of {} (snd (snd (spawn_fail (a, b) (c, d) s2))) = rest_of {} s"
proof -
  have keep: "a \<notin> set (open_fds s) \<or> a < 0" "b \<notin> set (open_fds s) \<or> b < 0"
    "c \<notin> set (open_fds s) \<or> c < 0" "d \<notin> set (open_fds s) \<or> d < 0"
    using assms(7,9) by auto
  have cl: "open_fds (close_quiet f u) = open_fds s @ filter (\<lambda>x. x \<noteq> f) ys"
    if "open_fds u = open_fds s @ ys" "f \<notin> set (open_fds s) \<or> f < 0" "\<forall>x \<in> set ys. 0 \<le> x" for f u ys
    using that by (auto simp: removeAll_filter_not_eq eq_commute intro!: filter_True [symmetric])
  define u1 where "u1 = close_quiet a s2"
  define u2 where "u2 = close_quiet b u1"
  define u3 where "u3 = close_quiet c u2"
  note o1 = cl [OF assms(1) keep(1), folded u1_def]
  note o2 = cl [OF o1 keep(2), folded u2_def]
  note o3 = cl [OF o2 keep(3), folded u3_def]
  note o4 = cl [OF o3 keep(4)]
  have "filter (\<lambda>x. x \<noteq> d) (filter (\<lambda>x. x \<noteq> c) (filter (\<lambda>x. x \<noteq> b) (filter (\<lambda>x. x \<noteq> a) xs))) = []"
    using assms(8) by (auto simp: filter_empty_conv)
  with o4 assms(7) have "open_fds (close_quiet d u3) = open_fds s" by auto
  then show ?thesis using assms(2-6) by (simp add: spawn_fail_def rest_of_def u1_def u2_def u3_def)
qed

lemma spawn_failed:
  assumes "wcat_process_spawn tt s = (rc, proc, s')" and "rc \<noteq> 0"
  shows "rc = - 1 \<and> proc = no_process \<and> rest_of {} s' = rest_of {} s"
proof (cases tt)
  case True
  obtain pid s1 where f: "sys_fork s = (pid, s1)" by force
  with True assms have n: "pid < 0" by (auto simp: wcat_process_spawn_def sys_forkpty_def split: if_splits)
  with True assms f have "rc = - 1" "proc = no_process" "s' = s1"
    by (auto simp: wcat_process_spawn_def sys_forkpty_def no_process_def)
  with sys_fork_effect [OF f, of "{}"] n show ?thesis by auto
next
  case False
  obtain r1 a b s1 where p1: "make_pipe s = (r1, (a, b), s1)" by (metis prod_cases3 surj_pair)
  obtain r2 c d s2 where p2: "make_pipe s1 = (r2, (c, d), s2)" by (metis prod_cases3 surj_pair)
  obtain pid s3 where f: "sys_fork s2 = (pid, s3)" by force
  note run = assms(1) [unfolded wcat_process_spawn_def if_not_P [OF False] Let_def p1 p2 f prod.case fst_conv snd_conv]
  note e1 = make_pipe_effect [OF p1, of "{}"] and e2 = make_pipe_effect [OF p2, of "{}"] and e3 = sys_fork_effect [OF f, of "{}"]
  have sf: "fst (spawn_fail x y u) = - 1" "fst (snd (spawn_fail x y u)) = no_process" for x y u
    by (simp_all add: spawn_fail_def)
  have via: "rc = - 1 \<and> proc = no_process \<and> rest_of {} s' = rest_of {} s"
    if "(rc, proc, s') = spawn_fail x y u" "rest_of {} (snd (snd (spawn_fail x y u))) = rest_of {} s" for x y u
    using that sf [of x y u] by (metis fst_conv snd_conv)
  consider (one) "r1 < 0" | (two) "\<not> r1 < 0" "r2 < 0" | (three) "\<not> r1 < 0" "\<not> r2 < 0" "pid < 0"
    using run assms(2) by (auto simp: case_prod_unfold split: if_splits)
  then show ?thesis
  proof cases
    case one
    with e1 have x: "a = - 1" "b = - 1" "rest_of {} s1 = rest_of {} s" by auto
    show ?thesis
      by (rule via [of "(a, b)" "(- 1, - 1)" s1], use run one in simp,
          rule spawn_fail_rest [of _ _ "[]"]) (use x in \<open>auto simp: rest_of_def\<close>)
  next
    case two
    with e1 e2 have x: "c = - 1" "d = - 1" "rest_of {} s2 = rest_of {} s1" "open_fds s1 = open_fds s @ [a, b]"
      "0 \<le> a" "0 \<le> b" "a \<notin> set (open_fds s)" "b \<notin> set (open_fds s)"
      "acc_q s1 = acc_q s" "peer_of s1 = peer_of s" "children s1 = children s" "term_raw s1 = term_raw s"
      "term_q s1 = term_q s" by auto
    show ?thesis
      by (rule via [of "(a, b)" "(c, d)" s2], use run two in simp,
          rule spawn_fail_rest [of _ _ "[a, b]"]) (use x in \<open>auto simp: rest_of_def\<close>)
  next
    case three
    with e1 e2 e3 have x: "rest_of {} s3 = rest_of {} s2" "open_fds s2 = open_fds s @ [a, b, c, d]"
      "0 \<le> a" "0 \<le> b" "0 \<le> c" "0 \<le> d" "a \<notin> set (open_fds s)" "b \<notin> set (open_fds s)"
      "c \<notin> set (open_fds s)" "d \<notin> set (open_fds s)"
      "acc_q s2 = acc_q s" "peer_of s2 = peer_of s" "children s2 = children s" "term_raw s2 = term_raw s"
      "term_q s2 = term_q s" by auto
    show ?thesis
      by (rule via [of "(a, b)" "(c, d)" s3], use run three in simp,
          rule spawn_fail_rest [of _ _ "[a, b, c, d]"]) (use x in \<open>auto simp: rest_of_def\<close>)
  qed
qed

text \<open>A successful one has added the child and one or two new descriptors.\<close>

definition process_fds :: "wcat_process \<Rightarrow> fd list" where
  "process_fds proc = remdups [in_fd proc, out_fd proc]"

definition spawned :: "wcat_process \<Rightarrow> sys \<Rightarrow> sys \<Rightarrow> bool" where
  "spawned proc s s' \<longleftrightarrow>
     0 < proc_pid proc \<and> 0 \<le> in_fd proc \<and> 0 \<le> out_fd proc \<and> err_fd proc = - 1 \<and> pty_fd proc \<in> {- 1, in_fd proc}
     \<and> in_fd proc \<notin> set (open_fds s) \<and> out_fd proc \<notin> set (open_fds s)
     \<and> open_fds s' = open_fds s @ process_fds proc \<and> acc_q s' = acc_q s \<and> peer_of s' = peer_of s
     \<and> children s' = proc_pid proc # children s \<and> term_raw s' = term_raw s"

lemma sys_close_rest:
  "open_fds (snd (sys_close fd s)) = removeAll fd (open_fds s)" "acc_q (snd (sys_close fd s)) = acc_q s"
  "peer_of (snd (sys_close fd s)) = peer_of s" "children (snd (sys_close fd s)) = children s"
  "term_raw (snd (sys_close fd s)) = term_raw s" "term_q (snd (sys_close fd s)) = term_q s"
  by (auto simp: sys_close_def Let_def split: list.splits option.splits)

lemma spawn_ok:
  assumes "wcat_process_spawn tt s = (0, proc, s')"
  shows "spawned proc s s'"
proof (cases tt)
  case True
  obtain pid s1 where f: "sys_fork s = (pid, s1)" by force
  with True assms have n: "\<not> pid < 0" by (auto simp: wcat_process_spawn_def sys_forkpty_def split: if_splits)
  with sys_fork_effect [OF f, of "{}"] have e: "0 < pid" "open_fds s1 = open_fds s" "acc_q s1 = acc_q s" "peer_of s1 = peer_of s"
    "children s1 = pid # children s" "term_raw s1 = term_raw s" by auto
  have "fresh_fd s1 \<notin> set (open_fds s)" using fresh_fd_not_open [of s1] e(2) by simp
  moreover have "proc = no_process\<lparr>pty_fd := fresh_fd s1, proc_pid := pid, in_fd := fresh_fd s1, out_fd := fresh_fd s1\<rparr>"
    "s' = add_fd (fresh_fd s1) s1"
    using assms True f n by (auto simp: wcat_process_spawn_def sys_forkpty_def)
  ultimately show ?thesis using e by (simp add: spawned_def process_fds_def no_process_def add_fd_def)
next
  case False
  obtain r1 a b s1 where p1: "make_pipe s = (r1, (a, b), s1)" by (metis prod_cases3 surj_pair)
  obtain r2 c d s2 where p2: "make_pipe s1 = (r2, (c, d), s2)" by (metis prod_cases3 surj_pair)
  obtain pid s3 where f: "sys_fork s2 = (pid, s3)" by force
  note run = assms(1) [unfolded wcat_process_spawn_def if_not_P [OF False] Let_def p1 p2 f prod.case fst_conv snd_conv]
  have ok: "\<not> r1 < 0" "\<not> r2 < 0" "\<not> pid < 0"
    using run by (auto simp: spawn_fail_def split: if_splits)
  define s5 where "s5 = snd (sys_close d (snd (sys_close a s3)))"
  have e: "proc = no_process\<lparr>proc_pid := pid, in_fd := b, out_fd := c\<rparr>" "s' = s5"
    using run ok by (auto simp: case_prod_unfold s5_def)
  have x: "open_fds s1 = open_fds s @ [a, b]" "a \<noteq> b" "0 \<le> b" "a \<notin> set (open_fds s)" "b \<notin> set (open_fds s)"
      "acc_q s1 = acc_q s" "peer_of s1 = peer_of s" "children s1 = children s" "term_raw s1 = term_raw s"
    using make_pipe_effect [OF p1, of "{}"] ok by auto
  have y: "open_fds s2 = open_fds s @ [a, b, c, d]" "c \<noteq> d" "0 \<le> c" "c \<notin> set (open_fds s @ [a, b])"
      "d \<notin> set (open_fds s @ [a, b])"
      "acc_q s2 = acc_q s" "peer_of s2 = peer_of s" "children s2 = children s" "term_raw s2 = term_raw s"
    using make_pipe_effect [OF p2, of "{}"] ok x by auto
  have z: "0 < pid" "open_fds s3 = open_fds s2" "acc_q s3 = acc_q s2" "peer_of s3 = peer_of s2"
      "children s3 = pid # children s2" "term_raw s3 = term_raw s2"
    using sys_fork_effect [OF f, of "{}"] ok by auto
  have "open_fds s5 = open_fds s @ [b, c]" unfolding s5_def using x y z by (simp add: sys_close_rest)
  moreover have "acc_q s5 = acc_q s" "peer_of s5 = peer_of s" "children s5 = pid # children s" "term_raw s5 = term_raw s"
    unfolding s5_def using y z by (simp_all add: sys_close_rest)
  ultimately show ?thesis using x y z by (simp add: e spawned_def process_fds_def no_process_def)
qed

text \<open>Whatever is done with them in between, \<open>wcat_process_close\<close> gives back exactly those descriptors.\<close>

lemma process_close_fds:
  assumes "spawned proc s s1" and "rest_of (set (process_fds proc)) s2 = rest_of (set (process_fds proc)) s1"
  shows "open_fds (snd (wcat_process_close proc s2)) = open_fds s"
    and "children (snd (wcat_process_close proc s2)) = proc_pid proc # children s"
    and "term_raw (snd (wcat_process_close proc s2)) = term_raw s"
    and "acc_q (snd (wcat_process_close proc s2)) = acc_q s"
    and "peer_of (snd (wcat_process_close proc s2)) = peer_of s"
proof -
  have k: "set (process_fds proc) = {in_fd proc, out_fd proc}" by (auto simp: process_fds_def)
  have i: "0 \<le> in_fd proc" "0 \<le> out_fd proc" "err_fd proc = - 1" "pty_fd proc \<in> {- 1, in_fd proc}"
    and n: "in_fd proc \<notin> set (open_fds s)" "out_fd proc \<notin> set (open_fds s)"
    and o: "open_fds s1 = open_fds s @ process_fds proc"
    using assms(1) by (auto simp: spawned_def)
  have c: "wcat_process_close proc s2
      = (proc\<lparr>in_fd := - 1, out_fd := - 1, err_fd := - 1, pty_fd := - 1\<rparr>,
         if out_fd proc \<noteq> in_fd proc then close_quiet (out_fd proc) (close_quiet (in_fd proc) s2)
         else close_quiet (in_fd proc) s2)"
    using i by (auto simp: wcat_process_close_def Let_def)
  have "filter (\<lambda>f. f \<notin> {in_fd proc, out_fd proc}) (open_fds s2) = filter (\<lambda>f. f \<notin> {in_fd proc, out_fd proc}) (open_fds s1)"
    using assms(2) unfolding k by (simp add: rest_of_def)
  also have "\<dots> = open_fds s"
    using n unfolding o by (auto simp: process_fds_def intro!: filter_True)
  finally have "filter (\<lambda>f. f \<noteq> in_fd proc \<and> f \<noteq> out_fd proc) (open_fds s2) = open_fds s" by simp
  then show "open_fds (snd (wcat_process_close proc s2)) = open_fds s"
    using i by (simp add: c removeAll_filter_not_eq eq_commute conj_commute)
  show "children (snd (wcat_process_close proc s2)) = proc_pid proc # children s"
    "term_raw (snd (wcat_process_close proc s2)) = term_raw s" "acc_q (snd (wcat_process_close proc s2)) = acc_q s"
    "peer_of (snd (wcat_process_close proc s2)) = peer_of s"
    using assms by (simp_all add: c spawned_def rest_of_def)
qed

lemma wait_loop_effect:
  "wait_loop pid s = (r, s') \<Longrightarrow>
     open_fds s' = open_fds s \<and> term_raw s' = term_raw s \<and> acc_q s' = acc_q s \<and> peer_of s' = peer_of s
     \<and> (children s' = remove1 pid (children s) \<or> r = - 1 \<and> errno_of s' \<noteq> EINTR \<and> children s' = children s)"
proof (induction pid s rule: wait_loop.induct)
  case (1 pid s)
  obtain w s1 where w: "sys_waitpid pid s = (w, s1)" by force
  have e: "open_fds s1 = open_fds s \<and> term_raw s1 = term_raw s \<and> acc_q s1 = acc_q s \<and> peer_of s1 = peer_of s
      \<and> children s1 = (if w = None then children s else remove1 pid (children s))"
    using w by (auto simp: sys_waitpid_def split: list.splits sum.splits)
  show ?case
  proof (cases w)
    case None
    with "1.IH" [OF w [symmetric] None] "1.prems" w e show ?thesis
      by (auto simp: wait_loop.simps [of pid s] split: if_splits)
  next
    case (Some st)
    with "1.prems" w e show ?thesis by (auto simp: wait_loop.simps [of pid s])
  qed
qed

end
