(* ===== verification/Wcat_Own.thy ===== *)
theory Wcat_Own
  imports Wcat_Process
begin

text \<open>
  Descriptor accounting for the modes of the program. \<open>owns X C s0 s\<close>: since \<open>s0\<close> the descriptors of
  \<open>X\<close> have been opened, and may still be open, and the processes of \<open>C\<close> have been started; everything
  else that was held in \<open>s0\<close> is held still. One rule per way of opening, using and closing, so that
  a mode that closes what it opened on every path is seen to leak nothing.
\<close>

section \<open>The predicate and its rules\<close>

definition owns :: "fd set \<Rightarrow> int multiset \<Rightarrow> sys \<Rightarrow> sys \<Rightarrow> bool" where
  "owns X C s0 s \<longleftrightarrow>
     filter (\<lambda>f. f \<notin> X) (open_fds s) = open_fds s0 \<and> X \<inter> set (open_fds s0) = {} \<and> (\<forall>f \<in> X. 0 \<le> f)
     \<and> mset (children s) = C + mset (children s0) \<and> term_raw s = term_raw s0"

named_theorems own \<open>rules of descriptor accounting\<close>

lemma owns_refl [own]: "owns {} {#} s s"
  by (simp add: owns_def)

lemma owns_held: "owns {} {#} s0 s \<Longrightarrow> held s = held s0"
  by (simp add: owns_def held_def)

lemma owns_rest:
  assumes "owns X C s0 s" and "rest_of K s' = rest_of K s" and "K \<subseteq> X"
  shows "owns X C s0 s'"
  using rest_mono [OF assms(2,3)] assms(1) by (simp add: owns_def rest_of_def)

lemma owns_weaken:
  assumes "owns X C s0 s" and "X \<subseteq> Y" and "owns Y D s0 s1"
  shows "owns Y C s0 s"
proof -
  have "filter (\<lambda>f. f \<notin> Y) (open_fds s) = filter (\<lambda>f. f \<notin> Y) (filter (\<lambda>f. f \<notin> X) (open_fds s))"
    using assms(2) by (auto intro!: filter_cong)
  also have "\<dots> = open_fds s0" using assms(1,3) by (auto simp: owns_def intro!: filter_True)
  finally show ?thesis using assms(1,3) by (simp add: owns_def)
qed

lemma owns_restore:
  assumes "owns (X - F) D s0 s'" and "owns (X \<union> F) C s0 s"
  shows "owns X D s0 s'"
proof -
  have "filter (\<lambda>f. f \<notin> X) (open_fds s') = filter (\<lambda>f. f \<notin> X) (filter (\<lambda>f. f \<notin> X - F) (open_fds s'))"
    by (auto intro!: filter_cong)
  also have "\<dots> = open_fds s0" using assms by (auto simp: owns_def intro!: filter_True)
  finally show ?thesis using assms by (auto simp: owns_def)
qed

lemma owns_open_subset: "owns X C s0 s \<Longrightarrow> set (open_fds s0) \<subseteq> set (open_fds s)"
  by (metis filter_is_subset owns_def)

lemma owns_fresh:
  assumes "owns X C s0 s" and "r \<notin> set (open_fds s)" and "0 \<le> r" and "open_fds s' = open_fds s @ [r]"
    and "children s' = children s" and "term_raw s' = term_raw s"
  shows "owns (insert r X) C s0 s'"
proof -
  have "r \<notin> set (open_fds s0)" using owns_open_subset [OF assms(1)] assms(2) by blast
  moreover have "filter (\<lambda>f. f \<notin> insert r X) (open_fds s @ [r]) = filter (\<lambda>f. f \<notin> X) (open_fds s)"
    using assms(2) by (induction "open_fds s") (auto intro!: filter_cong)
  ultimately show ?thesis using assms by (simp add: owns_def)
qed

lemma owns_make: "owns X C s0 s \<Longrightarrow> makes_fd s r s' \<Longrightarrow> owns (if r < 0 then X else insert r X) C s0 s'"
proof -
  assume o: "owns X C s0 s" and m: "makes_fd s r s'"
  from m show ?thesis
  proof (cases rule: makes_fd_cases)
    case failed
    with o owns_rest [OF o failed(2)] show ?thesis by simp
  next
    case fresh
    with owns_fresh [OF o fresh(2,1,3)] rest_fields [OF fresh(4)] show ?thesis by simp
  qed
qed

lemma owns_accept:
  assumes "owns X C s0 s" and "wcat_accept l s = (r, s')"
  shows "owns (case r of None \<Rightarrow> X | Some (fd, _, _) \<Rightarrow> insert fd X) C s0 s'"
proof -
  note q = wcat_accept_queue [OF assms(2)] and e = wcat_accept_effect [OF assms(2)]
  show ?thesis
  proof (cases r)
    case None
    with q e assms(1) show ?thesis by (simp add: owns_def)
  next
    case (Some x)
    then obtain fd h p where x: "r = Some (fd, h, p)" by (cases x) auto
    with e q owns_fresh [OF assms(1), of fd s'] show ?thesis by simp
  qed
qed

lemma owns_removed:
  assumes "owns (insert x X) C s0 s" and "open_fds s' = removeAll x (open_fds s)"
    and "children s' = children s" and "term_raw s' = term_raw s"
  shows "owns (X - {x}) C s0 s'"
proof -
  have "filter (\<lambda>f. f \<notin> X - {x}) (removeAll x (open_fds s)) = filter (\<lambda>f. f \<notin> insert x X) (open_fds s)"
    by (simp add: removeAll_filter_not_eq) (auto intro!: filter_cong)
  with assms show ?thesis by (auto simp: owns_def)
qed

lemma owns_close: "owns (insert x X) C s0 s \<Longrightarrow> owns (X - {x}) C s0 (close_quiet x s)"
  by (rule owns_removed [of x X C s0 s]) (simp_all add: owns_def)

text \<open>Work that only reads, writes and logs.\<close>

lemma owns_io: "owns X C s0 s \<Longrightarrow> rest_of {} s' = rest_of {} s \<Longrightarrow> owns X C s0 s'"
  by (rule owns_rest [of X C s0 s "{}"]) simp_all

lemma owns_log [own]:
  "owns X C s0 s \<Longrightarrow> owns X C s0 (wcat_log lv ev m s)" "owns X C s0 s \<Longrightarrow> owns X C s0 (wcat_log_errno ev m s)"
  by (auto intro: owns_io simp: rest)

section \<open>TLS streams\<close>

lemma rest_ssl [rest]:
  "rest_of K (snd (ssl_calls3 s)) = rest_of K s" "rest_of K (log_openssl_error ev m s) = rest_of K s"
  "rest_of K (snd (wcat_set_nonblock fd b s)) = rest_of K s" "rest_of K (snd (client_verify vp ca ctx s)) = rest_of K s"
  by (auto simp: ssl_calls3_def log_openssl_error_def wcat_set_nonblock_def client_verify_def Let_def rest
      case_prod_unfold split: option.splits)
    (auto simp: rest_of_def)

lemma rest_tls_close: "tfd t \<in> K \<Longrightarrow> rest_of K (snd (wcat_tls_close t s)) = rest_of K s"
  by (simp add: wcat_tls_close_def Let_def rest rest_close)

lemma rest_tls_fail:
  "tfd t \<in> K \<Longrightarrow> rest_of K (snd (snd (tls_fail ev m t s))) = rest_of K s"
  "tfd t \<in> K \<Longrightarrow> rest_of K (snd (snd (tls_invalid t s))) = rest_of K s"
  by (simp_all add: tls_fail_def tls_invalid_def case_prod_unfold Let_def rest rest_tls_close)

lemma rest_client_handshake: "tfd t \<in> K \<Longrightarrow> rest_of K (snd (snd (client_handshake t sn vp s))) = rest_of K s"
  by (simp add: client_handshake_def case_prod_unfold Let_def rest rest_tls_fail rest_tls_close)

lemma rest_server_handshake: "tfd t \<in> K \<Longrightarrow> rest_of K (snd (snd (server_handshake t rq s))) = rest_of K s"
  by (simp add: server_handshake_def case_prod_unfold Let_def rest rest_tls_fail rest_tls_close)

lemma rest_client_open: "fd \<in> K \<Longrightarrow> rest_of K (snd (snd (wcat_tls_client_open fd sn vp ca cert key s))) = rest_of K s"
  by (simp add: wcat_tls_client_open_def case_prod_unfold Let_def rest rest_tls_fail rest_client_handshake stream_init_def
      split: sum.splits)

lemma rest_server_open: "fd \<in> K \<Longrightarrow> rest_of K (snd (snd (wcat_tls_server_open fd cert key ca rq s))) = rest_of K s"
  by (simp add: wcat_tls_server_open_def case_prod_unfold Let_def rest rest_tls_fail rest_server_handshake stream_init_def
      split: option.splits)

text \<open>
  An open TLS stream owns its descriptor; a failed open has closed it. Closing the stream closes it.
\<close>

lemma owns_tls_open:
  assumes "owns (insert fd X) C s0 s" and "open_result fd s (rc, t, s')" and "rest_of {fd} s' = rest_of {fd} s"
  shows "rc = 0 \<and> owns (insert fd X) C s0 s' \<and> tfd t = fd \<and> owns_fd t \<and> \<not> quic_stream t
    \<or> rc = - 1 \<and> owns (X - {fd}) C s0 s'"
proof -
  from assms(2) consider (ok) "rc = 0" "tfd t = fd" "owns_fd t" "\<not> quic_stream t"
    | (failed) "rc = - 1" "open_fds s' = removeAll fd (open_fds s)"
    by (auto simp: open_result_def)
  then show ?thesis
  proof cases
    case ok
    with owns_rest [OF assms(1,3)] show ?thesis by simp
  next
    case failed
    with owns_removed [OF assms(1) failed(2)] rest_fields [OF assms(3)] show ?thesis by simp
  qed
qed

lemma owns_client_open:
  assumes "owns (insert fd X) C s0 s" and "wcat_tls_client_open fd sn vp ca cert key s = (rc, t, s')"
  shows "rc = 0 \<and> owns (insert fd X) C s0 s' \<and> tfd t = fd \<and> owns_fd t \<and> \<not> quic_stream t
    \<or> rc = - 1 \<and> owns (X - {fd}) C s0 s'"
proof (rule owns_tls_open [OF assms(1)])
  have "0 \<le> fd" using assms(1) by (simp add: owns_def)
  from wcat_tls_client_open_result [OF this, of s sn vp ca cert key] assms(2)
  show "open_result fd s (rc, t, s')" by simp
  from rest_client_open [of fd "{fd}" sn vp ca cert key s] assms(2) show "rest_of {fd} s' = rest_of {fd} s" by simp
qed

lemma owns_server_open:
  assumes "owns (insert fd X) C s0 s" and "wcat_tls_server_open fd cert key ca rq s = (rc, t, s')"
  shows "rc = 0 \<and> owns (insert fd X) C s0 s' \<and> tfd t = fd \<and> owns_fd t \<and> \<not> quic_stream t
    \<or> rc = - 1 \<and> owns (X - {fd}) C s0 s'"
proof (rule owns_tls_open [OF assms(1)])
  have "0 \<le> fd" using assms(1) by (simp add: owns_def)
  from wcat_tls_server_open_result [OF this, of s cert key ca rq] assms(2)
  show "open_result fd s (rc, t, s')" by simp
  from rest_server_open [of fd "{fd}" cert key ca rq s] assms(2) show "rest_of {fd} s' = rest_of {fd} s" by simp
qed

lemma owns_tls_close:
  assumes "owns (insert (tfd t) X) C s0 s" and "owns_fd t"
  shows "owns (X - {tfd t}) C s0 (snd (wcat_tls_close t s))"
proof -
  have "0 \<le> tfd t" using assms(1) by (simp add: owns_def)
  moreover obtain t' s' where c: "wcat_tls_close t s = (t', s')" by force
  moreover have "rest_of {tfd t} s' = rest_of {tfd t} s" using rest_tls_close [of t "{tfd t}" s] c by simp
  ultimately show ?thesis
    using owns_removed [OF assms(1), of s'] wcat_tls_close_effect [OF c] rest_fields [of "{tfd t}" s' s] assms(2) by simp
qed

section \<open>Processes\<close>

lemma owns_spawn:
  assumes "owns X C s0 s" and "wcat_process_spawn tt s = (rc, proc, s')"
  shows "rc = - 1 \<and> owns X C s0 s'
    \<or> rc = 0 \<and> 0 < proc_pid proc \<and> owns (X \<union> set (process_fds proc)) (add_mset (proc_pid proc) C) s0 s'"
proof (cases "rc = 0")
  case False
  with spawn_failed [OF assms(2)] owns_io [OF assms(1), of s'] show ?thesis by simp
next
  case True
  with spawn_ok assms(2) have sp: "spawned proc s s'" by simp
  have k: "set (process_fds proc) = {in_fd proc, out_fd proc}" by (auto simp: process_fds_def)
  have sub: "set (open_fds s0) \<subseteq> set (open_fds s)" by (rule owns_open_subset [OF assms(1)])
  have "filter (\<lambda>f. f \<notin> X \<union> set (process_fds proc)) (open_fds s @ process_fds proc) = filter (\<lambda>f. f \<notin> X) (open_fds s)"
    using sp by (auto simp: k spawned_def intro!: filter_cong)
  with sp sub assms(1) have "owns (X \<union> set (process_fds proc)) (add_mset (proc_pid proc) C) s0 s'"
    unfolding owns_def spawned_def k by auto
  with True sp show ?thesis by (simp add: spawned_def)
qed

definition started :: "wcat_process \<Rightarrow> bool" where
  "started proc \<longleftrightarrow> 0 < proc_pid proc \<and> 0 \<le> in_fd proc \<and> 0 \<le> out_fd proc \<and> err_fd proc = - 1
     \<and> pty_fd proc \<in> {- 1, in_fd proc}"

lemma spawn_started: "wcat_process_spawn tt s = (0, proc, s') \<Longrightarrow> started proc"
  using spawn_ok [of tt s proc s'] by (auto simp: started_def spawned_def)

lemma owns_process_close:
  assumes "owns (X \<union> set (process_fds proc)) C s0 s" and "started proc"
  shows "owns (X - set (process_fds proc)) C s0 (snd (wcat_process_close proc s))"
proof -
  have k: "set (process_fds proc) = {in_fd proc, out_fd proc}" by (auto simp: process_fds_def)
  have c: "snd (wcat_process_close proc s)
      = (if out_fd proc \<noteq> in_fd proc then close_quiet (out_fd proc) (close_quiet (in_fd proc) s)
         else close_quiet (in_fd proc) s)"
    using assms(2) by (auto simp: wcat_process_close_def started_def Let_def)
  have "owns (insert (in_fd proc) (insert (out_fd proc) X)) C s0 s" using assms(1) unfolding k by (simp add: insert_commute)
  note 1 = owns_close [OF this]
  show ?thesis
  proof (cases "out_fd proc = in_fd proc")
    case True
    with 1 show ?thesis unfolding c k by (simp add: insert_Diff_if)
  next
    case False
    have d: "X - {in_fd proc, out_fd proc} = X - {in_fd proc} - {out_fd proc}" by blast
    have "insert (out_fd proc) X - {in_fd proc} = insert (out_fd proc) (X - {in_fd proc})" using False by auto
    then have "owns (insert (out_fd proc) (X - {in_fd proc})) C s0 (close_quiet (in_fd proc) s)" using 1 by simp
    from owns_close [OF this] False show ?thesis unfolding c k d by simp
  qed
qed

lemma owns_process_wait:
  assumes "owns X (add_mset (proc_pid proc) C) s0 s" and "wcat_process_wait proc s = (r, s')" and "started proc"
  shows "owns X C s0 s' \<or> r = - 1 \<and> owns X (add_mset (proc_pid proc) C) s0 s'"
proof -
  have "wait_loop (proc_pid proc) s = (r, s')"
    using assms(2,3) by (simp add: wcat_process_wait_def started_def)
  from wait_loop_effect [OF this] assms(1) show ?thesis by (auto simp: owns_def)
qed

text \<open>The relay may close the write ends of its streams; they are owned.\<close>

lemma owns_relay:
  assumes "owns X C s0 s" and "wcat_relay_bidirectional a b opts s = (rc, r, s')" and "closable a \<union> closable b \<subseteq> X"
  shows "owns X C s0 s'"
  using owns_rest [OF assms(1) _ order_refl] wcat_relay_bidirectional_rest [OF assms(3), of opts s] assms(2) by simp

lemma owns_copy:
  "owns X C s0 s \<Longrightarrow> wcat_copy_stream src dst opts s = (rc, s') \<Longrightarrow> owns X C s0 s'"
  using owns_io [of X C s0 s s'] wcat_copy_stream_rest [of "{}" src dst opts s] by simp

lemma owns_access:
  "owns X C s0 s \<Longrightarrow> wcat_access_check_fd L cfg fd s = (b, s') \<Longrightarrow> owns X C s0 s'"
  using owns_io [of X C s0 s s'] rest_access [of "{}" L cfg fd s] by simp

lemma owns_stop: "owns X C s0 s \<Longrightarrow> observe_stop s = (b, s') \<Longrightarrow> owns X C s0 s'"
  using owns_io [of X C s0 s s'] rest_stop [of s b s' "{}"] by simp

lemma owns_poll: "owns X C s0 s \<Longrightarrow> sys_poll p s = (rc, evs, s') \<Longrightarrow> owns X C s0 s'"
  using owns_io [of X C s0 s s'] rest_poll1 [of p s rc evs s' "{}"] by simp

lemma owns_errno [own]: "owns X C s0 s \<Longrightarrow> owns X C s0 (s\<lparr>errno_of := e\<rparr>)"
  by (simp add: owns_def)

lemma sys_open_makes_fd:
  assumes "sys_open s = (r, s')"
  shows "makes_fd s r s'"
proof -
  consider "open_q s = []" | e q where "open_q s = Some e # q" | q where "open_q s = None # q"
    by (cases "open_q s") (auto simp: not_None_eq)
  then show ?thesis
  proof cases
    case (3 q)
    with assms have "r = fresh_fd s" "s' = add_fd (fresh_fd s) (s\<lparr>open_q := q\<rparr>)" by (auto simp: sys_open_def)
    then show ?thesis by (simp add: makes_fd_def add_fd_def rest_of_def)
  qed (use assms in \<open>auto simp: sys_open_def makes_fd_def rest_of_def\<close>)
qed

lemma owns_sys_open: "owns X C s0 s \<Longrightarrow> sys_open s = (r, s') \<Longrightarrow> owns (if r < 0 then X else insert r X) C s0 s'"
  by (rule owns_make [OF _ sys_open_makes_fd])

section \<open>What has been transferred\<close>

text \<open>Everything but reads and writes leaves the bytes delivered and accepted as they are.\<close>

definition traffic :: "sys \<Rightarrow> (fd \<Rightarrow> bytes) \<times> (fd \<Rightarrow> bytes)" where
  "traffic s = (sent s, got s)"

named_theorems quiet \<open>calls that transfer nothing\<close>

lemma traffic_eq: "traffic s' = traffic s \<longleftrightarrow> sent s' = sent s \<and> got s' = got s"
  by (simp add: traffic_def)

lemma quiet_basic [quiet]:
  "traffic (wcat_log lv ev m s) = traffic s" "traffic (wcat_log_errno ev m s) = traffic s"
  "traffic (s\<lparr>errno_of := e\<rparr>) = traffic s" "traffic (close_quiet fd s) = traffic s"
  "traffic (snd (ssl_call s)) = traffic s" "traffic (snd (ssl_verify s)) = traffic s"
  "traffic (snd (ssl_finish s)) = traffic s" "traffic (snd (ssl_error_text s)) = traffic s"
  "traffic (snd (wcat_set_nonblock fd b s)) = traffic s" "traffic (snd (observe_stop s)) = traffic s"
  "traffic (snd (snd (sys_poll p s))) = traffic s"
  by (auto simp: traffic_def wcat_log_errno_def wcat_log_def Let_def ssl_call_def ssl_verify_def ssl_finish_def
      ssl_error_text_def wcat_set_nonblock_def observe_stop_def on_signal_def sys_poll_def
      split: list.splits poll_ans.splits)

lemma quiet_ssl [quiet]:
  "traffic (snd (ssl_calls3 s)) = traffic s" "traffic (log_openssl_error ev m s) = traffic s"
  "traffic (snd (client_verify vp ca ctx s)) = traffic s" "traffic (snd (wcat_tls_close t s)) = traffic s"
  by (auto simp: ssl_calls3_def log_openssl_error_def client_verify_def wcat_tls_close_def case_prod_unfold Let_def quiet
      split: option.splits)

lemma quiet_fail [quiet]:
  "traffic (snd (snd (tls_fail ev m t s))) = traffic s" "traffic (snd (snd (tls_invalid t s))) = traffic s"
  by (simp_all add: tls_fail_def tls_invalid_def case_prod_unfold Let_def quiet)

lemma quiet_handshake [quiet]:
  "traffic (snd (snd (client_handshake t sn vp s))) = traffic s" "traffic (snd (snd (server_handshake t rq s))) = traffic s"
  by (simp_all add: client_handshake_def server_handshake_def case_prod_unfold Let_def quiet)

lemma quiet_open [quiet]:
  "traffic (snd (snd (wcat_tls_client_open fd sn vp ca cert key s))) = traffic s"
  "traffic (snd (snd (wcat_tls_server_open fd cert key ca rq s))) = traffic s"
  by (simp_all add: wcat_tls_client_open_def wcat_tls_server_open_def case_prod_unfold Let_def quiet
      split: sum.splits option.splits)

lemma quiet_access_check [quiet]: "traffic (snd (wcat_access_check_fd L cfg fd s)) = traffic s"
  by (auto simp: wcat_access_check_fd_def fd_peer_addr_def quiet split: option.splits prod.splits peer.splits)

end
