(* ===== verification/Wcat_Negotiate.thy ===== *)
theory Wcat_Negotiate
  imports Wcat_Proxy
begin

text \<open>
  What the negotiations of src/proxy.c say on the wire: the addresses that are accepted, the SOCKS5
  request and how a server decodes it, how much of a reply is consumed, the HTTP header the server
  reads, and that the server understands the request the client sends.
\<close>

section \<open>Addresses\<close>

lemma split_host_port_Some:
  "split_host_port t hl pl = Some (h, p) \<longleftrightarrow>
     t = h @ CHR '':'' # p \<and> CHR '':'' \<notin> set p \<and> h \<noteq> [] \<and> p \<noteq> [] \<and> length h < hl \<and> length p < pl
     \<and> 1 \<le> wcat_parse_port (Some p)"
  (is "?L \<longleftrightarrow> ?R")
proof
  assume ?L
  then obtain h' p' where sp: "split_last (CHR '':'') t = Some (h', p')"
    by (auto simp: split_host_port_def split: option.splits)
  with \<open>?L\<close> show ?R
    by (auto simp: split_host_port_def split_last_Some split: if_splits)
next
  assume ?R
  then have "split_last (CHR '':'') t = Some (h, p)" by (simp add: split_last_Some)
  with \<open>?R\<close> show ?L by (simp add: split_host_port_def)
qed

section \<open>Reading\<close>

lemma sys_read_effect:
  assumes "sys_read fd len s = (r, s')"
  shows "sent s' = sent s" and "got s' = (got s)(fd := got s fd @ (case r of None \<Rightarrow> [] | Some b \<Rightarrow> b))"
  using sys_read_frame [OF assms] by (auto simp: fun_eq_iff)

lemma read_exact_effect:
  "read_exact fd len buf s = (rc, b, s') \<Longrightarrow> length buf \<le> len \<Longrightarrow>
     \<exists>d. b = buf @ d \<and> sent s' = sent s \<and> got s' = (got s)(fd := got s fd @ d)
       \<and> (rc = 0 \<and> length b = len \<or> rc = - 1 \<and> length b < len)"
proof (induction fd len buf s rule: read_exact.induct)
  case (1 fd len buf s)
  note u = read_exact.simps [of fd len buf s]
  show ?case
  proof (cases "length buf < len")
    case False
    with u "1.prems" show ?thesis by (intro exI [of _ "[]"]) auto
  next
    case True
    obtain r s1 where r: "sys_read fd (len - length buf) s = (r, s1)" by force
    note e = sys_read_effect [OF r]
    show ?thesis
    proof (cases r)
      case None
      show ?thesis
      proof (cases "errno_of s1 = EINTR")
        case intr: True
        with u True r None "1.prems" have "read_exact fd len buf s1 = (rc, b, s')" by simp
        from "1.IH"(1) [OF True r [symmetric] None intr this "1.prems"(2)] e None show ?thesis by simp
      next
        case False
        with u True r None "1.prems" e show ?thesis by (intro exI [of _ "[]"]) auto
      qed
    next
      case (Some d)
      show ?thesis
      proof (cases "d = []")
        case nil: True
        with u True r Some "1.prems" e show ?thesis by (intro exI [of _ "[]"]) auto
      next
        case False
        with u True r Some "1.prems" have run: "read_exact fd len (buf @ d) s1 = (rc, b, s')" by simp
        have "length d \<le> len - length buf" using sys_read_length [OF r [unfolded Some]] .
        then have "length (buf @ d) \<le> len" using True by simp
        from "1.IH"(2) [OF True r [symmetric] Some False run this] e Some show ?thesis by fastforce
      qed
    qed
  qed
qed

text \<open>
  The bytes that will arrive on a descriptor before the end of the stream or an error, however they
  are cut into pieces and however often the reads are interrupted.
\<close>

fun arriving :: "rd_ans list \<Rightarrow> bytes" where
  "arriving [] = []"
| "arriving (RdData d # q) = (if d = [] then [] else d @ arriving q)"
| "arriving (RdErr e # q) = (if e = EINTR then arriving q else [])"

lemma sys_read_arriving:
  assumes "arriving (rd_q s fd) \<noteq> []" and "0 < len" and "sys_read fd len s = (r, s')"
  shows "r = None \<and> errno_of s' = EINTR \<and> arriving (rd_q s' fd) = arriving (rd_q s fd)
    \<or> (\<exists>d. r = Some d \<and> d \<noteq> [] \<and> length d \<le> len \<and> arriving (rd_q s fd) = d @ arriving (rd_q s' fd))"
proof (cases "rd_q s fd")
  case Nil
  with assms(1) show ?thesis by simp
next
  case (Cons a q)
  with assms show ?thesis
    by (cases a) (auto simp: sys_read_def split: if_splits)
qed

lemma read_exact_arriving:
  "length buf \<le> len \<Longrightarrow> arriving (rd_q s fd) = d @ later \<Longrightarrow> length (buf @ d) = len \<Longrightarrow>
     \<exists>s'. read_exact fd len buf s = (0, buf @ d, s') \<and> arriving (rd_q s' fd) = later \<and> sent s' = sent s \<and> wr_q s' = wr_q s"
proof (induction fd len buf s arbitrary: d rule: read_exact.induct)
  case (1 fd len buf s)
  note u = read_exact.simps [of fd len buf s]
  show ?case
  proof (cases "length buf < len")
    case False
    with u "1.prems" show ?thesis by simp
  next
    case True
    obtain r s1 where r: "sys_read fd (len - length buf) s = (r, s1)" by force
    have ne: "arriving (rd_q s fd) \<noteq> []" using "1.prems" True by auto
    have w: "sent s1 = sent s" "wr_q s1 = wr_q s" using sys_read_frame [OF r] by simp_all
    from sys_read_arriving [OF ne _ r] True
    consider (intr) "r = None" "errno_of s1 = EINTR" "arriving (rd_q s1 fd) = arriving (rd_q s fd)"
      | (some) e where "r = Some e" "e \<noteq> []" "length e \<le> len - length buf" "arriving (rd_q s fd) = e @ arriving (rd_q s1 fd)"
      by auto
    then show ?thesis
    proof cases
      case intr
      from "1.IH"(1) [OF True r [symmetric] intr(1,2) "1.prems"(1), of d] intr(3) "1.prems" w
      show ?thesis using u True r intr(1,2) by simp
    next
      case some
      have le: "length e \<le> length d" using some(3) "1.prems"(3) by simp
      have eq: "e @ arriving (rd_q s1 fd) = d @ later" using some(4) "1.prems"(2) by simp
      have e: "e = take (length e) d" "arriving (rd_q s1 fd) = drop (length e) d @ later"
        using arg_cong [OF eq, of "take (length e)"] arg_cong [OF eq, of "drop (length e)"] le by simp_all
      have d: "e @ drop (length e) d = d" using e(1) by (metis append_take_drop_id)
      from "1.IH"(2) [OF True r [symmetric] some(1,2) _ e(2)] some(3) True "1.prems"(3) le
      show ?thesis using u True r some(1,2) w d by simp
    qed
  qed
qed

section \<open>SOCKS5\<close>

text \<open>How a server reads the request, after RFC 1928: version 5, CONNECT, a domain name.\<close>

definition socks5_decode :: "bytes \<Rightarrow> (string \<times> nat) option" where
  "socks5_decode b =
     (if length b < 5 \<or> b ! 0 \<noteq> CHR 0x05 \<or> b ! 1 \<noteq> CHR 0x01 \<or> b ! 3 \<noteq> CHR 0x03 then None
      else let n = code (b ! 4)
           in if length b \<noteq> n + 7 then None
              else Some (take n (drop 5 b), code (b ! (n + 5)) * 256 + code (b ! (n + 6))))"

lemma code_char_of_256: "n < 256 \<Longrightarrow> code (char_of n) = n"
  by (simp add: code_char_of)

lemma socks5_decode_request:
  assumes "length h \<le> 255" and "0 \<le> p" and "p \<le> 65535"
  shows "socks5_decode (socks5_request h p) = Some (h, nat p)"
proof -
  have n: "nat (p div 256) < 256" "nat (p mod 256) < 256" using assms by auto
  have hi: "socks5_request h p ! (length h + 5) = char_of (nat (p div 256))"
    and lo: "socks5_request h p ! (length h + 6) = char_of (nat (p mod 256))"
    by (simp_all add: socks5_request_def nth_append numeral_eq_Suc)
  have v: "nat (p div 256) * 256 + nat (p mod 256) = nat p" using assms by (simp add: nat_div_distrib nat_mod_distrib)
  have l: "code (char_of (length h)) = length h" using assms by (simp add: code_char_of_256)
  have d: "take (length h) (drop 5 (socks5_request h p)) = h"
    by (simp add: socks5_request_def numeral_eq_Suc)
  have f: "socks5_request h p ! 0 = CHR 0x05" "socks5_request h p ! 1 = CHR 0x01"
    "socks5_request h p ! 3 = CHR 0x03" "socks5_request h p ! 4 = char_of (length h)"
    "length (socks5_request h p) = length h + 7"
    by (simp_all add: socks5_request_def numeral_eq_Suc)
  show ?thesis
    unfolding socks5_decode_def f Let_def l d hi lo code_char_of_256 [OF n(1)] code_char_of_256 [OF n(2)] v by simp
qed

text \<open>The length of what follows the first four bytes of a reply.\<close>

definition reply_tail_ok :: "char \<Rightarrow> bytes \<Rightarrow> bool" where
  "reply_tail_ok atyp d \<longleftrightarrow>
     atyp = CHR 0x01 \<and> length d = 6
     \<or> atyp = CHR 0x03 \<and> d \<noteq> [] \<and> length d = code (d ! 0) + 3 \<and> length d \<le> REP_SIZE + 1"

lemma socks5_reply_tail_effect:
  assumes "socks5_reply_tail fd atyp s = (Ret 0, s')"
  shows "\<exists>d. sent s' = sent s \<and> got s' = (got s)(fd := got s fd @ d) \<and> reply_tail_ok atyp d"
proof -
  have "CHR 0x01 \<noteq> CHR 0x03" "CHR 0x01 \<noteq> CHR 0x04" "CHR 0x03 \<noteq> CHR 0x04" by simp_all
  consider (v4) "atyp = CHR 0x01" | (name) "atyp = CHR 0x03" | (v6) "atyp = CHR 0x04"
    | (other) "atyp \<noteq> CHR 0x01" "atyp \<noteq> CHR 0x03" "atyp \<noteq> CHR 0x04" by blast
  then show ?thesis
  proof cases
    case v4
    obtain rc b s1 where r: "read_exact fd 6 [] s = (rc, b, s1)" using prod_cases3 by blast
    from read_exact_effect [OF r] assms v4 r show ?thesis
      by (auto simp: socks5_reply_tail_def reply_tail_ok_def)
  next
    case name
    obtain rc b s1 where r: "read_exact fd 1 [] s = (rc, b, s1)" using prod_cases3 by blast
    obtain rc2 b2 s2 where r2: "read_exact fd (code (b ! 0) + 2) [] s1 = (rc2, b2, s2)" using prod_cases3 by blast
    from assms name r r2 have e: "\<not> rc < 0" "rc2 = 0" "s' = s2" "length b2 \<le> REP_SIZE"
      by (auto simp: socks5_reply_tail_def split: if_splits)
    from read_exact_effect [OF r] e(1) have 1: "length b = 1" "sent s1 = sent s" "got s1 = (got s)(fd := got s fd @ b)"
      by auto
    from read_exact_effect [OF r2] e(2) have 2: "length b2 = code (b ! 0) + 2" "sent s2 = sent s1"
      "got s2 = (got s1)(fd := got s1 fd @ b2)" by auto
    have "reply_tail_ok atyp (b @ b2)" using name 1(1) 2(1) e(4) by (auto simp: reply_tail_ok_def nth_append)
    with 1 2 e(3) show ?thesis by (intro exI [of _ "b @ b2"]) simp
  next
    case v6
    obtain rc b s1 where r: "read_exact fd 18 [] s = (rc, b, s1)" using prod_cases3 by blast
    from read_exact_effect [OF r] assms v6 r show ?thesis
      by (auto simp: socks5_reply_tail_def REP_SIZE_def split: if_splits)
  next
    case other
    with assms show ?thesis by (simp add: socks5_reply_tail_def)
  qed
qed

text \<open>
  A negotiation that does not report failure has come to the tail of the reply: what has been said and
  consumed by then.
\<close>

lemma socks5_negotiate_reply:
  assumes "socks5_negotiate fd h p s = (r, s')" and "r \<noteq> Ret (- 1)"
  shows "length h \<le> 255 \<and> 1 \<le> wcat_parse_port (Some p)
    \<and> (\<exists>v c atyp s4. sent s4 = (sent s)(fd := sent s fd @ socks5_hello @ socks5_request h (wcat_parse_port (Some p)))
         \<and> got s4 = (got s)(fd := got s fd @ [CHR 0x05, CHR 0x00, v, CHR 0x00, c, atyp])
         \<and> socks5_reply_tail fd atyp s4 = (r, s'))"
proof -
  define q where "q = wcat_parse_port (Some p)"
  obtain n s1 where w: "wcat_full_write fd socks5_hello s = (n, s1)" by force
  obtain rc rep s2 where rp: "read_exact fd 2 [] s1 = (rc, rep, s2)" using prod_cases3 by blast
  obtain n2 s3 where w2: "wcat_full_write fd (socks5_request h q) s2 = (n2, s3)" by force
  obtain rc2 b2 s4 where r2: "read_exact fd 4 [] s3 = (rc2, b2, s4)" using prod_cases3 by blast
  note run = assms(1) [unfolded socks5_negotiate_def Let_def q_def [symmetric] w prod.case rp w2 r2]
  have a: "\<not> (length h > 255 \<or> q < 0)" using run assms(2) by (auto split: if_splits)
  have n: "n = 3" using run a assms(2) by (auto split: if_splits prod.splits)
  have b: "\<not> (rc < 0 \<or> rep ! 0 \<noteq> CHR 0x05 \<or> rep ! 1 \<noteq> CHR 0x00)"
    using run [unfolded if_not_P [OF a] n rp] assms(2) by (auto split: if_splits)
  have c: "n2 = int (7 + length h)" using run [unfolded if_not_P [OF a] n rp] b w2 assms(2) by (auto split: if_splits)
  define rep2 where "rep2 = b2 @ drop (length b2) rep"
  have d: "rep2 ! 1 = CHR 0x00" "\<not> rc2 < 0" and tl: "socks5_reply_tail fd (rep2 ! 3) s4 = (r, s')"
    using run [unfolded if_not_P [OF a] n rp] b w2 c r2 assms(2) by (auto simp: rep2_def split: if_splits)
  have q: "1 \<le> q" using a wcat_parse_port_range [of "Some p"] by (auto simp: q_def)
  have 1: "sent s1 = (sent s)(fd := sent s fd @ socks5_hello)" "got s1 = got s"
    using wcat_full_write_all [of fd socks5_hello s s1] w n by (simp_all add: write_effect_def socks5_hello_def)
  have 2: "sent s2 = sent s1" "got s2 = (got s1)(fd := got s1 fd @ rep)" "length rep = 2"
    using read_exact_effect [OF rp] b by auto
  have 3: "sent s3 = (sent s2)(fd := sent s2 fd @ socks5_request h q)" "got s3 = got s2"
    using wcat_full_write_all [of fd "socks5_request h q" s2 s3] w2 c
    by (simp_all add: write_effect_def socks5_request_def)
  have 4: "sent s4 = sent s3" "got s4 = (got s3)(fd := got s3 fd @ b2)" "length b2 = 4"
    using read_exact_effect [OF r2] d by auto
  have rep: "rep = [CHR 0x05, CHR 0x00]" using 2(3) b by (auto simp: numeral_2_eq_2 length_Suc_conv)
  have b2: "b2 = [b2 ! 0, CHR 0x00, b2 ! 2, b2 ! 3]" "rep2 ! 3 = b2 ! 3"
    using 4(3) d(1) 2(3) by (auto simp: rep2_def numeral_eq_Suc length_Suc_conv)
  have "got s4 = (got s)(fd := got s fd @ [CHR 0x05, CHR 0x00, b2 ! 0, CHR 0x00, b2 ! 2, b2 ! 3])"
    using 1(2) 2(2) 3(2) 4(2) rep by (subst (asm) b2(1)) simp
  moreover have "sent s4 = (sent s)(fd := sent s fd @ socks5_hello @ socks5_request h q)"
    using 1(1) 2(1) 3(1) 4(1) by simp
  ultimately show ?thesis using a q tl b2(2) unfolding q_def by auto
qed

text \<open>The whole negotiation: what has been said and what has been consumed when it succeeds.\<close>

lemma socks5_negotiate_effect:
  assumes "socks5_negotiate fd h p s = (Ret 0, s')"
  shows "length h \<le> 255 \<and> 1 \<le> wcat_parse_port (Some p)
    \<and> sent s' = (sent s)(fd := sent s fd @ socks5_hello @ socks5_request h (wcat_parse_port (Some p)))
    \<and> (\<exists>v r atyp d. got s' = (got s)(fd := got s fd @ [CHR 0x05, CHR 0x00, v, CHR 0x00, r, atyp] @ d)
         \<and> reply_tail_ok atyp d)"
proof -
  from socks5_negotiate_reply [OF assms] obtain v c atyp s4 where
    r: "length h \<le> 255 \<and> 1 \<le> wcat_parse_port (Some p)"
      "sent s4 = (sent s)(fd := sent s fd @ socks5_hello @ socks5_request h (wcat_parse_port (Some p)))"
      "got s4 = (got s)(fd := got s fd @ [CHR 0x05, CHR 0x00, v, CHR 0x00, c, atyp])"
      "socks5_reply_tail fd atyp s4 = (Ret 0, s')" by auto
  from socks5_reply_tail_effect [OF r(4)] obtain d where
    d: "sent s' = sent s4" "got s' = (got s4)(fd := got s4 fd @ d)" "reply_tail_ok atyp d" by blast
  have "got s' = (got s)(fd := got s fd @ [CHR 0x05, CHR 0x00, v, CHR 0x00, c, atyp] @ d)" using r(3) d(2) by simp
  with r(1,2) d(1,3) show ?thesis by auto
qed

text \<open>An overrun: the server has sent an address longer than the buffer for it.\<close>

lemma socks5_overrun:
  assumes "socks5_negotiate fd h p s = (Overrun, s')"
  shows "\<exists>v c atyp d. got s' = (got s)(fd := got s fd @ [CHR 0x05, CHR 0x00, v, CHR 0x00, c, atyp] @ d)
    \<and> (atyp = CHR 0x03 \<or> atyp = CHR 0x04) \<and> REP_SIZE < length d"
proof -
  from socks5_negotiate_reply [OF assms] obtain v c atyp s4 where
    r: "got s4 = (got s)(fd := got s fd @ [CHR 0x05, CHR 0x00, v, CHR 0x00, c, atyp])"
      "socks5_reply_tail fd atyp s4 = (Overrun, s')" by auto
  have "\<exists>d. got s' = (got s4)(fd := got s4 fd @ d) \<and> (atyp = CHR 0x03 \<or> atyp = CHR 0x04) \<and> REP_SIZE < length d"
  proof (cases "atyp = CHR 0x03")
    case True
    obtain rc b s5 where b: "read_exact fd 1 [] s4 = (rc, b, s5)" using prod_cases3 by blast
    obtain rc2 b2 s6 where b2: "read_exact fd (code (b ! 0) + 2) [] s5 = (rc2, b2, s6)" using prod_cases3 by blast
    from r(2) True b b2 have e: "s' = s6" "REP_SIZE < length b2" by (auto simp: socks5_reply_tail_def split: if_splits)
    from read_exact_effect [OF b] read_exact_effect [OF b2] e have
      "got s' = (got s4)(fd := got s4 fd @ b @ b2)" by auto
    with True e(2) show ?thesis by (intro exI [of _ "b @ b2"]) simp
  next
    case False
    obtain rc b s5 where b: "read_exact fd 18 [] s4 = (rc, b, s5)" using prod_cases3 by blast
    from r(2) False b have e: "atyp = CHR 0x04" "s' = s5" "REP_SIZE < length b"
      by (auto simp: socks5_reply_tail_def split: if_splits prod.splits)
    from read_exact_effect [OF b] e show ?thesis by (intro exI [of _ b]) simp
  qed
  with r(1) show ?thesis by auto
qed

text \<open>
  A reply is complete when it has the length its address type calls for; the buffer only has room
  for an IPv4 address or a name of at most eight bytes.
\<close>

definition complete_tail :: "char \<Rightarrow> bytes \<Rightarrow> bool" where
  "complete_tail atyp d \<longleftrightarrow>
     atyp = CHR 0x01 \<and> length d = 6 \<or> atyp = CHR 0x04 \<and> length d = 18
     \<or> atyp = CHR 0x03 \<and> d \<noteq> [] \<and> length d = code (d ! 0) + 3"

lemma complete_tail_fits: "complete_tail atyp d \<Longrightarrow> reply_tail_ok atyp d \<longleftrightarrow> atyp = CHR 0x01 \<or> atyp = CHR 0x03 \<and> code (d ! 0) \<le> 8"
  by (auto simp: complete_tail_def reply_tail_ok_def REP_SIZE_def)

lemma socks5_reply_tail_outcome:
  assumes "arriving (rd_q s fd) = d @ later" and "complete_tail atyp d"
  shows "\<exists>s'. socks5_reply_tail fd atyp s = (if reply_tail_ok atyp d then Ret 0 else Overrun, s')
    \<and> arriving (rd_q s' fd) = later \<and> sent s' = sent s"
proof -
  from assms(2) consider (v4) "atyp = CHR 0x01" "length d = 6" | (v6) "atyp = CHR 0x04" "length d = 18"
    | (name) "atyp = CHR 0x03" "d \<noteq> []" "length d = code (d ! 0) + 3" by (auto simp: complete_tail_def)
  then show ?thesis
  proof cases
    case v4
    obtain s' where "read_exact fd 6 [] s = (0, d, s')" "arriving (rd_q s' fd) = later" "sent s' = sent s"
      using read_exact_arriving [of "[]" 6 s fd d later] assms(1) v4 by auto
    with v4 show ?thesis by (simp add: socks5_reply_tail_def reply_tail_ok_def)
  next
    case v6
    obtain s' where "read_exact fd 18 [] s = (0, d, s')" "arriving (rd_q s' fd) = later" "sent s' = sent s"
      using read_exact_arriving [of "[]" 18 s fd d later] assms(1) v6 by auto
    with v6 show ?thesis by (simp add: socks5_reply_tail_def reply_tail_ok_def REP_SIZE_def)
  next
    case name
    then obtain c e where d: "d = c # e" "length e = code c + 2" by (cases d) auto
    obtain s1 where 1: "read_exact fd 1 [] s = (0, [c], s1)" "arriving (rd_q s1 fd) = e @ later" "sent s1 = sent s"
      using read_exact_arriving [of "[]" 1 s fd "[c]" "e @ later"] assms(1) d by auto
    obtain s2 where 2: "read_exact fd (code c + 2) [] s1 = (0, e, s2)" "arriving (rd_q s2 fd) = later" "sent s2 = sent s1"
      using read_exact_arriving [of "[]" "code c + 2" s1 fd e later] 1(2) d(2) by auto
    have "length e > REP_SIZE \<longleftrightarrow> \<not> reply_tail_ok atyp d" using name(1) d by (auto simp: reply_tail_ok_def)
    with name(1) 1 2 show ?thesis by (simp add: socks5_reply_tail_def)
  qed
qed

lemma full_write_writable:
  assumes "writable (wr_q s fd)"
  shows "\<exists>s'. wcat_full_write fd buf s = (int (length buf), s') \<and> write_effect fd buf s s' \<and> writable (wr_q s' fd)"
proof -
  obtain n s' where w: "wcat_full_write fd buf s = (n, s')" by force
  with wcat_full_write_total [OF assms, of buf] have "n = int (length buf)" by simp
  moreover have "writable (wr_q s' fd)"
    using full_write_queue [OF assms, of 0 buf] w by (simp add: wcat_full_write_def)
  ultimately show ?thesis using w wcat_full_write_all by blast
qed

lemma socks5_outcome:
  assumes "writable (wr_q s fd)" and "length h \<le> 255" and "1 \<le> wcat_parse_port (Some p)"
    and "arriving (rd_q s fd) = [CHR 0x05, CHR 0x00, v, CHR 0x00, r, atyp] @ d @ later" and "complete_tail atyp d"
  shows "\<exists>s'. socks5_negotiate fd h p s = (if reply_tail_ok atyp d then Ret 0 else Overrun, s')
    \<and> arriving (rd_q s' fd) = later"
proof -
  define q where "q = wcat_parse_port (Some p)"
  obtain s1 where w: "wcat_full_write fd socks5_hello s = (3, s1)" and e1: "rd_q s1 = rd_q s" "writable (wr_q s1 fd)"
    using full_write_writable [OF assms(1), of socks5_hello] by (auto simp: socks5_hello_def write_effect_def)
  obtain s2 where r1: "read_exact fd 2 [] s1 = (0, [CHR 0x05, CHR 0x00], s2)"
    and e2: "arriving (rd_q s2 fd) = [v, CHR 0x00, r, atyp] @ d @ later" "wr_q s2 = wr_q s1"
    using read_exact_arriving [of "[]" 2 s1 fd "[CHR 0x05, CHR 0x00]" "[v, CHR 0x00, r, atyp] @ d @ later"] assms(4) e1
    by auto
  have "writable (wr_q s2 fd)" using e1 e2 by simp
  from full_write_writable [OF this, of "socks5_request h q"]
  obtain s3 where w2: "wcat_full_write fd (socks5_request h q) s2 = (int (7 + length h), s3)" and e3: "rd_q s3 = rd_q s2"
    by (auto simp: socks5_request_def write_effect_def)
  obtain s4 where r2: "read_exact fd 4 [] s3 = (0, [v, CHR 0x00, r, atyp], s4)" and e4: "arriving (rd_q s4 fd) = d @ later"
    using read_exact_arriving [of "[]" 4 s3 fd "[v, CHR 0x00, r, atyp]" "d @ later"] e2 e3 by auto
  have "socks5_negotiate fd h p s = socks5_reply_tail fd atyp s4"
    using assms(2,3) unfolding socks5_negotiate_def q_def [symmetric]
    by (simp add: w r1 w2 r2)
  with socks5_reply_tail_outcome [OF e4 assms(5)] show ?thesis by auto
qed

section \<open>HTTP CONNECT\<close>

text \<open>A header ends with the first empty line; the scan stops there and reads no further.\<close>

definition header_end :: "bytes \<Rightarrow> bool" where
  "header_end b \<longleftrightarrow> contains (crlf @ crlf) (c_string b) \<and> \<not> contains (crlf @ crlf) (c_string (butlast b))"

lemma c_string_append: "c_string (a @ b) = (if CHR 0x00 \<in> set a then c_string a else a @ c_string b)"
  by (induction a) (auto simp: c_string_def)

lemma contains_append: "contains pat a \<Longrightarrow> contains pat (a @ b)"
  by (metis append.assoc contains_iff)

lemma contains_c_string_append: "contains pat (c_string a) \<Longrightarrow> contains pat (c_string (a @ b))"
  using c_string_id [of a] by (auto simp: c_string_append intro: contains_append)

lemma contains_header_prefix:
  assumes "header_end b" and "prefix a b" and "a \<noteq> b"
  shows "\<not> contains (crlf @ crlf) (c_string a)"
proof
  assume c: "contains (crlf @ crlf) (c_string a)"
  from assms(2,3) obtain c' where "butlast b = a @ c'"
    by (metis append_butlast_last_id prefixE prefix_snoc self_append_conv butlast_append)
  with contains_c_string_append [OF c, of c'] assms(1) show False by (simp add: header_end_def)
qed

lemma read_http_header_arriving:
  "header_end (buf @ d) \<Longrightarrow> arriving (rd_q s fd) = d @ later \<Longrightarrow> length (buf @ d) < len \<Longrightarrow> d \<noteq> [] \<Longrightarrow>
     \<exists>s'. read_http_header fd len buf s = (Some (buf @ d), s') \<and> arriving (rd_q s' fd) = later"
proof (induction fd len buf s arbitrary: d rule: read_http_header.induct)
  case (1 fd len buf s)
  have l: "length buf + 1 < len" using "1.prems"(3,4) by (cases d) auto
  note u = read_http_header.simps [of fd len buf s, unfolded if_P [OF l]]
  obtain r s1 where r: "sys_read fd 1 s = (r, s1)" by force
  have ne: "arriving (rd_q s fd) \<noteq> []" using "1.prems"(2,4) by simp
  from sys_read_arriving [OF ne _ r]
  consider (intr) "r = None" "errno_of s1 = EINTR" "arriving (rd_q s1 fd) = arriving (rd_q s fd)"
    | (some) e where "r = Some e" "e \<noteq> []" "length e \<le> 1" "arriving (rd_q s fd) = e @ arriving (rd_q s1 fd)"
    by auto
  then show ?case
  proof cases
    case intr
    from "1.IH"(1) [OF l r [symmetric] intr(1,2) "1.prems"(1) _ "1.prems"(3,4)] intr(3) "1.prems"(2)
    show ?thesis using u r intr(1,2) by simp
  next
    case some
    then obtain c where e: "e = [c]" by (cases e) auto
    from "1.prems"(2,4) some(4) e obtain d' where d: "d = c # d'" "arriving (rd_q s1 fd) = d' @ later"
      by (cases d) auto
    show ?thesis
    proof (cases "d' = []")
      case True
      with "1.prems"(1) d e have "contains (crlf @ crlf) (c_string (buf @ e))" by (simp add: header_end_def)
      with u r some(1) e d True show ?thesis by simp
    next
      case False
      have "\<not> contains (crlf @ crlf) (c_string (buf @ e))"
        using contains_header_prefix [OF "1.prems"(1), of "buf @ e"] d e False by simp
      with "1.IH"(2) [OF l r [symmetric] some(1,2), of d'] "1.prems"(1,3) d e False u r some(1)
      show ?thesis by simp
    qed
  qed
qed

lemma read_http_header_end:
  "read_http_header fd len buf s = (Some b, s') \<Longrightarrow> \<not> contains (crlf @ crlf) (c_string buf) \<Longrightarrow>
     header_end b \<and> prefix buf b \<and> length b < len \<and> got s' = (got s)(fd := got s fd @ drop (length buf) b)"
proof (induction fd len buf s rule: read_http_header.induct)
  case (1 fd len buf s)
  have l: "length buf + 1 < len" using "1.prems"(1) by (auto simp: read_http_header.simps [of fd len buf s] split: if_splits)
  note u = read_http_header.simps [of fd len buf s, unfolded if_P [OF l]]
  obtain r s1 where r: "sys_read fd 1 s = (r, s1)" by force
  note e = sys_read_effect [OF r]
  show ?case
  proof (cases r)
    case None
    with "1.prems"(1) u r have i: "errno_of s1 = EINTR" "read_http_header fd len buf s1 = (Some b, s')"
      by (auto split: if_splits)
    from "1.IH"(1) [OF l r [symmetric] None i(1) i(2) "1.prems"(2)] e None show ?thesis by simp
  next
    case (Some d)
    with "1.prems"(1) u r have ne: "d \<noteq> []" by auto
    with sys_read_length [OF r [unfolded Some]] obtain c where d: "d = [c]" by (cases d) auto
    show ?thesis
    proof (cases "contains (crlf @ crlf) (c_string (buf @ d))")
      case True
      with "1.prems" u r Some ne have "b = buf @ d" "s' = s1" by auto
      with True "1.prems"(2) l e Some d show ?thesis by (simp add: header_end_def)
    next
      case False
      with "1.prems"(1) u r Some ne have run: "read_http_header fd len (buf @ d) s1 = (Some b, s')" by simp
      from "1.IH"(2) [OF l r [symmetric] Some ne False run False] e Some d show ?thesis
        by (auto simp: prefix_def)
    qed
  qed
qed

text \<open>The request of the client is one header, and the server finds host and port in it.\<close>

lemma contains_skip: "CHR 0x0D \<notin> set a \<Longrightarrow> contains (crlf @ crlf) (a @ b) \<longleftrightarrow> contains (crlf @ crlf) b"
  by (induction a) (auto simp: crlf_def)

lemma contains_crlf: "x \<noteq> CHR 0x0D \<Longrightarrow> contains (crlf @ crlf) (crlf @ x # b) \<longleftrightarrow> contains (crlf @ crlf) (x # b)"
  by (simp add: crlf_def)

definition plain_text :: "string \<Rightarrow> bool" where
  "plain_text t \<longleftrightarrow> CHR 0x00 \<notin> set t \<and> CHR 0x0D \<notin> set t \<and> CHR '' '' \<notin> set t"

lemma request_header_end:
  assumes "plain_text h" and "plain_text p"
  shows "header_end (http_connect_request h p)"
proof -
  define a where "a = ''CONNECT '' @ h @ '':'' @ p @ '' HTTP/1.1''"
  define b where "b = ''ost: '' @ h @ '':'' @ p"
  define c where "c = ''ser-Agent: wcat/0.1''"
  have eq: "http_connect_request h p = a @ crlf @ CHR ''H'' # b @ crlf @ CHR ''U'' # c @ crlf @ crlf"
    by (simp add: http_connect_request_def a_def b_def c_def)
  have no: "CHR 0x0D \<notin> set a" "CHR 0x0D \<notin> set (CHR ''H'' # b)" "CHR 0x0D \<notin> set (CHR ''U'' # c)"
    and nul: "CHR 0x00 \<notin> set (http_connect_request h p)"
    using assms by (auto simp: a_def b_def c_def plain_text_def http_connect_request_def crlf_def)
  have bl: "butlast (http_connect_request h p) = a @ crlf @ CHR ''H'' # b @ crlf @ CHR ''U'' # c @ crlf @ [CHR 0x0D]"
    by (simp add: eq butlast_append crlf_def)
  have "contains (crlf @ crlf) (http_connect_request h p)" unfolding eq contains_iff
    by (rule exI [of _ "a @ crlf @ CHR ''H'' # b @ crlf @ CHR ''U'' # c"]) simp
  moreover have "\<not> contains (crlf @ crlf) (butlast (http_connect_request h p))"
    using contains_skip [OF no(2), of "crlf @ CHR ''U'' # c @ crlf @ [CHR 0x0D]"] contains_skip [OF no(3), of "crlf @ [CHR 0x0D]"]
    unfolding bl by (simp add: contains_skip [OF no(1)] contains_crlf) (simp add: crlf_def)
  moreover have "CHR 0x00 \<notin> set (butlast (http_connect_request h p))" using nul by (meson in_set_butlastD)
  ultimately show ?thesis using nul by (simp add: header_end_def c_string_id)
qed

lemma parse_request:
  assumes "plain_text h" and "plain_text p" and "h \<noteq> []" and "length h < 256" and "length p < 32"
    and "CHR '':'' \<notin> set p" and "1 \<le> wcat_parse_port (Some p)"
  shows "parse_connect_request (http_connect_request h p) 256 32 = Some (h, p)"
proof -
  have "p \<noteq> []" using assms(7) by (auto simp: wcat_parse_port_def)
  with assms have sp: "split_host_port (h @ '':'' @ p) 256 32 = Some (h, p)" by (simp add: split_host_port_Some)
  define r where "r = ''HTTP/1.1'' @ crlf @ ''Host: '' @ h @ '':'' @ p @ crlf @ ''User-Agent: wcat/0.1'' @ crlf @ crlf"
  have "drop 8 (http_connect_request h p) = (h @ '':'' @ p) @ CHR '' '' # r"
    by (simp add: http_connect_request_def r_def)
  moreover have "CHR '' '' \<notin> set (h @ '':'' @ p)" using assms(1,2) by (simp add: plain_text_def)
  ultimately have "split_first (CHR '' '') (drop 8 (http_connect_request h p)) = Some (h @ '':'' @ p, r)"
    unfolding split_first_Some by blast
  moreover have "prefix ''CONNECT '' (http_connect_request h p)" by (simp add: http_connect_request_def)
  ultimately show ?thesis using assms(4,5) sp by (simp add: parse_connect_request_def)
qed

text \<open>The client of an HTTP proxy: it has sent the request and read a response with 200 in it.\<close>

lemma http_response_effect:
  "http_response_loop fd buf s = (Some b, s') \<Longrightarrow>
     prefix buf b \<and> sent s' = sent s \<and> got s' = (got s)(fd := got s fd @ drop (length buf) b)"
proof (induction fd buf s rule: http_response_loop.induct)
  case (1 fd buf s)
  note u = http_response_loop.simps [of fd buf s]
  show ?case
  proof (cases "length buf + 1 < 1024")
    case False
    with u "1.prems" show ?thesis by simp
  next
    case l: True
    obtain r s1 where r: "sys_read fd 1 s = (r, s1)" by force
    note e = sys_read_effect [OF r]
    from "1.prems" u l r obtain d where d: "r = Some d" "d \<noteq> []" by (cases r) (auto split: if_splits)
    show ?thesis
    proof (cases "contains (crlf @ crlf) (c_string (buf @ d))")
      case True
      with "1.prems" u l r d have "b = buf @ d" "s' = s1" by auto
      with e d show ?thesis by simp
    next
      case False
      with "1.prems" u l r d have run: "http_response_loop fd (buf @ d) s1 = (Some b, s')" by simp
      from "1.IH" [OF l r [symmetric] d False run] e d show ?thesis by (auto simp: prefix_def)
    qed
  qed
qed

lemma http_connect_effect:
  assumes "http_connect_negotiate fd h p s = (0, s')"
  shows "sent s' = (sent s)(fd := sent s fd @ http_connect_request h p)
    \<and> (\<exists>b. got s' = (got s)(fd := got s fd @ b) \<and> contains '' 200 '' (c_string b))"
proof -
  define q where "q = http_connect_request h p"
  obtain n s1 where w: "wcat_full_write fd q s = (n, s1)" by force
  obtain r s2 where l: "http_response_loop fd [] s1 = (r, s2)" by force
  note run = assms [unfolded http_connect_negotiate_def Let_def q_def [symmetric] w prod.case l]
  have n: "n = int (length q)" using run by (simp split: if_splits)
  obtain b where b: "r = Some b" "contains '' 200 '' (c_string b)" "s' = s2"
    using run n by (cases r) (auto split: if_splits)
  from wcat_full_write_all [OF w [unfolded n]] http_response_effect [OF l [unfolded b(1)]] b(2,3)
  show ?thesis by (auto simp: q_def write_effect_def)
qed

end
