(* ===== verification/Wcat_Filexfer.thy ===== *)
theory Wcat_Filexfer
  imports Wcat_Own Wcat_Negotiate
begin

text \<open>
  src/filexfer.c: the modes \<open>send\<close> and \<open>recv\<close>. Both open the file first and then one connection, to
  a peer or from one, with TLS on request, and copy from one to the other.
\<close>

section \<open>Definitions\<close>

lemma observe_stop_poll: "observe_stop s = (b, s') \<Longrightarrow> poll_q s' = poll_q s"
  by (auto simp: observe_stop_def on_signal_def Let_def split: list.splits if_splits)

lemma sys_poll_answered: "sys_poll p s = (rc, revs, s') \<Longrightarrow> 0 \<le> rc \<Longrightarrow> length (poll_q s') < length (poll_q s)"
  by (auto simp: sys_poll_def Let_def split: list.splits poll_ans.splits)

function accept_when_ready :: "fd \<Rightarrow> sys \<Rightarrow> (fd \<times> string \<times> string) option \<times> sys" where
  "accept_when_ready listener s =
     (let (stop, s0) = observe_stop s
      in if stop then (None, s0\<lparr>errno_of := EINTR\<rparr>)
         else let (rc, revs, s1) = sys_poll [(listener, {POLLIN})] s0
              in if rc < 0 then (if errno_of s1 = EINTR then accept_when_ready listener s1 else (None, s1))
                 else if rc = 0 then accept_when_ready listener s1
                 else if POLLIN \<in> revs ! 0 then wcat_accept listener s1
                 else if revs ! 0 \<inter> {POLLERR, POLLHUP, POLLNVAL} \<noteq> {} then (None, s1\<lparr>errno_of := ECONNABORTED\<rparr>)
                 else accept_when_ready listener s1)"
  by pat_completeness auto
termination
proof (relation "measure (\<lambda>(l, s). length (poll_q s))", goal_cases)
  case 1
  show ?case by simp
next
  case (2 l s x stop s0 y rc z revs s1)
  have "poll_q s0 = poll_q s" using 2(1,2) observe_stop_poll by metis
  moreover have "length (poll_q s1) < length (poll_q s0)" using 2 sys_poll_queue(2) [of "[(l, {POLLIN})]" s0 rc revs s1] by simp
  ultimately show ?case by simp
next
  case (3 l s x stop s0 y rc z revs s1)
  have "poll_q s0 = poll_q s" using 3(1,2) observe_stop_poll by metis
  moreover have "length (poll_q s1) < length (poll_q s0)"
    using 3 by (intro sys_poll_answered [of "[(l, {POLLIN})]" s0 rc revs s1]) simp_all
  ultimately show ?case by simp
next
  case (4 l s x stop s0 y rc z revs s1)
  have "poll_q s0 = poll_q s" using 4(1,2) observe_stop_poll by metis
  moreover have "length (poll_q s1) < length (poll_q s0)"
    using 4 by (intro sys_poll_answered [of "[(l, {POLLIN})]" s0 rc revs s1]) simp_all
  ultimately show ?case by simp
qed

declare accept_when_ready.simps [simp del]

definition relay_options :: "wcat_config \<Rightarrow> wcat_relay_options option" where
  "relay_options cfg = Some \<lparr>opt_timeout = timeout_ms cfg, opt_hex = hex cfg\<rparr>"

definition exit_code :: "int \<Rightarrow> int" where
  "exit_code rc = (if rc < 0 then 1 else 0)"

definition send_connect :: "wcat_config \<Rightarrow> wcat_proxy \<Rightarrow> sys \<Rightarrow> int run \<times> sys" where
  "send_connect cfg pr s =
     (if udp cfg then let (fd, s1) = wcat_udp_connect (host cfg) (port cfg) (family cfg) s in (Ret fd, s1)
      else wcat_proxy_connect (Some pr) (host cfg) (port cfg) (family cfg) (timeout_ms cfg) s)"

text \<open>From the connected socket on.\<close>

definition send_over :: "wcat_config \<Rightarrow> fd \<Rightarrow> fd \<Rightarrow> sys \<Rightarrow> int \<times> sys" where
  "send_over cfg f sock s =
     (if tls cfg
      then let (rc, t, s1) = wcat_tls_client_open sock (if sni cfg \<noteq> None then sni cfg else host cfg) (tls_verify cfg)
                 (ca_file cfg) (client_cert_file cfg) (client_key_file cfg) s
           in if rc < 0 then (1, close_quiet f s1)
              else let (n, s2) = wcat_copy_stream (wcat_stream_from_fd f ''file'') (wcat_stream_from_tls t ''network'')
                         (relay_options cfg) s1;
                       (_, s3) = wcat_tls_close t s2
                   in (exit_code n, close_quiet f s3)
      else let (n, s2) = wcat_copy_stream (wcat_stream_from_fd f ''file'') (wcat_stream_from_fd sock ''network'')
                 (relay_options cfg) s
           in (exit_code n, close_quiet f (close_quiet sock s2)))"

definition wcat_send_file :: "wcat_config \<Rightarrow> sys \<Rightarrow> int run \<times> sys" where
  "wcat_send_file cfg s =
     (let (f, s1) = sys_open s
      in if f < 0 then (Ret 1, wcat_log_errno ''file_open'' (text_of (file_path cfg)) s1)
         else case wcat_proxy_parse (proxy_url cfg) of
                None \<Rightarrow> (Ret 2, close_quiet f (wcat_log WCAT_LOG_ERROR ''proxy_parse'' ''invalid proxy URL'' s1))
              | Some pr \<Rightarrow>
                  (case send_connect cfg pr s1 of
                     (Overrun, s2) \<Rightarrow> (Overrun, s2)
                   | (Ret sock, s2) \<Rightarrow>
                       if sock < 0 then (Ret 1, close_quiet f (wcat_log_errno ''connect'' ''connect failed'' s2))
                       else let (rc, s3) = send_over cfg f sock s2 in (Ret rc, s3)))"

text \<open>From the accepted connection on; the file and the listener are closed by the caller.\<close>

definition recv_from_client :: "inet \<Rightarrow> wcat_config \<Rightarrow> fd \<Rightarrow> fd \<times> string \<times> string \<Rightarrow> sys \<Rightarrow> int \<times> sys" where
  "recv_from_client L cfg f peer s =
     (let (client, h, p) = peer; (allowed, s1) = wcat_access_check_fd L cfg client s
      in if \<not> allowed then (1, close_quiet client s1)
         else let s2 = wcat_log WCAT_LOG_INFO ''accept'' (''accepted '' @ h @ '':'' @ p) s1
              in if tls cfg
                 then let (rc, t, s3) = wcat_tls_server_open client (cert_file cfg) (key_file cfg) (ca_file cfg)
                            (tls_require_client_cert cfg) s2
                      in if rc < 0 then (1, s3)
                         else let (n, s4) = wcat_copy_stream (wcat_stream_from_tls t ''network'') (wcat_stream_from_fd f ''file'')
                                    (relay_options cfg) s3;
                                  (_, s5) = wcat_tls_close t s4
                              in (exit_code n, s5)
                 else let (n, s4) = wcat_copy_stream (wcat_stream_from_fd client ''network'') (wcat_stream_from_fd f ''file'')
                            (relay_options cfg) s2
                      in (exit_code n, close_quiet client s4))"

definition wcat_recv_file :: "inet \<Rightarrow> wcat_config \<Rightarrow> sys \<Rightarrow> int \<times> sys" where
  "wcat_recv_file L cfg s =
     (let (f, s1) = sys_open s
      in if f < 0 then (1, wcat_log_errno ''file_open'' (text_of (file_path cfg)) s1)
         else let (listener, s2) = (if udp cfg then wcat_udp_bind (host cfg) (port cfg) (family cfg) s1
                                    else wcat_tcp_listen (host cfg) (port cfg) (family cfg) 16 s1)
              in if listener < 0 then (1, close_quiet f (wcat_log_errno ''listen'' ''listen failed'' s2))
                 else if udp cfg
                 then let (n, s3) = wcat_copy_stream (wcat_stream_from_fd listener ''network'') (wcat_stream_from_fd f ''file'')
                            (relay_options cfg) s2
                      in (exit_code n, close_quiet f (close_quiet listener s3))
                 else let (rc, s4) = (case accept_when_ready listener s2 of
                                        (None, s3) \<Rightarrow> (1, s3)
                                      | (Some peer, s3) \<Rightarrow> recv_from_client L cfg f peer s3)
                      in (rc, close_quiet f (close_quiet listener s4)))"

section \<open>Nothing stays open\<close>

text \<open>The wait transfers nothing and holds nothing; what it returns comes from one \<open>wcat_accept\<close>.\<close>

lemma accept_when_ready_via:
  "accept_when_ready l s = (r, s') \<Longrightarrow>
     r = None \<and> rest_of {} s' = rest_of {} s
     \<or> (\<exists>u. rest_of {} u = rest_of {} s \<and> traffic u = traffic s \<and> wcat_accept l u = (r, s'))"
proof (induction l s rule: accept_when_ready.induct)
  case (1 l s)
  obtain stop u where o: "observe_stop s = (stop, u)" by force
  obtain rc revs s1 where p: "sys_poll [(l, {POLLIN})] u = (rc, revs, s1)" using prod_cases3 by blast
  have e: "rest_of {} u = rest_of {} s" "rest_of {} s1 = rest_of {} s" using rest_stop [OF o] rest_poll1 [OF p] by simp_all
  have t: "traffic s1 = traffic s" using quiet_basic(10) [of s] quiet_basic(11) [of "[(l, {POLLIN})]" u] o p by simp
  note run = "1.prems" [unfolded accept_when_ready.simps [of l s] o p prod.case Let_def]
  consider (stop) "stop" | (err) "\<not> stop" "rc < 0" "errno_of s1 \<noteq> EINTR"
    | (intr) "\<not> stop" "rc < 0" "errno_of s1 = EINTR" | (idle) "\<not> stop" "\<not> rc < 0" "rc = 0"
    | (acc) "\<not> stop" "\<not> rc < 0" "rc \<noteq> 0" "POLLIN \<in> revs ! 0"
    | (hup) "\<not> stop" "\<not> rc < 0" "rc \<noteq> 0" "POLLIN \<notin> revs ! 0" "revs ! 0 \<inter> {POLLERR, POLLHUP, POLLNVAL} \<noteq> {}"
    | (again) "\<not> stop" "\<not> rc < 0" "rc \<noteq> 0" "POLLIN \<notin> revs ! 0" "\<not> revs ! 0 \<inter> {POLLERR, POLLHUP, POLLNVAL} \<noteq> {}"
    by blast
  then show ?case
  proof cases
    case stop
    with run e show ?thesis by (auto simp: rest)
  next
    case err
    with run e show ?thesis by auto
  next
    case intr
    then have r: "accept_when_ready l s1 = (r, s')" using run by simp
    from "1.IH"(1) [OF o [symmetric] refl intr(1) p [symmetric] refl refl intr(2,3) r] e t show ?thesis by simp
  next
    case idle
    then have r: "accept_when_ready l s1 = (r, s')" using run by simp
    from "1.IH"(2) [OF o [symmetric] refl idle(1) p [symmetric] refl refl idle(2,3) r] e t show ?thesis by simp
  next
    case acc
    then have "wcat_accept l s1 = (r, s')" using run by simp
    with e t show ?thesis by blast
  next
    case hup
    with run e show ?thesis by (auto simp: rest)
  next
    case again
    then have r: "accept_when_ready l s1 = (r, s')" using run by simp
    from "1.IH"(3) [OF o [symmetric] refl again(1) p [symmetric] refl refl again(2-5) r] e t show ?thesis by simp
  qed
qed

lemma owns_accept_when_ready:
  assumes "accept_when_ready l s = (r, s')" and "owns X C s0 s"
  shows "owns (case r of None \<Rightarrow> X | Some (fd, _, _) \<Rightarrow> insert fd X) C s0 s'"
  using accept_when_ready_via [OF assms(1)]
proof
  assume "r = None \<and> rest_of {} s' = rest_of {} s"
  with owns_io [OF assms(2), of s'] show ?thesis by simp
next
  assume "\<exists>u. rest_of {} u = rest_of {} s \<and> traffic u = traffic s \<and> wcat_accept l u = (r, s')"
  then obtain u where "rest_of {} u = rest_of {} s" and a: "wcat_accept l u = (r, s')" by blast
  from owns_accept [OF owns_io [OF assms(2) this(1)] a] show ?thesis .
qed

lemma send_connect_makes_fd: "send_connect cfg pr s = (Ret r, s') \<Longrightarrow> makes_fd s r s'"
  by (auto simp: send_connect_def split: if_splits prod.splits
      intro: proxied.make_fd new_socket_makes_fd [OF udp_connect.make_new])

lemma owns_send_over:
  assumes "owns {f, sock} C s0 s" and "f \<noteq> sock" and "send_over cfg f sock s = (rc, s')"
  shows "owns {} C s0 s'"
proof (cases "tls cfg")
  case False
  obtain n s2 where c: "wcat_copy_stream (wcat_stream_from_fd f ''file'') (wcat_stream_from_fd sock ''network'')
      (relay_options cfg) s = (n, s2)" by force
  have "owns (insert sock {f}) C s0 s2" using owns_copy [OF assms(1) c] by (simp add: insert_commute)
  from owns_close [OF this] have "owns (insert f {}) C s0 (close_quiet sock s2)" using assms(2) by simp
  from owns_close [OF this] assms(3) c False show ?thesis by (auto simp: send_over_def)
next
  case True
  obtain r t s1 where o: "wcat_tls_client_open sock (if sni cfg \<noteq> None then sni cfg else host cfg) (tls_verify cfg)
      (ca_file cfg) (client_cert_file cfg) (client_key_file cfg) s = (r, t, s1)" using prod_cases3 by blast
  have w: "owns (insert sock {f}) C s0 s" using assms(1) by (simp add: insert_commute)
  from owns_client_open [OF w o] consider (ok) "r = 0" "owns (insert sock {f}) C s0 s1" "tfd t = sock" "owns_fd t"
    | (failed) "r = - 1" "owns (insert f {}) C s0 s1" using assms(2) by auto
  then show ?thesis
  proof cases
    case failed
    with assms(3) True o owns_close [OF failed(2)] show ?thesis by (auto simp: send_over_def)
  next
    case ok
    obtain n s2 where c: "wcat_copy_stream (wcat_stream_from_fd f ''file'') (wcat_stream_from_tls t ''network'')
        (relay_options cfg) s1 = (n, s2)" by force
    have "owns (insert (tfd t) {f}) C s0 s2" using owns_copy [OF ok(2) c] ok(3) by simp
    from owns_tls_close [OF this ok(4)] have "owns (insert f {}) C s0 (snd (wcat_tls_close t s2))" using assms(2) ok(3) by simp
    from owns_close [OF this] assms(3) True o c ok(1) show ?thesis by (auto simp: send_over_def case_prod_unfold)
  qed
qed

lemma wcat_send_file_held:
  assumes "wcat_send_file cfg s = (Ret rc, s')"
  shows "held s' = held s"
proof -
  obtain f s1 where f: "sys_open s = (f, s1)" by force
  note w1 = owns_sys_open [OF owns_refl f]
  show ?thesis
  proof (cases "f < 0")
    case True
    with w1 have "owns {} {#} s (wcat_log_errno ''file_open'' (text_of (file_path cfg)) s1)" by (auto intro: own)
    with assms f True show ?thesis by (auto simp: wcat_send_file_def intro: owns_held)
  next
    case False
    with w1 have w1: "owns (insert f {}) {#} s s1" by simp
    show ?thesis
    proof (cases "wcat_proxy_parse (proxy_url cfg)")
      case None
      with assms f False have "s' = close_quiet f (wcat_log WCAT_LOG_ERROR ''proxy_parse'' ''invalid proxy URL'' s1)"
        by (simp add: wcat_send_file_def)
      with owns_close [OF owns_log(1) [OF w1]] show ?thesis by (simp add: owns_held)
    next
      case (Some pr)
      obtain q s2 where c: "send_connect cfg pr s1 = (q, s2)" by force
      with assms f False Some obtain sock where q: "q = Ret sock" by (cases q) (auto simp: wcat_send_file_def)
      note w2 = owns_make [OF w1 send_connect_makes_fd [OF c [unfolded q]]]
      show ?thesis
      proof (cases "sock < 0")
        case True
        with assms f False Some c q have "s' = close_quiet f (wcat_log_errno ''connect'' ''connect failed'' s2)"
          by (simp add: wcat_send_file_def)
        moreover have "owns (insert f {}) {#} s s2" using w2 True by simp
        note owns_close [OF owns_log(2) [OF this]]
        ultimately show ?thesis by (simp add: owns_held)
      next
        case pos: False
        have "f \<in> set (open_fds s1)" using f False by (auto simp: sys_open_def add_fd_def split: list.splits option.splits)
        with send_connect_makes_fd [OF c [unfolded q]] pos have ne: "f \<noteq> sock" by (auto simp: makes_fd_def)
        obtain r s3 where so: "send_over cfg f sock s2 = (r, s3)" by force
        with assms f False Some c q pos have "s' = s3" by (simp add: wcat_send_file_def)
        with owns_send_over [OF _ ne so] w2 pos show ?thesis by (simp add: insert_commute owns_held)
      qed
    qed
  qed
qed

lemma owns_recv_from_client:
  assumes "owns (insert client X) C s0 s" and "recv_from_client L cfg f (client, h, p) s = (rc, s')"
  shows "owns (X - {client}) C s0 s'"
proof -
  obtain ok s1 where a: "wcat_access_check_fd L cfg client s = (ok, s1)" by force
  note w1 = owns_access [OF assms(1) a]
  define s2 where "s2 = wcat_log WCAT_LOG_INFO ''accept'' (''accepted '' @ h @ '':'' @ p) s1"
  have w2: "owns (insert client X) C s0 s2" unfolding s2_def by (rule owns_log [OF w1])
  note run = assms(2) [unfolded recv_from_client_def Let_def a prod.case s2_def [symmetric]]
  consider (denied) "\<not> ok" | (plain) "ok" "\<not> tls cfg" | (tls) "ok" "tls cfg" by blast
  then show ?thesis
  proof cases
    case denied
    with run owns_close [OF w1] show ?thesis by auto
  next
    case plain
    obtain n s4 where c: "wcat_copy_stream (wcat_stream_from_fd client ''network'') (wcat_stream_from_fd f ''file'')
        (relay_options cfg) s2 = (n, s4)" by force
    from owns_close [OF owns_copy [OF w2 c]] run plain c show ?thesis by simp
  next
    case tls
    obtain r t s3 where o: "wcat_tls_server_open client (cert_file cfg) (key_file cfg) (ca_file cfg)
        (tls_require_client_cert cfg) s2 = (r, t, s3)" using prod_cases3 by blast
    from owns_server_open [OF w2 o] consider (ok) "r = 0" "owns (insert client X) C s0 s3" "tfd t = client" "owns_fd t"
      | (failed) "r = - 1" "owns (X - {client}) C s0 s3" by auto
    then show ?thesis
    proof cases
      case failed
      with run tls o show ?thesis by simp
    next
      case ok
      obtain n s4 where c: "wcat_copy_stream (wcat_stream_from_tls t ''network'') (wcat_stream_from_fd f ''file'')
          (relay_options cfg) s3 = (n, s4)" by force
      have "owns (insert (tfd t) X) C s0 s4" using owns_copy [OF ok(2) c] ok(3) by simp
      from owns_tls_close [OF this ok(4)] run tls o ok c show ?thesis by (simp add: case_prod_unfold)
    qed
  qed
qed

lemma wcat_recv_file_held: "held (snd (wcat_recv_file L cfg s)) = held s"
proof -
  obtain f s1 where f: "sys_open s = (f, s1)" by force
  note w1 = owns_sys_open [OF owns_refl f]
  obtain l s2 where l: "(if udp cfg then wcat_udp_bind (host cfg) (port cfg) (family cfg) s1
      else wcat_tcp_listen (host cfg) (port cfg) (family cfg) 16 s1) = (l, s2)" by force
  then have m: "makes_fd s1 l s2"
    by (auto split: if_splits intro: new_socket_makes_fd [OF udp_bind.make_new] new_socket_makes_fd [OF tcp_listen.make_new])
  note run = wcat_recv_file_def [of L cfg s, unfolded f prod.case Let_def l]
  show ?thesis
  proof (cases "f < 0")
    case True
    with w1 have "owns {} {#} s (wcat_log_errno ''file_open'' (text_of (file_path cfg)) s1)" by (auto intro: own)
    with run True show ?thesis by (auto intro: owns_held)
  next
    case False
    then have "owns (insert f {}) {#} s s1" using w1 by simp
    note w2 = owns_make [OF this m]
    have "f \<in> set (open_fds s1)" using f False by (auto simp: sys_open_def add_fd_def split: list.splits option.splits)
    then have ne: "f \<noteq> l" if "\<not> l < 0" using m that by (auto simp: makes_fd_def)
    have both: "held (close_quiet f (close_quiet l u)) = held s" if "owns {f, l} {#} s u" "\<not> l < 0" for u
    proof -
      have "owns (insert l {f}) {#} s u" using that(1) by (simp add: insert_commute)
      from owns_close [OF this] ne [OF that(2)] have "owns (insert f {}) {#} s (close_quiet l u)" by simp
      from owns_close [OF this] show ?thesis by (simp add: owns_held)
    qed
    consider (nolisten) "l < 0" | (udp) "\<not> l < 0" "udp cfg" | (tcp) "\<not> l < 0" "\<not> udp cfg" by blast
    then show ?thesis
    proof cases
      case nolisten
      then have "owns (insert f {}) {#} s s2" using w2 by simp
      from owns_close [OF owns_log(2) [OF this]] run False nolisten show ?thesis by (simp add: owns_held)
    next
      case udp
      obtain n s3 where c: "wcat_copy_stream (wcat_stream_from_fd l ''network'') (wcat_stream_from_fd f ''file'')
          (relay_options cfg) s2 = (n, s3)" by force
      have "owns {f, l} {#} s s2" using w2 udp by (simp add: insert_commute)
      from both [OF owns_copy [OF this c] udp(1)] run False udp c show ?thesis by simp
    next
      case tcp
      have w2: "owns {f, l} {#} s s2" using w2 tcp by (simp add: insert_commute)
      obtain a s3 where a: "accept_when_ready l s2 = (a, s3)" by force
      note w3 = owns_accept_when_ready [OF a w2]
      show ?thesis
      proof (cases a)
        case None
        with both [OF _ tcp(1)] w3 run False tcp a show ?thesis by simp
      next
        case (Some x)
        then obtain c h p where x: "a = Some (c, h, p)" by (cases x) auto
        obtain rc s4 where rf: "recv_from_client L cfg f (c, h, p) s3 = (rc, s4)" by force
        have "owns ({f, l} - {c}) {#} s s4" using owns_recv_from_client [OF _ rf, of "{f, l}"] w3 x by simp
        then have "owns {f, l} {#} s s4" by (rule owns_weaken) (use w2 in auto)
        from both [OF this tcp(1)] run False tcp a x rf show ?thesis by simp
      qed
    qed
  qed
qed

section \<open>What is transferred\<close>

lemma streams_of [simp]:
  "stream_in (wcat_stream_from_fd fd nm) = fd" "stream_out (wcat_stream_from_fd fd nm) = fd"
  "stream_in (wcat_stream_from_tls t nm) = tfd t" "stream_out (wcat_stream_from_tls t nm) = tfd t"
  by (simp_all add: stream_in_def stream_out_def wcat_stream_from_fd_def wcat_stream_from_tls_def)

lemma exit_code_0: "exit_code n = 0 \<longleftrightarrow> 0 \<le> n" and exit_code_range: "exit_code n \<in> {0, 1}"
  by (simp_all add: exit_code_def)

lemma open_result_fd: "open_result fd s x \<Longrightarrow> x = (r, t, s') \<Longrightarrow> \<not> r < 0 \<Longrightarrow> tfd t = fd"
  by (auto simp: open_result_def)

text \<open>The new descriptors: the file's and the connection's.\<close>

lemma sys_open_effect:
  assumes "sys_open s = (f, s1)" and "0 \<le> f"
  shows "f \<notin> set (open_fds s) \<and> f \<in> set (open_fds s1) \<and> sent s1 f = [] \<and> got s1 f = []"
  using assms by (auto simp: sys_open_def add_fd_def split: list.splits option.splits)

lemma accept_when_ready_effect:
  assumes "accept_when_ready l s = (Some (c, h, p), s')"
  shows "0 \<le> c \<and> c \<notin> set (open_fds s) \<and> sent s' = (sent s)(c := []) \<and> got s' = (got s)(c := [])
    \<and> length (acc_q s' l) < length (acc_q s l)"
proof -
  from accept_when_ready_via [OF assms] obtain u
    where u: "rest_of {} u = rest_of {} s" "traffic u = traffic s" "wcat_accept l u = (Some (c, h, p), s')" by auto
  from wcat_accept_effect [OF u(3)] wcat_accept_queue [OF u(3)] u(1,2) rest_open [OF u(1)] rest_fields(1) [OF u(1)]
  show ?thesis by (simp add: traffic_def)
qed

text \<open>What a proxy is told before the data.\<close>

definition proxy_preamble :: "wcat_proxy \<Rightarrow> cstr \<Rightarrow> cstr \<Rightarrow> bytes" where
  "proxy_preamble pr h p =
     (case proxy_type pr of
        WCAT_PROXY_NONE \<Rightarrow> []
      | WCAT_PROXY_SOCKS5 \<Rightarrow> socks5_hello @ socks5_request (the h) (wcat_parse_port (Some (the p)))
      | WCAT_PROXY_HTTP \<Rightarrow> http_connect_request (the h) (the p))"

lemma negotiate_preamble:
  assumes "proxy_negotiate (proxy_type pr) fd (the h) (the p) s = (Ret 0, s')" and "proxy_type pr \<noteq> WCAT_PROXY_NONE"
  shows "sent s' = (sent s)(fd := sent s fd @ proxy_preamble pr h p) \<and> (\<forall>f. f \<noteq> fd \<longrightarrow> got s' f = got s f)"
proof (cases "proxy_type pr")
  case WCAT_PROXY_SOCKS5
  with assms(1) have "socks5_negotiate fd (the h) (the p) s = (Ret 0, s')" by (simp add: proxy_negotiate_def)
  from socks5_negotiate_effect [OF this] WCAT_PROXY_SOCKS5 show ?thesis by (auto simp: proxy_preamble_def)
next
  case WCAT_PROXY_HTTP
  with assms(1) have "http_connect_negotiate fd (the h) (the p) s = (0, s')"
    by (auto simp: proxy_negotiate_def split: prod.splits)
  from http_connect_effect [OF this] WCAT_PROXY_HTTP show ?thesis by (auto simp: proxy_preamble_def)
qed (use assms(2) in simp)

lemma proxy_connect_preamble:
  assumes "wcat_proxy_connect (Some pr) h p fam tmo s = (Ret fd, s')" and "0 \<le> fd"
  shows "sent s' fd = proxy_preamble pr h p \<and> fd \<notin> set (open_fds s)
    \<and> (\<forall>f \<in> set (open_fds s). sent s' f = sent s f \<and> got s' f = got s f)"
proof (cases "proxy_type pr = WCAT_PROXY_NONE")
  case True
  then have "wcat_tcp_connect h p fam tmo s = (fd, s')"
    using assms(1) by (auto simp: wcat_proxy_connect_def split: prod.splits)
  from tcp_connect.make_new [OF this] assms(2) True show ?thesis
    by (auto simp: new_socket_def sock_frame_def proxy_preamble_def)
next
  case False
  obtain c s1 where c: "wcat_tcp_connect (Some (proxy_host pr)) (Some (proxy_port pr)) fam tmo s = (c, s1)" by force
  obtain q s2 where n: "proxy_negotiate (proxy_type pr) c (the h) (the p) s1 = (q, s2)" by force
  have run: "c \<ge> 0 \<and> q = Ret 0 \<and> fd = c \<and> s' = s2"
    using assms False c n by (auto simp: wcat_proxy_connect_def case_prod_unfold Let_def split: if_splits)
  from tcp_connect.make_new [OF c] run have 1: "c \<notin> set (open_fds s)" "sent s1 c = []"
    "\<forall>f \<in> set (open_fds s). sent s1 f = sent s f \<and> got s1 f = got s f"
    by (auto simp: new_socket_def sock_frame_def)
  from negotiate_preamble [OF _ False] n run have 2: "sent s' = (sent s1)(c := sent s1 c @ proxy_preamble pr h p)"
    "\<forall>f. f \<noteq> c \<longrightarrow> got s' f = got s1 f" by auto
  from 1 2 run show ?thesis by auto
qed

end
