(* ===== verification/Wcat_Quic.thy ===== *)
theory Wcat_Quic
  imports Wcat_Filexfer "HOL-Library.Signed_Division"
begin

text \<open>
  src/quic.c: QUIC connections over OpenSSL. The library's calls answer from scripts, as for TLS;
  what is modelled is what the code asks of it and what it does with the answers. The callback that
  selects the application protocol walks the peer's list itself.
\<close>

section \<open>Application protocols\<close>

definition default_alpn :: "cstr \<Rightarrow> string" where
  "default_alpn a = (case a of None \<Rightarrow> ''wcat/1'' | Some t \<Rightarrow> t)"

definition alpn_wire :: "string \<Rightarrow> bytes" where
  "alpn_wire a = char_of (length a) # a"

definition set_alpn :: "cstr \<Rightarrow> sys \<Rightarrow> bytes option \<times> sys" where
  "set_alpn alpn_name s =
     (let a = default_alpn alpn_name
      in if length a = 0 \<or> length a > 255 then (None, s\<lparr>errno_of := EINVAL\<rparr>)
         else let (ok, s1) = ssl_call s in (if ok then Some (alpn_wire a) else None, s1))"

function select_alpn_loop :: "string \<Rightarrow> bytes \<Rightarrow> nat \<Rightarrow> (nat \<times> nat) option" where
  "select_alpn_loop a inp off =
     (if off < length inp
      then let item_len = code (inp ! off); off1 = off + 1
           in if item_len > length inp - off1 then None
              else if item_len = length a \<and> take (length a) (drop off1 inp) = a then Some (off1, item_len)
              else select_alpn_loop a inp (off1 + item_len)
      else None)"
  by pat_completeness auto
termination by (relation "measure (\<lambda>(a, inp, off). length inp - off)") auto

declare select_alpn_loop.simps [simp del]

text \<open>\<open>None\<close> is a fatal alert; otherwise the position and the length of the choice.\<close>

definition select_alpn_cb :: "cstr \<Rightarrow> bytes \<Rightarrow> (nat \<times> nat) option" where
  "select_alpn_cb alpn_name inp =
     (let a = default_alpn alpn_name
      in if length a = 0 \<or> length a > 255 then None else select_alpn_loop a inp 0)"

section \<open>Contexts\<close>

definition configure_client_ctx :: "wcat_config \<Rightarrow> ssl_ctx \<Rightarrow> sys \<Rightarrow> ssl_ctx option \<times> sys" where
  "configure_client_ctx cfg ctx s =
     (let (v, s1) = client_verify (tls_verify cfg) (ca_file cfg) ctx s
      in case v of
           Inl message \<Rightarrow> (None, log_openssl_error ''quic_ca'' message s1)
         | Inr ctx1 \<Rightarrow>
             if client_cert_file cfg \<noteq> None \<or> client_key_file cfg \<noteq> None
             then if client_cert_file cfg = None \<or> client_key_file cfg = None then (None, s1\<lparr>errno_of := EINVAL\<rparr>)
                  else let (ok, s2) = ssl_calls3 s1
                       in if \<not> ok
                          then (None, log_openssl_error ''quic_client_certificate''
                                  ''failed to load QUIC client certificate or key'' s2)
                          else (Some (ctx1\<lparr>ctx_cert := Some (the (client_cert_file cfg), the (client_key_file cfg))\<rparr>), s2)
             else (Some ctx1, s1))"

definition configure_server_ctx :: "wcat_config \<Rightarrow> ssl_ctx \<Rightarrow> sys \<Rightarrow> ssl_ctx option \<times> sys" where
  "configure_server_ctx cfg ctx s =
     (if cert_file cfg = None \<or> key_file cfg = None then (None, s\<lparr>errno_of := EINVAL\<rparr>)
      else let (ok, s1) = ssl_calls3 s
           in if \<not> ok then (None, log_openssl_error ''quic_certificate'' ''failed to load QUIC certificate or key'' s1)
              else let ctx1 = ctx\<lparr>ctx_cert := Some (the (cert_file cfg), the (key_file cfg))\<rparr>
                   in if tls_require_client_cert cfg
                      then case ca_file cfg of
                             None \<Rightarrow> (None, s1\<lparr>errno_of := EINVAL\<rparr>)
                           | Some f \<Rightarrow>
                               (let (lok, s2) = ssl_call s1
                                in if \<not> lok
                                   then (None, log_openssl_error ''quic_ca'' ''failed to load client certificate CA file'' s2)
                                   else (Some (ctx1\<lparr>ctx_ca := Some (CaFile f), ctx_verify := SSL_VERIFY_REQUIRED,
                                                    ctx_alpn := Some (alpn cfg)\<rparr>), s2))
                      else (Some (ctx1\<lparr>ctx_verify := SSL_VERIFY_NONE, ctx_alpn := Some (alpn cfg)\<rparr>), s1))"

section \<open>Waiting\<close>

definition ssl_event_timeout :: "sys \<Rightarrow> (int \<times> int) option \<times> sys" where
  "ssl_event_timeout s = (case ssl_tmo_q s of [] \<Rightarrow> (None, s) | a # q \<Rightarrow> (a, s\<lparr>ssl_tmo_q := q\<rparr>))"

definition quic_event_timeout_ms :: "int \<Rightarrow> sys \<Rightarrow> int \<times> sys" where
  "quic_event_timeout_ms fallback_ms s =
     (case ssl_event_timeout s of
        (None, s1) \<Rightarrow> (fallback_ms, s1)
      | (Some (tv_sec, tv_usec), s1) \<Rightarrow>
          (let ms = tv_sec * 1000 + (tv_usec + 999) sdiv 1000
           in (if ms < 0 then 0 else if ms > fallback_ms then fallback_ms else ms, s1)))"

text \<open>How long \<open>poll\<close> waits is not part of its answer, so the timeout of the call is not recorded.\<close>

definition wait_for_quic_activity :: "fd \<Rightarrow> int \<Rightarrow> sys \<Rightarrow> int \<times> sys" where
  "wait_for_quic_activity fd fallback_ms s =
     (let (rd, s1) = ssl_call s; (wr, s2) = ssl_call s1;
          (_, s3) = quic_event_timeout_ms fallback_ms s2;
          (rc, _, s4) = poll_retry (fd, (if rd then {POLLIN} else {}) \<union> (if wr then {POLLOUT} else {})) s3
      in (rc, s4))"

section \<open>The client\<close>

definition bio_connect :: "fd \<Rightarrow> sockaddr \<Rightarrow> sys \<Rightarrow> bool \<times> sys" where
  "bio_connect fd a s =
     (let (ok, s1) = ssl_call s in (ok, if ok then s1\<lparr>sock_peer := (sock_peer s1)(fd := Some a)\<rparr> else s1))"

definition bio_socket_nbio :: "fd \<Rightarrow> sys \<Rightarrow> bool \<times> sys" where
  "bio_socket_nbio fd s =
     (let (ok, s1) = ssl_call s in (ok, if ok then s1\<lparr>nonblocking := List.insert fd (nonblocking s1)\<rparr> else s1))"

fun udp_peer_loop :: "sockaddr list \<Rightarrow> sys \<Rightarrow> int \<times> sys" where
  "udp_peer_loop [] s = (- 1, s)"
| "udp_peer_loop (a # as) s =
     (let (fd, s1) = sys_socket s
      in if fd < 0 then udp_peer_loop as s1
         else let (c, s2) = bio_connect fd a s1; (nb, s3) = (if c then bio_socket_nbio fd s2 else (False, s2))
              in if \<not> c \<or> \<not> nb then udp_peer_loop as (snd (sys_close fd s3))
                 else let (dup, s4) = sys_alloc s3
                      in if dup then (fd, s4) else (- 1, snd (sys_close fd s4)))"

definition open_udp_peer :: "wcat_config \<Rightarrow> sys \<Rightarrow> int \<times> sys" where
  "open_udp_peer cfg s =
     (let (g, s1) = sys_gai \<lparr>ai_host = host cfg, ai_service = port cfg, ai_family = family cfg, ai_kind = UDP_DGRAM,
                              ai_passive = False\<rparr> s
      in case g of
           GaiErr e \<Rightarrow> (- 1, log_openssl_error ''quic_resolve'' ''QUIC target resolution failed'' s1)
         | GaiOk res \<Rightarrow>
             (let (fd, s2) = udp_peer_loop res s1
              in (fd, if fd < 0 then wcat_log_errno ''quic_connect'' ''failed to open QUIC UDP peer socket'' s2 else s2)))"

definition quic_servername :: "wcat_config \<Rightarrow> cstr" where
  "quic_servername cfg = (if sni cfg \<noteq> None then sni cfg else host cfg)"

text \<open>From \<open>SSL_new\<close> on.\<close>

definition quic_client_connect :: "wcat_config \<Rightarrow> wcat_tls_stream \<Rightarrow> sys \<Rightarrow> int \<times> wcat_tls_stream \<times> sys" where
  "quic_client_connect cfg t s =
     (let (new, s1) = ssl_call s
      in if \<not> new then tls_fail ''quic_session'' ''QUIC client session creation failed'' t s1
         else let (bio, s2) = ssl_call s1
              in if \<not> bio then tls_fail ''quic_setup'' ''failed to attach QUIC socket'' t s2
                 else let (hok, s3) = (if quic_servername cfg \<noteq> None \<and> tls_verify cfg then ssl_call s2 else (True, s2))
                      in if \<not> hok then tls_fail ''quic_verify'' ''failed to configure hostname verification'' t s3
                         else let (wire, s4) = set_alpn (alpn cfg) s3;
                                  (pok, s5) = (if wire = None then (False, s4) else ssl_call s4)
                              in if \<not> pok then tls_fail ''quic_setup'' ''failed to configure QUIC session'' t s5
                                 else let (cok, s6) = ssl_call s5
                                      in if \<not> cok then tls_fail ''quic_handshake'' ''QUIC client handshake failed'' t s6
                                         else let (v, s7) = (if tls_verify cfg then ssl_verify s6 else (None, s6))
                                              in if v \<noteq> None
                                                 then let (t', s') = wcat_tls_close t (wcat_log WCAT_LOG_ERROR ''quic_verify''
                                                            (''QUIC certificate verification failed: '' @ the v) s7)
                                                      in (- 1, t', s')
                                                 else let (nb, s8) = ssl_call s7
                                                      in if \<not> nb then tls_fail ''quic_setup''
                                                                        ''failed to configure QUIC nonblocking mode'' t s8
                                                         else (0, t\<lparr>tssl := Some (new_ssl\<lparr>ssl_sni := quic_servername cfg,
                                                                      ssl_host := (if tls_verify cfg then quic_servername cfg else None),
                                                                      ssl_open := True, ssl_alpn := wire\<rparr>),
                                                                    enabled := True, quic_stream := True\<rparr>, s8))"

definition wcat_quic_client_open :: "wcat_config \<Rightarrow> sys \<Rightarrow> int \<times> wcat_tls_stream \<times> sys" where
  "wcat_quic_client_open cfg s =
     (let (ok, s1) = ssl_call s;
          (ctx, s2) = (if ok then configure_client_ctx cfg new_ctx s1 else (None, s1))
      in case ctx of
           None \<Rightarrow> tls_fail ''quic_context'' ''QUIC client context creation failed'' tls_zero s2
         | Some c \<Rightarrow>
             (let (fd, s3) = open_udp_peer cfg s2
              in if fd < 0 then (let (t', s') = wcat_tls_close (tls_zero\<lparr>tctx := Some c\<rparr>) s3 in (- 1, t', s'))
                 else quic_client_connect cfg (tls_zero\<lparr>tctx := Some c, tfd := fd, owns_fd := True\<rparr>) s3))"

section \<open>The server\<close>

record wcat_quic_listener =
  ql_ctx :: "ssl_ctx option"
  ql_listener :: "ssl option"
  ql_fd :: fd

definition no_listener :: wcat_quic_listener where
  "no_listener = \<lparr>ql_ctx = None, ql_listener = None, ql_fd = - 1\<rparr>"

definition wcat_quic_listener_close :: "wcat_quic_listener \<Rightarrow> sys \<Rightarrow> wcat_quic_listener \<times> sys" where
  "wcat_quic_listener_close l s = (no_listener, if ql_fd l \<ge> 0 then close_quiet (ql_fd l) s else s)"

definition ssl_calls4 :: "sys \<Rightarrow> bool \<times> sys" where
  "ssl_calls4 s = (let (a, s1) = ssl_call s in if \<not> a then (False, s1) else ssl_calls3 s1)"

definition wcat_quic_listener_open :: "wcat_config \<Rightarrow> sys \<Rightarrow> int \<times> wcat_quic_listener \<times> sys" where
  "wcat_quic_listener_open cfg s =
     (let (ok, s1) = ssl_call s;
          (ctx, s2) = (if ok then configure_server_ctx cfg new_ctx s1 else (None, s1))
      in case ctx of
           None \<Rightarrow> (- 1, wcat_quic_listener_close no_listener
                            (log_openssl_error ''quic_context'' ''QUIC server context creation failed'' s2))
         | Some c \<Rightarrow>
             (let (fd, s3) = wcat_udp_bind (host cfg) (port cfg) (family cfg) s2;
                  l = no_listener\<lparr>ql_ctx := Some c, ql_fd := fd\<rparr>
              in if fd < 0 then (- 1, wcat_quic_listener_close l (wcat_log_errno ''quic_bind'' ''QUIC UDP bind failed'' s3))
                 else let (nb, s4) = wcat_set_nonblock fd True s3
                      in if nb < 0
                         then (- 1, wcat_quic_listener_close l
                                 (wcat_log_errno ''quic_socket'' ''failed to configure QUIC UDP socket nonblocking'' s4))
                         else let (lok, s5) = ssl_calls4 s4
                              in if \<not> lok
                                 then (- 1, wcat_quic_listener_close l
                                         (log_openssl_error ''quic_listen'' ''failed to start QUIC listener'' s5))
                                 else (0, l\<lparr>ql_listener := Some new_ssl\<rparr>, s5)))"

lemma ssl_call_poll [simp]: "poll_q (snd (ssl_call s)) = poll_q s"
  by (simp add: ssl_call_def split: list.splits)

lemma event_timeout_poll [simp]: "poll_q (snd (quic_event_timeout_ms fb s)) = poll_q s"
  by (auto simp: quic_event_timeout_ms_def ssl_event_timeout_def Let_def split: list.splits option.splits)

lemma handle_events_poll [simp]: "poll_q (snd (ssl_handle_events s)) = poll_q s"
  by (simp add: ssl_handle_events_def split: list.splits)

lemma poll_retry_answered:
  "poll_retry p s = (rc, revs, s') \<Longrightarrow> 0 \<le> rc \<Longrightarrow> length (poll_q s') < length (poll_q s)"
proof (induction p s rule: poll_retry.induct)
  case (1 p s)
  obtain n r s1 where c: "sys_poll [p] s = (n, r, s1)" using prod_cases3 by blast
  show ?case
  proof (cases "n < 0 \<and> errno_of s1 = EINTR")
    case True
    then have "poll_retry p s1 = (rc, revs, s')" using "1.prems"(1) c by (simp add: poll_retry.simps [of p s])
    from "1.IH" [OF c [symmetric] refl refl True this "1.prems"(2)] sys_poll_queue(2) [OF c] True show ?thesis by simp
  next
    case False
    then have "(n, r, s1) = (rc, revs, s')" using "1.prems"(1) c by (auto simp: poll_retry.simps [of p s])
    with sys_poll_answered [OF c] "1.prems"(2) show ?thesis by simp
  qed
qed

lemma wait_for_quic_answered:
  assumes "wait_for_quic_activity fd fb s = (rc, s')" and "0 \<le> rc"
  shows "length (poll_q s') < length (poll_q s)"
proof -
  define s1 where "s1 = snd (ssl_call s)"
  define s2 where "s2 = snd (ssl_call s1)"
  define s3 where "s3 = snd (quic_event_timeout_ms fb s2)"
  define p where "p = (fd, (if fst (ssl_call s) then {POLLIN} else {}) \<union> (if fst (ssl_call s1) then {POLLOUT} else {}))"
  obtain n r s4 where c: "poll_retry p s3 = (n, r, s4)" using prod_cases3 by blast
  then have "rc = n" "s' = s4"
    using assms(1) by (simp_all add: wait_for_quic_activity_def case_prod_unfold Let_def p_def s1_def s2_def s3_def)
  with poll_retry_answered [OF c] assms(2) show ?thesis by (simp add: s1_def s2_def s3_def)
qed

text \<open>The loop of \<open>wcat_quic_accept\<close>: a connection, a stop, or (\<open>None\<close>) an error that has been logged.\<close>

function quic_accept_loop :: "fd \<Rightarrow> sys \<Rightarrow> bool option \<times> sys" where
  "quic_accept_loop fd s =
     (let (stop, s0) = observe_stop s
      in if stop then (Some False, s0)
         else let (ev, s1) = ssl_handle_events s0
              in if \<not> ev then (None, log_openssl_error ''quic_accept'' ''QUIC listener event handling failed'' s1)
                 else let (conn, s2) = ssl_call s1
                      in if conn then (Some True, s2)
                         else let (rc, s3) = wait_for_quic_activity fd 250 s2
                              in if rc < 0 then (None, wcat_log_errno ''quic_accept'' ''QUIC accept poll failed'' s3)
                                 else quic_accept_loop fd s3)"
  by pat_completeness auto
termination
proof (relation "measure (\<lambda>(fd, s). length (poll_q s))", goal_cases)
  case 1
  show ?case by simp
next
  case (2 fd s x stop s0 y ev s1 z conn s2 w rc s3)
  have "poll_q s0 = poll_q s" using 2(1,2) observe_stop_poll by metis
  moreover have "poll_q s1 = poll_q s0" using 2(4,5) handle_events_poll [of s0] by (metis snd_conv)
  moreover have "poll_q s2 = poll_q s1" using 2(7,8) ssl_call_poll [of s1] by (metis snd_conv)
  moreover have "length (poll_q s3) < length (poll_q s2)" using 2 wait_for_quic_answered [of fd 250 s2 rc s3] by simp
  ultimately show ?case by simp
qed

declare quic_accept_loop.simps [simp del]

definition wcat_quic_accept :: "wcat_quic_listener \<Rightarrow> sys \<Rightarrow> int \<times> wcat_tls_stream \<times> sys" where
  "wcat_quic_accept l s =
     (let t = tls_zero\<lparr>tfd := ql_fd l\<rparr>
      in case quic_accept_loop (ql_fd l) s of
           (None, s1) \<Rightarrow> (- 1, t, s1)
         | (Some False, s1) \<Rightarrow> (- 1, t, s1\<lparr>errno_of := EINTR\<rparr>)
         | (Some True, s1) \<Rightarrow>
             (let (ok, s2) = ssl_call s1
              in if \<not> ok then (- 1, t, log_openssl_error ''quic_accept'' ''failed to configure QUIC nonblocking mode'' s2)
                 else (0, t\<lparr>tssl := Some (new_ssl\<lparr>ssl_open := True\<rparr>), tctx := None, enabled := True, owns_fd := False,
                            quic_stream := True\<rparr>, s2)))"

section \<open>The choice of the protocol\<close>

text \<open>The protocols of a list in wire form, up to the first entry that is cut off.\<close>

function alpn_items :: "bytes \<Rightarrow> string list" where
  "alpn_items [] = []"
| "alpn_items (n # r) = (if code n > length r then [] else take (code n) r # alpn_items (drop (code n) r))"
  by pat_completeness auto
termination by (relation "measure length") auto

lemma select_alpn_loop_items:
  "off \<le> length inp \<Longrightarrow> (select_alpn_loop a inp off \<noteq> None) = (a \<in> set (alpn_items (drop off inp)))"
proof (induction a inp off rule: select_alpn_loop.induct)
  case (1 a inp off)
  note u = select_alpn_loop.simps [of a inp off]
  show ?case
  proof (cases "off < length inp")
    case False
    with u "1.prems" show ?thesis by simp
  next
    case True
    then have d: "drop off inp = inp ! off # drop (Suc off) inp" by (simp add: Cons_nth_drop_Suc)
    define n where "n = code (inp ! off)"
    show ?thesis
    proof (cases "n > length inp - (off + 1)")
      case big: True
      with u True d show ?thesis by (simp add: n_def)
    next
      case fits: False
      have it: "alpn_items (drop off inp) = take n (drop (Suc off) inp) # alpn_items (drop (Suc off + n) inp)"
        unfolding d using fits by (simp add: n_def add.commute)
      show ?thesis
      proof (cases "n = length a \<and> take (length a) (drop (off + 1) inp) = a")
        case found: True
        with u True fits show ?thesis unfolding it by (auto simp: n_def Let_def)
      next
        case other: False
        have "Suc off + n \<le> length inp" using fits True by simp
        with "1.IH" [OF True refl refl fits [unfolded n_def] other [unfolded n_def]]
        have "(select_alpn_loop a inp (off + 1 + n) \<noteq> None) = (a \<in> set (alpn_items (drop (off + 1 + n) inp)))"
          by (simp add: n_def)
        moreover have "select_alpn_loop a inp off = select_alpn_loop a inp (off + 1 + n)"
          using u True fits other by (simp add: n_def Let_def) argo
        moreover have "a \<noteq> take n (drop (Suc off) inp)"
          using other fits by (auto simp: min_absorb2)
        ultimately show ?thesis unfolding it by simp
      qed
    qed
  qed
qed

lemma select_alpn_loop_position:
  "select_alpn_loop a inp off = Some (p, l) \<Longrightarrow>
     off < p \<and> l = length a \<and> p + l \<le> length inp \<and> take l (drop p inp) = a"
proof (induction a inp off rule: select_alpn_loop.induct)
  case (1 a inp off)
  note u = select_alpn_loop.simps [of a inp off]
  have lt: "off < length inp" using "1.prems" u by (auto split: if_splits)
  have fits: "\<not> code (inp ! off) > length inp - (off + 1)" using "1.prems" u lt by (auto simp: Let_def)
  show ?case
  proof (cases "code (inp ! off) = length a \<and> take (length a) (drop (off + 1) inp) = a")
    case True
    with u lt fits "1.prems" have "p = off + 1" "l = length a" by (simp_all add: Let_def)
    with True fits lt show ?thesis by simp
  next
    case False
    with u lt fits have "select_alpn_loop a inp off = select_alpn_loop a inp (off + 1 + code (inp ! off))"
      by (simp add: Let_def) argo
    with "1.IH" [OF lt refl refl fits False] "1.prems" show ?thesis by auto
  qed
qed

lemma select_own_wire:
  assumes "0 < length a" and "length a \<le> 255"
  shows "select_alpn_loop a (alpn_wire a) 0 = Some (1, length a)"
  using assms by (simp add: select_alpn_loop.simps alpn_wire_def code_char_of_256 Let_def)

section \<open>Descriptors\<close>

lemma rest_quic_calls [rest]:
  "rest_of K (snd (set_alpn a s)) = rest_of K s" "rest_of K (snd (ssl_calls4 s)) = rest_of K s"
  "rest_of K (snd (configure_client_ctx cfg ctx s)) = rest_of K s"
  "rest_of K (snd (configure_server_ctx cfg ctx s)) = rest_of K s"
  "rest_of K (snd (ssl_event_timeout s)) = rest_of K s"
  by (auto simp: set_alpn_def ssl_calls4_def configure_client_ctx_def configure_server_ctx_def case_prod_unfold Let_def rest
      split: sum.splits option.splits)
    (auto simp: ssl_event_timeout_def rest_of_def split: list.splits)

lemma rest_quic_wait [rest]: "rest_of K (snd (wait_for_quic_activity fd fb s)) = rest_of K s"
proof -
  have "rest_of K (snd (quic_event_timeout_ms fb u)) = rest_of K u" for u
    using rest_quic_calls(5) [of K u] by (auto simp: quic_event_timeout_ms_def Let_def split: prod.splits option.splits)
  then show ?thesis by (simp add: wait_for_quic_activity_def case_prod_unfold Let_def rest)
qed

lemma rest_quic_accept_loop [rest]: "rest_of K (snd (quic_accept_loop fd s)) = rest_of K s"
proof (induction fd s rule: quic_accept_loop.induct)
  case (1 fd s)
  obtain stop s0 where o: "observe_stop s = (stop, s0)" by force
  obtain ev s1 where e: "ssl_handle_events s0 = (ev, s1)" by force
  obtain conn s2 where c: "ssl_call s1 = (conn, s2)" by force
  obtain rc s3 where w: "wait_for_quic_activity fd 250 s2 = (rc, s3)" by force
  have r: "rest_of K s0 = rest_of K s" "rest_of K s1 = rest_of K s" "rest_of K s2 = rest_of K s" "rest_of K s3 = rest_of K s"
    using rest_stop [OF o, of K] rest_tls_call(1) [of K s0] rest_tls_call(7) [of K s1] rest_quic_wait [of K fd 250 s2] e c w
    by simp_all
  note u = quic_accept_loop.simps [of fd s, unfolded o e c w prod.case Let_def]
  show ?case
  proof (cases "\<not> stop \<and> ev \<and> \<not> conn \<and> \<not> rc < 0")
    case False
    with u r show ?thesis by (auto simp: rest)
  next
    case True
    then have "rest_of K (snd (quic_accept_loop fd s3)) = rest_of K s3"
      using "1.IH" [OF o [symmetric] refl _ e [symmetric] refl _ c [symmetric] refl _ w [symmetric] refl] by simp
    with u r True show ?thesis by simp
  qed
qed

lemma rest_quic_accept: "rest_of K (snd (snd (wcat_quic_accept l s))) = rest_of K s"
proof -
  obtain r s1 where q: "quic_accept_loop (ql_fd l) s = (r, s1)" by force
  then have "rest_of K s1 = rest_of K s" by (metis rest_quic_accept_loop snd_conv)
  then show ?thesis
    using q by (auto simp: wcat_quic_accept_def case_prod_unfold Let_def rest split: option.splits bool.splits)
qed

text \<open>The socket of the client is new, and on every failure it is closed again.\<close>

lemma bio_rest:
  "rest_of K (snd (bio_connect fd a s)) = rest_of K s" "rest_of K (snd (bio_socket_nbio fd s)) = rest_of K s"
  "rest_of K (snd (sys_alloc s)) = rest_of K s"
  by (auto simp: bio_connect_def bio_socket_nbio_def sys_alloc_def ssl_call_def Let_def rest_of_def split: list.splits)

lemma sys_socket_makes_fd:
  assumes "sys_socket s = (r, s')"
  shows "makes_fd s r s'"
  using sys_socket_cases [OF assms]
  by (auto simp: makes_fd_def new_socket_def sock_frame_def rest_of_def)

lemma makes_fd_sys_close:
  assumes "makes_fd s r s1" and "0 \<le> r" and "rest_of {r} s2 = rest_of {r} s1"
  shows "rest_of {} (snd (sys_close r s2)) = rest_of {} s"
proof -
  have "rest_of {} (close_quiet r s2) = rest_of {} s" by (rule makes_fd_close [OF assms])
  then show ?thesis using assms(2) by (simp add: rest_of_def sys_close_rest)
qed

lemma makes_fd_after: "rest_of {} s1 = rest_of {} s \<Longrightarrow> makes_fd s1 r s' \<Longrightarrow> makes_fd s r s'"
  by (auto simp: makes_fd_def rest_of_def)

lemma makes_fd_io:
  assumes "makes_fd s r s1" and "rest_of {} s2 = rest_of {} s1"
  shows "makes_fd s r s2"
  using assms by (auto simp: makes_fd_def rest_of_def)

lemma udp_peer_loop_makes_fd: "udp_peer_loop as s = (r, s') \<Longrightarrow> makes_fd s r s'"
proof (induction as s rule: udp_peer_loop.induct)
  case (1 s)
  then show ?case by (simp add: makes_fd_def)
next
  case (2 a as s)
  obtain fd s1 where so: "sys_socket s = (fd, s1)" by force
  note m = sys_socket_makes_fd [OF so]
  obtain c s2 where bc: "bio_connect fd a s1 = (c, s2)" by force
  obtain nb s3 where bn: "(if c then bio_socket_nbio fd s2 else (False, s2)) = (nb, s3)" by force
  obtain dup s4 where al: "sys_alloc s3 = (dup, s4)" by force
  have r2: "rest_of K s2 = rest_of K s1" for K using bio_rest(1) [of K fd a s1] bc by simp
  have r3: "rest_of K s3 = rest_of K s1" for K using bio_rest(2) [of K fd s2] bn r2 [of K] by (auto split: if_splits)
  have r4: "rest_of K s4 = rest_of K s1" for K using bio_rest(3) [of K s3] al r3 [of K] by simp
  note run = "2.prems" [unfolded udp_peer_loop.simps so bc bn al prod.case Let_def]
  note ih1 = "2.IH"(1) [OF so [symmetric] refl] and ih2 = "2.IH"(2) [OF so [symmetric] refl _ bc [symmetric] refl bn [symmetric] refl]
  consider (none) "fd < 0" | (skip) "\<not> fd < 0" "\<not> c \<or> \<not> nb" | (made) "\<not> fd < 0" "\<not> (\<not> c \<or> \<not> nb)" by blast
  then show ?case
  proof cases
    case none
    then have "rest_of {} s1 = rest_of {} s" using m by (auto elim: makes_fd_cases)
    with ih1 [OF none] run none show ?thesis by (auto intro: makes_fd_after)
  next
    case skip
    have "rest_of {} (snd (sys_close fd s3)) = rest_of {} s"
      by (rule makes_fd_sys_close [OF m]) (use skip r3 in auto)
    with ih2 [OF skip] run skip show ?thesis by (auto intro: makes_fd_after)
  next
    case made
    have "rest_of {} (snd (sys_close fd s4)) = rest_of {} s"
      by (rule makes_fd_sys_close [OF m]) (use made r4 in auto)
    with run made makes_fd_io [OF m r4] show ?thesis by (auto simp: makes_fd_def split: if_splits)
  qed
qed

lemma open_udp_peer_makes_fd: "open_udp_peer cfg s = (r, s') \<Longrightarrow> makes_fd s r s'"
proof -
  assume run: "open_udp_peer cfg s = (r, s')"
  obtain g s1 where g: "sys_gai \<lparr>ai_host = host cfg, ai_service = port cfg, ai_family = family cfg, ai_kind = UDP_DGRAM,
      ai_passive = False\<rparr> s = (g, s1)" by force
  then have r1: "rest_of K s1 = rest_of K s" for K
    by (auto simp: sys_gai_def rest_of_def split: list.splits)
  show ?thesis
  proof (cases g)
    case (GaiErr e)
    with run g r1 have "r = - 1" "rest_of {} s' = rest_of {} s" by (auto simp: open_udp_peer_def rest)
    then show ?thesis by (simp add: makes_fd_def)
  next
    case (GaiOk as)
    obtain fd s2 where l: "udp_peer_loop as s1 = (fd, s2)" by force
    have "makes_fd s fd s2" by (rule makes_fd_after [OF r1 udp_peer_loop_makes_fd [OF l]])
    moreover have "r = fd" "rest_of {} s' = rest_of {} s2"
      using run g GaiOk l by (auto simp: open_udp_peer_def rest)
    ultimately show ?thesis using makes_fd_io by blast
  qed
qed

interpretation quic_peer: fd_maker "\<lambda>s. (Ret (fst (open_udp_peer cfg s)), snd (open_udp_peer cfg s))"
  by unfold_locales (auto intro: open_udp_peer_makes_fd simp: prod_eq_iff)

text \<open>What a client that reports success has established.\<close>

definition quic_connected :: "wcat_config \<Rightarrow> wcat_tls_stream \<Rightarrow> bool" where
  "quic_connected cfg t \<longleftrightarrow>
     owns_fd t \<and> quic_stream t \<and> enabled t
     \<and> (\<exists>x. tssl t = Some x \<and> ssl_open x \<and> ssl_sni x = quic_servername cfg
          \<and> ssl_alpn x = Some (alpn_wire (default_alpn (alpn cfg))) \<and> (tls_verify cfg \<longrightarrow> ssl_host x = quic_servername cfg))"

lemma tls_fail_fst: "fst (tls_fail ev m t s) = - 1" "fst (snd (tls_fail ev m t s)) = tls_zero"
  by (simp_all add: tls_fail_def wcat_tls_close_def case_prod_unfold Let_def)

lemma ssl_calls_verify [simp]:
  "ssl_verify_q (snd (ssl_call s)) = ssl_verify_q s" "ssl_verify_q (snd (set_alpn a s)) = ssl_verify_q s"
  by (auto simp: ssl_call_def set_alpn_def case_prod_unfold Let_def split: list.splits)

lemma quic_client_connect_ok:
  assumes "quic_client_connect cfg t s = (0, t', s')" and "owns_fd t"
  shows "quic_connected cfg t' \<and> tfd t' = tfd t \<and> tctx t' = tctx t
    \<and> (tls_verify cfg \<longrightarrow> None \<in> set (ssl_verify_q s)) \<and> rest_of {} s' = rest_of {} s"
proof -
  obtain a s1 where 1: "ssl_call s = (a, s1)" by force
  obtain b s2 where 2: "ssl_call s1 = (b, s2)" by force
  obtain h s3 where 3: "(if quic_servername cfg \<noteq> None \<and> tls_verify cfg then ssl_call s2 else (True, s2)) = (h, s3)" by force
  obtain w s4 where 4: "set_alpn (alpn cfg) s3 = (w, s4)" by force
  obtain p s5 where 5: "(if w = None then (False, s4) else ssl_call s4) = (p, s5)" by force
  obtain c s6 where 6: "ssl_call s5 = (c, s6)" by force
  obtain v s7 where 7: "(if tls_verify cfg then ssl_verify s6 else (None, s6)) = (v, s7)" by force
  obtain n s8 where 8: "ssl_call s7 = (n, s8)" by force
  note run = assms(1) [unfolded quic_client_connect_def 1 2 3 4 5 6 7 8 prod.case Let_def]
  have nf: "tls_fail ev m t u \<noteq> (0, t', s')" for ev m u using tls_fail_fst(1) [of ev m t u] by auto
  have ok: "a" "b" "h" "p" "c" "v = None" "n" using run nf by (auto simp: case_prod_unfold split: if_splits)
  have t': "t' = t\<lparr>tssl := Some (new_ssl\<lparr>ssl_sni := quic_servername cfg,
      ssl_host := (if tls_verify cfg then quic_servername cfg else None), ssl_open := True, ssl_alpn := w\<rparr>),
      enabled := True, quic_stream := True\<rparr>"
    using run ok by simp
  have "w = Some (alpn_wire (default_alpn (alpn cfg)))"
    using 4 5 ok(4) by (auto simp: set_alpn_def Let_def split: if_splits prod.splits)
  moreover have "ssl_verify_q s6 = ssl_verify_q s"
  proof -
    have v: "ssl_call u = (x, u') \<Longrightarrow> ssl_verify_q u' = ssl_verify_q u" for x u u'
      by (metis ssl_calls_verify(1) snd_conv)
    have "ssl_verify_q s3 = ssl_verify_q s2" using 3 v by (auto split: if_splits)
    moreover have "ssl_verify_q s4 = ssl_verify_q s3" using 4 by (metis ssl_calls_verify(2) snd_conv)
    moreover have "ssl_verify_q s5 = ssl_verify_q s4" using 5 v by (auto split: if_splits)
    ultimately show ?thesis using v [OF 1] v [OF 2] v [OF 6] by simp
  qed
  moreover have "None \<in> set (ssl_verify_q s6)" if "tls_verify cfg"
    using 7 ok(6) that by (auto simp: ssl_verify_def split: list.splits)
  moreover have "rest_of {} s' = rest_of {} s"
  proof -
    have c: "ssl_call u = (x, u') \<Longrightarrow> rest_of {} u' = rest_of {} u" for x u u' by (metis rest_tls_call(7) snd_conv)
    have v: "ssl_verify u = (x, u') \<Longrightarrow> rest_of {} u' = rest_of {} u" for x u u' by (metis rest_tls_call(8) snd_conv)
    have "rest_of {} s3 = rest_of {} s2" using 3 c by (auto split: if_splits)
    moreover have "rest_of {} s4 = rest_of {} s3" using 4 by (metis rest_quic_calls(1) snd_conv)
    moreover have "rest_of {} s5 = rest_of {} s4" using 5 c by (auto split: if_splits)
    moreover have "rest_of {} s7 = rest_of {} s6" using 7 v by (auto split: if_splits)
    moreover have "s' = s8" using run ok by simp
    ultimately show ?thesis using c [OF 1] c [OF 2] c [OF 6] c [OF 8] by simp
  qed
  ultimately show ?thesis using assms(2) by (simp add: t' quic_connected_def)
qed

lemma quic_client_connect_failed:
  "fst (quic_client_connect cfg t s) = 0 \<or> fst (quic_client_connect cfg t s) = - 1 \<and> fst (snd (quic_client_connect cfg t s)) = tls_zero"
  by (simp add: quic_client_connect_def case_prod_unfold Let_def tls_fail_fst wcat_tls_close_def)

lemma rest_quic_connect: "tfd t \<in> K \<Longrightarrow> rest_of K (snd (snd (quic_client_connect cfg t s))) = rest_of K s"
  by (simp add: quic_client_connect_def case_prod_unfold Let_def rest rest_tls_fail rest_tls_close)

lemma open_tls_fail:
  "owns_fd t \<Longrightarrow> 0 \<le> tfd t \<Longrightarrow> open_fds (snd (snd (tls_fail ev m t s))) = removeAll (tfd t) (open_fds s)"
  "owns_fd t \<Longrightarrow> 0 \<le> tfd t \<Longrightarrow> open_fds (snd (wcat_tls_close t s)) = removeAll (tfd t) (open_fds s)"
proof -
  assume o: "owns_fd t" "0 \<le> tfd t"
  have c: "open_fds (snd (wcat_tls_close t u)) = removeAll (tfd t) (open_fds u)" for u
    using wcat_tls_close_effect [of t u] o by (metis prod.collapse)
  from c show "open_fds (snd (wcat_tls_close t s)) = removeAll (tfd t) (open_fds s)" .
  from c show "open_fds (snd (snd (tls_fail ev m t s))) = removeAll (tfd t) (open_fds s)"
    by (simp add: tls_fail_def case_prod_unfold Let_def)
qed

lemma set_alpn_open [simp]: "open_fds (snd (set_alpn a s)) = open_fds s"
  by (simp add: set_alpn_def case_prod_unfold Let_def)

lemma quic_connect_closes:
  "owns_fd t \<Longrightarrow> 0 \<le> tfd t \<Longrightarrow> fst (quic_client_connect cfg t s) \<noteq> 0 \<Longrightarrow>
     open_fds (snd (snd (quic_client_connect cfg t s))) = removeAll (tfd t) (open_fds s)"
  by (auto simp: quic_client_connect_def case_prod_unfold Let_def open_tls_fail wcat_log_def)

lemma tls_close_zero: "rest_of K (snd (wcat_tls_close (tls_zero\<lparr>tctx := c\<rparr>) s)) = rest_of K s"
  "rest_of K (snd (snd (tls_fail ev m tls_zero s))) = rest_of K s"
  by (simp_all add: tls_fail_def wcat_tls_close_def tls_zero_def case_prod_unfold Let_def rest)

lemma verify_q_keeps:
  "ssl_verify_q (snd (ssl_calls3 s)) = ssl_verify_q s" "ssl_verify_q (log_openssl_error ev m s) = ssl_verify_q s"
  "ssl_verify_q (snd (client_verify vp ca ctx s)) = ssl_verify_q s"
  "ssl_verify_q (snd (configure_client_ctx cfg ctx s)) = ssl_verify_q s"
proof -
  show a: "ssl_verify_q (snd (ssl_calls3 u)) = ssl_verify_q u" for u
    by (simp add: ssl_calls3_def case_prod_unfold Let_def)
  show b: "ssl_verify_q (log_openssl_error ev m u) = ssl_verify_q u" for ev m u
    by (auto simp: log_openssl_error_def ssl_error_text_def wcat_log_def Let_def split: list.splits option.splits)
  show c: "ssl_verify_q (snd (client_verify vp ca ctx u)) = ssl_verify_q u" for vp ca ctx u
    by (simp add: client_verify_def case_prod_unfold Let_def split: option.splits)
  show "ssl_verify_q (snd (configure_client_ctx cfg ctx s)) = ssl_verify_q s"
    by (simp add: configure_client_ctx_def case_prod_unfold Let_def a b c split: sum.splits)
qed

lemma quic_client_open_result:
  assumes "wcat_quic_client_open cfg s = (rc, t, s')"
  shows "rc = - 1 \<and> t = tls_zero \<and> rest_of {} s' = rest_of {} s
    \<or> rc = 0 \<and> 0 \<le> tfd t \<and> makes_fd s (tfd t) s' \<and> quic_connected cfg t"
proof -
  obtain ok s1 where 1: "ssl_call s = (ok, s1)" by force
  obtain ctx s2 where 2: "(if ok then configure_client_ctx cfg new_ctx s1 else (None, s1)) = (ctx, s2)" by force
  have r2: "rest_of K s2 = rest_of K s" for K
    using 1 2 rest_tls_call(7) [of K s] rest_quic_calls(3) [of K cfg new_ctx s1] by (auto split: if_splits)
  note run = assms [unfolded wcat_quic_client_open_def 1 2 prod.case Let_def]
  show ?thesis
  proof (cases ctx)
    case None
    with run tls_fail_fst [of "''quic_context''" "''QUIC client context creation failed''" tls_zero s2] r2
      tls_close_zero(2) [of "{}" "''quic_context''" "''QUIC client context creation failed''" s2]
    show ?thesis by auto
  next
    case (Some c)
    obtain fd s3 where 3: "open_udp_peer cfg s2 = (fd, s3)" by force
    have m: "makes_fd s fd s3" by (rule makes_fd_after [OF r2 open_udp_peer_makes_fd [OF 3]])
    show ?thesis
    proof (cases "fd < 0")
      case True
      then have "rest_of {} s3 = rest_of {} s" using m by (auto elim: makes_fd_cases)
      with run Some 3 True tls_close_zero(1) [of "{}" "Some c" s3] show ?thesis
        by (auto simp: case_prod_unfold) (auto simp: wcat_tls_close_def Let_def)
    next
      case False
      define t1 where "t1 = tls_zero\<lparr>tctx := Some c, tfd := fd, owns_fd := True\<rparr>"
      have t1: "owns_fd t1" "tfd t1 = fd" by (simp_all add: t1_def)
      have q: "quic_client_connect cfg t1 s3 = (rc, t, s')" using run Some 3 False by (simp add: t1_def)
      have r: "rest_of {fd} s' = rest_of {fd} s3" using rest_quic_connect [of t1 "{fd}" cfg s3] t1 q by simp
      show ?thesis
      proof (cases "rc = 0")
        case True
        then have k: "quic_connected cfg t" "tfd t = fd" "rest_of {} s' = rest_of {} s3"
          using quic_client_connect_ok [of cfg t1 s3 t s'] q t1 by auto
        with makes_fd_io [OF m k(3)] True False show ?thesis by simp
      next
        case failed: False
        then have "rc = - 1" "t = tls_zero" "open_fds s' = removeAll fd (open_fds s3)"
          using quic_client_connect_failed [of cfg t1 s3] quic_connect_closes [of t1 cfg s3] q t1 False by auto
        moreover have "rest_of {} s' = rest_of {} s"
        proof -
          have "rest_of {} (close_quiet fd s3) = rest_of {} s" using False by (intro makes_fd_close [OF m]) simp_all
          then show ?thesis using calculation(3) False rest_fields [OF r] by (simp add: rest_of_def)
        qed
        ultimately show ?thesis by simp
      qed
    qed
  qed
qed

text \<open>With verification on, the peer's certificate was checked against the CA and the name.\<close>

lemma configure_client_ctx_verify:
  assumes "configure_client_ctx cfg ctx s = (Some c, s')" and "tls_verify cfg"
  shows "ctx_verify c = SSL_VERIFY_PEER
    \<and> ctx_ca c = Some (case ca_file cfg of Some f \<Rightarrow> CaFile f | None \<Rightarrow> CaDefault)"
proof -
  obtain v s1 where v: "client_verify True (ca_file cfg) ctx s = (v, s1)" by force
  with assms obtain c1 where i: "v = Inr c1" by (cases v) (auto simp: configure_client_ctx_def)
  then have "ctx_verify c1 = SSL_VERIFY_PEER \<and> ctx_ca c1 = Some (case ca_file cfg of Some f \<Rightarrow> CaFile f | None \<Rightarrow> CaDefault)"
    using v by (auto simp: client_verify_def Let_def split: option.splits if_splits prod.splits)
  moreover have "ctx_verify c = ctx_verify c1 \<and> ctx_ca c = ctx_ca c1"
    using assms v i by (auto simp: configure_client_ctx_def Let_def split: if_splits prod.splits)
  ultimately show ?thesis by simp
qed

lemma open_udp_peer_verify: "ssl_verify_q (snd (open_udp_peer cfg s)) = ssl_verify_q s"
proof -
  have so: "ssl_verify_q (snd (sys_socket u)) = ssl_verify_q u" for u
    by (auto simp: sys_socket_def add_fd_def Let_def split: list.splits option.splits)
  have bc: "ssl_verify_q (snd (bio_connect fd a u)) = ssl_verify_q u" "ssl_verify_q (snd (bio_socket_nbio fd u)) = ssl_verify_q u"
      "ssl_verify_q (snd (sys_close fd u)) = ssl_verify_q u" "ssl_verify_q (snd (sys_alloc u)) = ssl_verify_q u" for fd a u
    by (auto simp: bio_connect_def bio_socket_nbio_def sys_close_def sys_alloc_def case_prod_unfold Let_def
        split: list.splits option.splits)
  have l: "ssl_verify_q (snd (udp_peer_loop as u)) = ssl_verify_q u" for as u
    by (induction as arbitrary: u) (simp_all add: case_prod_unfold Let_def so bc)
  have g: "ssl_verify_q (snd (sys_gai x u)) = ssl_verify_q u" for x u
    by (auto simp: sys_gai_def split: list.splits)
  show ?thesis
    by (auto simp: open_udp_peer_def case_prod_unfold Let_def l g verify_q_keeps wcat_log_errno_def wcat_log_def split: gai_ans.splits)
qed

lemma quic_client_open_secure:
  assumes "wcat_quic_client_open cfg s = (0, t, s')" and "tls_verify cfg"
  shows "(\<exists>c. tctx t = Some c \<and> ctx_verify c = SSL_VERIFY_PEER
        \<and> ctx_ca c = Some (case ca_file cfg of Some f \<Rightarrow> CaFile f | None \<Rightarrow> CaDefault))
    \<and> None \<in> set (ssl_verify_q s)"
proof -
  obtain ok s1 where 1: "ssl_call s = (ok, s1)" by force
  obtain ctx s2 where 2: "(if ok then configure_client_ctx cfg new_ctx s1 else (None, s1)) = (ctx, s2)" by force
  note run = assms(1) [unfolded wcat_quic_client_open_def 1 2 prod.case Let_def]
  have nf: "tls_fail ev m x u \<noteq> (0, t, s')" for ev m x u using tls_fail_fst(1) [of ev m x u] by auto
  obtain c where c: "ctx = Some c" using run nf by (cases ctx) auto
  then have k: "configure_client_ctx cfg new_ctx s1 = (Some c, s2)" using 2 by (auto split: if_splits)
  obtain fd s3 where 3: "open_udp_peer cfg s2 = (fd, s3)" by force
  have q: "quic_client_connect cfg (tls_zero\<lparr>tctx := Some c, tfd := fd, owns_fd := True\<rparr>) s3 = (0, t, s')"
    using run c 3 by (auto split: if_splits prod.splits)
  have vq: "ssl_verify_q s3 = ssl_verify_q s"
  proof -
    have "ssl_verify_q s2 = ssl_verify_q s1" using k verify_q_keeps(4) [of cfg new_ctx s1] by simp
    moreover have "ssl_verify_q s1 = ssl_verify_q s" using 1 ssl_calls_verify(1) [of s] by simp
    moreover have "ssl_verify_q s3 = ssl_verify_q s2" using open_udp_peer_verify [of cfg s2] 3 by simp
    ultimately show ?thesis by simp
  qed
  from quic_client_connect_ok [OF q] configure_client_ctx_verify [OF k assms(2)] vq assms(2) show ?thesis by simp
qed

section \<open>The listener\<close>

lemma rest_listener_close: "ql_fd l \<in> K \<or> ql_fd l < 0 \<Longrightarrow> rest_of K (snd (wcat_quic_listener_close l s)) = rest_of K s"
  by (auto simp: wcat_quic_listener_close_def rest_close)

lemma quic_listener_open_result:
  assumes "wcat_quic_listener_open cfg s = (rc, l, s')"
  shows "rc = - 1 \<and> l = no_listener \<and> rest_of {} s' = rest_of {} s
    \<or> rc = 0 \<and> 0 \<le> ql_fd l \<and> makes_fd s (ql_fd l) s'"
proof -
  obtain ok s1 where 1: "ssl_call s = (ok, s1)" by force
  obtain ctx s2 where 2: "(if ok then configure_server_ctx cfg new_ctx s1 else (None, s1)) = (ctx, s2)" by force
  have r2: "rest_of K s2 = rest_of K s" for K
    using 1 2 rest_tls_call(7) [of K s] rest_quic_calls(4) [of K cfg new_ctx s1] by (auto split: if_splits)
  note run = assms [unfolded wcat_quic_listener_open_def 1 2 prod.case Let_def]
  show ?thesis
  proof (cases ctx)
    case None
    with run r2 show ?thesis by (auto simp: wcat_quic_listener_close_def no_listener_def rest)
  next
    case (Some c)
    obtain fd s3 where 3: "wcat_udp_bind (host cfg) (port cfg) (family cfg) s2 = (fd, s3)" by force
    have m: "makes_fd s fd s3" by (rule makes_fd_after [OF r2 new_socket_makes_fd [OF udp_bind.make_new [OF 3]]])
    obtain nb s4 where 4: "wcat_set_nonblock fd True s3 = (nb, s4)" by force
    obtain lok s5 where 5: "ssl_calls4 s4 = (lok, s5)" by force
    have r4: "rest_of K s4 = rest_of K s3" for K using rest_ssl(3) [of K fd True s3] 4 by simp
    have r5: "rest_of K s5 = rest_of K s3" for K using rest_quic_calls(2) [of K s4] 5 r4 [of K] by simp
    define l1 where "l1 = no_listener\<lparr>ql_ctx := Some c, ql_fd := fd\<rparr>"
    note run = run [unfolded Some option.case 3 prod.case 4 5 l1_def [symmetric]]
    have cl: "wcat_quic_listener_close l1 u = (no_listener, if 0 \<le> fd then close_quiet fd u else u)" for u
      by (simp add: wcat_quic_listener_close_def l1_def)
    show ?thesis
    proof (cases "fd < 0")
      case True
      then have "rest_of {} s3 = rest_of {} s" using m by (auto elim: makes_fd_cases)
      with run True cl show ?thesis by (auto simp: rest)
    next
      case False
      have gone: "rest_of {} (close_quiet fd u) = rest_of {} s" if "rest_of {fd} u = rest_of {fd} s3" for u
        by (rule makes_fd_close [OF m]) (use False that in auto)
      consider (a) "nb < 0" | (b) "\<not> nb < 0" "\<not> lok" | (c) "\<not> nb < 0" lok by blast
      then show ?thesis
      proof cases
        case a
        with run False cl gone r4 show ?thesis by (auto simp: rest)
      next
        case b
        with run False cl gone r5 show ?thesis by (auto simp: rest)
      next
        case c
        with run False have "rc = 0" "ql_fd l = fd" "s' = s5" by (auto simp: l1_def)
        with makes_fd_io [OF m r5] False show ?thesis by simp
      qed
    qed
  qed
qed

end
