(* ===== verification/Wcat_Main.thy ===== *)
theory Wcat_Main
  imports Wcat_Quic
begin

text \<open>
  src/main.c without the console of \<open>listen --multi\<close>: the relay endpoints, the modes \<open>connect\<close>,
  \<open>listen\<close> and \<open>relay\<close> over every transport, the process behind a connection, and QUIC.
\<close>

section \<open>Relay endpoints\<close>

record relay_endpoint =
  ep_stream :: wcat_stream
  ep_proc :: wcat_process
  ep_fd1 :: fd
  ep_fd2 :: fd
  has_proc :: bool

definition zero_stream :: wcat_stream where
  "zero_stream = \<lparr>st_tls = None, raw_fd = 0, write_fd = 0, can_close_write = False, close_on_eof = False, st_name = []\<rparr>"

definition relay_endpoint_init :: relay_endpoint where
  "relay_endpoint_init = \<lparr>ep_stream = zero_stream, ep_proc = no_process, ep_fd1 = - 1, ep_fd2 = - 1, has_proc = False\<rparr>"

definition relay_endpoint_close :: "relay_endpoint \<Rightarrow> sys \<Rightarrow> sys" where
  "relay_endpoint_close ep s =
     (if has_proc ep then let (p, s1) = wcat_process_close (ep_proc ep) s in snd (wcat_process_wait p s1)
      else let s1 = (if ep_fd1 ep \<ge> 0 then close_quiet (ep_fd1 ep) s else s)
           in if ep_fd2 ep \<ge> 0 \<and> ep_fd2 ep \<noteq> ep_fd1 ep then close_quiet (ep_fd2 ep) s1 else s1)"

definition split_spec_host_port :: "string \<Rightarrow> string \<Rightarrow> nat \<Rightarrow> nat \<Rightarrow> (string \<times> string) option" where
  "split_spec_host_port spec pre host_len port_len =
     (case split_last (CHR '':'') (drop (length pre) spec) of
        None \<Rightarrow> None
      | Some (h, p) \<Rightarrow>
          if h = [] \<or> p = [] then None
          else if length h \<ge> host_len \<or> length p \<ge> port_len then None
          else if wcat_parse_port (Some p) > 0 then Some (h, p) else None)"

text \<open>An endpoint with one descriptor, or the error report of the call that should have made it.\<close>

definition endpoint_fd :: "string \<Rightarrow> string \<Rightarrow> string \<Rightarrow> relay_endpoint \<Rightarrow> int \<times> sys \<Rightarrow> int \<times> relay_endpoint \<times> sys" where
  "endpoint_fd ev message nm ep r =
     (let (fd, s) = r; ep1 = ep\<lparr>ep_fd1 := fd\<rparr>
      in if fd < 0 then (1, ep1, wcat_log_errno ev message s)
         else (0, ep1\<lparr>ep_stream := wcat_stream_from_fd fd nm\<rparr>, s))"

text \<open>An endpoint that listens for one peer; with an error the listener stays in \<open>ep_fd1\<close>.\<close>

definition endpoint_accept ::
  "string \<Rightarrow> string \<Rightarrow> string \<Rightarrow> relay_endpoint \<Rightarrow> int \<times> sys \<Rightarrow> int \<times> relay_endpoint \<times> sys" where
  "endpoint_accept listen_msg accept_msg nm ep r =
     (let (l, s) = r; ep1 = ep\<lparr>ep_fd1 := l\<rparr>
      in if l < 0 then (1, ep1, wcat_log_errno ''relay_listen'' listen_msg s)
         else case accept_when_ready l s of
                (None, s1) \<Rightarrow> (1, ep1\<lparr>ep_fd2 := - 1\<rparr>, wcat_log_errno ''relay_accept'' accept_msg s1)
              | (Some (c, _, _), s1) \<Rightarrow>
                  (0, ep1\<lparr>ep_fd1 := c, ep_fd2 := - 1, ep_stream := wcat_stream_from_fd c nm\<rparr>, close_quiet l s1))"

definition unknown_spec :: "string \<Rightarrow> string" where
  "unknown_spec spec =
     ''unknown relay spec '' @ [CHR 0x27] @ spec @ [CHR 0x27]
     @ '' (use -, tcp:host:port, listen:host:port, unix:path, unix-listen:path, file:path, exec:path, pty:path)''"

definition open_relay_endpoint :: "wcat_config \<Rightarrow> string \<Rightarrow> relay_endpoint \<Rightarrow> sys \<Rightarrow> int \<times> relay_endpoint \<times> sys" where
  "open_relay_endpoint cfg spec ep s =
     (if spec = ''-'' \<or> spec = ''stdio'' then (0, ep\<lparr>ep_stream := wcat_stream_from_fd_pair 0 1 ''stdio''\<rparr>, s)
      else if prefix ''tcp:'' spec
      then (case split_spec_host_port spec ''tcp:'' 256 32 of
              None \<Rightarrow> (2, ep, wcat_log WCAT_LOG_ERROR ''relay_spec'' ''invalid tcp relay spec'' s)
            | Some (h, p) \<Rightarrow>
                endpoint_fd ''relay_connect'' ''tcp relay connect failed'' ''tcp'' ep
                  (wcat_tcp_connect (Some h) (Some p) (family cfg) (timeout_ms cfg) s))
      else if prefix ''unix:'' spec
      then endpoint_fd ''relay_connect'' ''unix relay connect failed'' ''unix'' ep
             (wcat_unix_connect (Some (drop 5 spec)) (timeout_ms cfg) s)
      else if prefix ''listen:'' spec
      then (case split_spec_host_port spec ''listen:'' 256 32 of
              None \<Rightarrow> (2, ep, wcat_log WCAT_LOG_ERROR ''relay_spec'' ''invalid listen relay spec'' s)
            | Some (h, p) \<Rightarrow>
                endpoint_accept ''tcp relay listen failed'' ''tcp relay accept failed'' ''listen'' ep
                  (wcat_tcp_listen (Some h) (Some p) (family cfg) 16 s))
      else if prefix ''unix-listen:'' spec
      then endpoint_accept ''unix relay listen failed'' ''unix relay accept failed'' ''unix-listen'' ep
             (wcat_unix_listen (Some (drop 12 spec)) 16 s)
      else if prefix ''file:'' spec
      then endpoint_fd ''relay_file'' (drop 5 spec) ''file'' ep (sys_open s)
      else if prefix ''exec:'' spec \<or> prefix ''pty:'' spec
      then let use_pty = (hd spec = CHR ''p''); path = drop (if use_pty then 4 else 5) spec;
               (rc, proc, s1) = wcat_process_spawn use_pty s
           in if rc < 0 then (1, ep\<lparr>ep_proc := proc\<rparr>, wcat_log_errno ''relay_exec'' path s1)
              else (0, ep\<lparr>ep_proc := proc, has_proc := True,
                          ep_stream := wcat_stream_from_fd_pair (out_fd proc) (in_fd proc) ''process''\<rparr>, s1)
      else (2, ep, wcat_log WCAT_LOG_ERROR ''relay_spec'' (unknown_spec spec) s))"

definition run_relay :: "wcat_config \<Rightarrow> sys \<Rightarrow> int \<times> sys" where
  "run_relay cfg s =
     (let (rc1, l, s1) = open_relay_endpoint cfg (the (left cfg)) relay_endpoint_init s;
          (rc, r, s2) = (if rc1 = 0 then open_relay_endpoint cfg (the (right cfg)) relay_endpoint_init s1
                         else (rc1, relay_endpoint_init, s1))
      in if rc \<noteq> 0 then (rc, relay_endpoint_close r (relay_endpoint_close l s2))
         else let rs = (if has_proc l \<and> \<not> has_proc r then (ep_stream r)\<lparr>close_on_eof := False\<rparr> else ep_stream r);
                  ls = (if has_proc r \<and> \<not> has_proc l then (ep_stream l)\<lparr>close_on_eof := False\<rparr> else ep_stream l);
                  (n, _, s3) = wcat_relay_bidirectional ls rs (relay_options cfg) s2
              in (exit_code n, relay_endpoint_close r (relay_endpoint_close l s3)))"

section \<open>One connection\<close>

definition main_connect_socket :: "wcat_config \<Rightarrow> sys \<Rightarrow> int run \<times> sys" where
  "main_connect_socket cfg s =
     (if udp cfg then (let (fd, s1) = wcat_udp_connect (host cfg) (port cfg) (family cfg) s in (Ret fd, s1))
      else if unix_socket cfg then (let (fd, s1) = wcat_unix_connect (host cfg) (timeout_ms cfg) s in (Ret fd, s1))
      else if vsock cfg then (let (fd, s1) = wcat_vsock_connect (host cfg) (port cfg) (timeout_ms cfg) s in (Ret fd, s1))
      else if sctp cfg
      then (let (fd, s1) = wcat_sctp_connect (host cfg) (port cfg) (family cfg) (timeout_ms cfg) s in (Ret fd, s1))
      else case wcat_proxy_parse (proxy_url cfg) of
             None \<Rightarrow> (Ret (- 1), (wcat_log WCAT_LOG_ERROR ''proxy_parse'' ''invalid proxy URL'' s)\<lparr>errno_of := EINVAL\<rparr>)
           | Some pr \<Rightarrow> wcat_proxy_connect (Some pr) (host cfg) (port cfg) (family cfg) (timeout_ms cfg) s)"

definition stdio_stream :: wcat_stream where
  "stdio_stream = wcat_stream_from_fd_pair 0 1 ''stdio''"

definition relay_stream_to_stdio :: "wcat_config \<Rightarrow> wcat_stream \<Rightarrow> sys \<Rightarrow> int \<times> sys" where
  "relay_stream_to_stdio cfg net s =
     (let (rc, _, s1) = wcat_relay_bidirectional net stdio_stream (relay_options cfg) s in (exit_code rc, s1))"

text \<open>The end of a process: its descriptors are closed, then it is waited for.\<close>

definition process_end :: "wcat_process \<Rightarrow> sys \<Rightarrow> sys" where
  "process_end proc s = (let (p, s1) = wcat_process_close proc s in snd (wcat_process_wait p s1))"

definition relay_to_spawned :: "wcat_config \<Rightarrow> wcat_stream \<Rightarrow> wcat_process \<Rightarrow> sys \<Rightarrow> int \<times> sys" where
  "relay_to_spawned cfg net proc s =
     (let (rc, _, s1) = wcat_relay_bidirectional (net\<lparr>close_on_eof := False\<rparr>)
                (wcat_stream_from_fd_pair (out_fd proc) (in_fd proc) ''process'') (relay_options cfg) s
      in (exit_code rc, process_end proc s1))"

definition relay_stream_to_process :: "wcat_config \<Rightarrow> wcat_stream \<Rightarrow> sys \<Rightarrow> int \<times> sys" where
  "relay_stream_to_process cfg net s =
     (let (rc, proc, s1) = wcat_process_spawn (pty cfg) s
      in if rc < 0 then (1, wcat_log_errno ''process_spawn'' (text_of (exec_path cfg)) s1)
         else relay_to_spawned cfg net proc s1)"

text \<open>TLS on a connected descriptor, from the side of the server or of the client.\<close>

definition open_peer_tls :: "wcat_config \<Rightarrow> fd \<Rightarrow> bool \<Rightarrow> sys \<Rightarrow> int \<times> wcat_tls_stream \<times> sys" where
  "open_peer_tls cfg fd server_side s =
     (if server_side
      then wcat_tls_server_open fd (cert_file cfg) (key_file cfg) (ca_file cfg) (tls_require_client_cert cfg) s
      else wcat_tls_client_open fd (if sni cfg \<noteq> None then sni cfg else host cfg) (tls_verify cfg) (ca_file cfg)
             (client_cert_file cfg) (client_key_file cfg) s)"

definition plain_net :: "wcat_config \<Rightarrow> fd \<Rightarrow> wcat_stream" where
  "plain_net cfg fd =
     (let net = wcat_stream_from_fd fd ''network'' in if sctp cfg then net\<lparr>can_close_write := False\<rparr> else net)"

definition relay_peer_to_stdio :: "wcat_config \<Rightarrow> fd \<Rightarrow> bool \<Rightarrow> sys \<Rightarrow> int \<times> sys" where
  "relay_peer_to_stdio cfg fd server_side s =
     (if tls cfg
      then let (rc, t, s1) = open_peer_tls cfg fd server_side s
           in if rc < 0 then (1, s1)
              else let (n, s2) = relay_stream_to_stdio cfg (wcat_stream_from_tls t ''network'') s1
                   in (n, snd (wcat_tls_close t s2))
      else let (n, s2) = relay_stream_to_stdio cfg (plain_net cfg fd) s in (n, close_quiet fd s2))"

definition relay_peer_to_process :: "wcat_config \<Rightarrow> fd \<Rightarrow> bool \<Rightarrow> sys \<Rightarrow> int \<times> sys" where
  "relay_peer_to_process cfg fd server_side s =
     (let (r, proc, s1) = wcat_process_spawn (pty cfg) s
      in if r < 0 then (1, wcat_log_errno ''process_spawn'' (text_of (exec_path cfg)) s1)
         else if tls cfg
         then let (rc, t, s2) = open_peer_tls cfg fd server_side s1
              in if rc < 0 then (1, process_end proc s2)
                 else let (n, s3) = relay_to_spawned cfg (wcat_stream_from_tls t ''network'') proc s2
                      in (n, snd (wcat_tls_close t s3))
         else let (n, s3) = relay_to_spawned cfg (plain_net cfg fd) proc s1 in (n, close_quiet fd s3))"

definition serve_client :: "wcat_config \<Rightarrow> fd \<Rightarrow> sys \<Rightarrow> int \<times> sys" where
  "serve_client cfg client s =
     (if exec_path cfg \<noteq> None then relay_peer_to_process cfg client True s else relay_peer_to_stdio cfg client True s)"

definition run_connect :: "wcat_config \<Rightarrow> sys \<Rightarrow> int run \<times> sys" where
  "run_connect cfg s =
     (case main_connect_socket cfg s of
        (Overrun, s1) \<Rightarrow> (Overrun, s1)
      | (Ret fd, s1) \<Rightarrow>
          if fd < 0 then (Ret 1, wcat_log_errno ''connect'' ''connect failed'' s1)
          else let s2 = wcat_log WCAT_LOG_INFO ''connect'' (''connected to '' @ text_of (host cfg) @ '':'' @ text_of (port cfg)) s1;
                   (rc, s3) = (if exec_path cfg \<noteq> None then relay_peer_to_process cfg fd False s2
                               else relay_peer_to_stdio cfg fd False s2)
               in (Ret rc, s3))"

section \<open>QUIC\<close>

definition serve_quic_stream :: "wcat_config \<Rightarrow> wcat_tls_stream \<Rightarrow> sys \<Rightarrow> int \<times> sys" where
  "serve_quic_stream cfg t s =
     (let net = wcat_stream_from_tls t ''quic'';
          (rc, s1) = (if exec_path cfg \<noteq> None then relay_stream_to_process cfg net s else relay_stream_to_stdio cfg net s)
      in (rc, snd (wcat_tls_close t s1)))"

definition run_quic_connect :: "wcat_config \<Rightarrow> sys \<Rightarrow> int \<times> sys" where
  "run_quic_connect cfg s =
     (let (rc, t, s1) = wcat_quic_client_open cfg s
      in if rc < 0 then (1, s1)
         else serve_quic_stream cfg t
                (wcat_log WCAT_LOG_INFO ''connect''
                   (''connected to '' @ text_of (host cfg) @ '':'' @ text_of (port cfg) @ '' over QUIC'') s1))"

definition run_quic_listen :: "wcat_config \<Rightarrow> sys \<Rightarrow> int \<times> sys" where
  "run_quic_listen cfg s =
     (let (rc, l, s1) = wcat_quic_listener_open cfg s
      in if rc < 0 then (1, s1)
         else let (ra, t, s2) = wcat_quic_accept l
                    (wcat_log WCAT_LOG_INFO ''listen''
                       (''QUIC listening on '' @ text_of (host cfg) @ '':'' @ text_of (port cfg)) s1)
              in if ra < 0
                 then let (_, s3) = wcat_quic_listener_close l s2; (stop, s4) = observe_stop s3
                      in (if stop then 0 else 1, s4)
                 else let (rs, s3) = serve_quic_stream cfg t (wcat_log WCAT_LOG_INFO ''accept'' ''accepted QUIC peer'' s2)
                      in (rs, snd (wcat_quic_listener_close l s3)))"

section \<open>Descriptors of one connection\<close>

lemma closable_streams [simp]:
  "closable (wcat_stream_from_tls t nm) = {}" "closable ((wcat_stream_from_tls t nm)\<lparr>close_on_eof := e\<rparr>) = {}"
  "closable stdio_stream = {}" "closable (plain_net cfg fd) = {}" "closable ((plain_net cfg fd)\<lparr>close_on_eof := e\<rparr>) = {}"
  by (simp_all add: closable_def wcat_stream_from_tls_def stdio_stream_def wcat_stream_from_fd_pair_def plain_net_def
      wcat_stream_from_fd_def Let_def)

lemma closable_process: "closable (wcat_stream_from_fd_pair (out_fd proc) (in_fd proc) nm) \<subseteq> set (process_fds proc)"
  by (auto simp: closable_def wcat_stream_from_fd_pair_def process_fds_def)

text \<open>
  At the end of a process its descriptors are closed; it has been waited for unless \<open>waitpid\<close>
  failed, in which case it is the one child that is left.
\<close>

definition unwaited :: "nat \<Rightarrow> int multiset \<Rightarrow> int multiset \<Rightarrow> bool" where
  "unwaited n C D \<longleftrightarrow> C \<subseteq># D \<and> size D \<le> size C + n"

lemma unwaited_refl [simp]: "unwaited n C C"
  by (simp add: unwaited_def)

lemma unwaited_add [simp]: "unwaited (Suc n) C (add_mset p C)"
  by (simp add: unwaited_def)

lemma unwaited_0 [simp]: "unwaited 0 C D \<longleftrightarrow> D = C"
  unfolding unwaited_def by (metis add.right_neutral mset_subset_eqD nat_less_le size_mset_mono
      subset_mset.antisym_conv2 mset_subset_size not_le subset_mset.order_refl)

definition procs :: "wcat_config \<Rightarrow> nat" where
  "procs cfg = (if exec_path cfg = None then 0 else 1)"

lemma owns_process_end:
  assumes "owns (X \<union> set (process_fds proc)) (add_mset (proc_pid proc) C) s0 s" and "started proc"
  shows "\<exists>D. unwaited 1 C D \<and> owns X D s0 (process_end proc s)"
proof -
  obtain p s1 where c: "wcat_process_close proc s = (p, s1)" by force
  have p: "proc_pid p = proc_pid proc" using c by (auto simp: wcat_process_close_def Let_def)
  have w: "wcat_process_wait p s1 = wcat_process_wait proc s1" by (simp add: wcat_process_wait_def p)
  obtain r s2 where v: "wcat_process_wait proc s1 = (r, s2)" by force
  have e: "process_end proc s = s2" by (simp add: process_end_def c w v)
  from owns_process_close [OF assms] c have "owns (X - set (process_fds proc)) (add_mset (proc_pid proc) C) s0 s1" by simp
  then have 1: "owns X (add_mset (proc_pid proc) C) s0 s1" by (rule owns_restore [OF _ assms(1)])
  from owns_process_wait [OF 1 v assms(2)] show ?thesis
  proof
    assume "owns X C s0 s2"
    then show ?thesis unfolding e by (intro exI [of _ C]) simp
  next
    assume "r = - 1 \<and> owns X (add_mset (proc_pid proc) C) s0 s2"
    then show ?thesis unfolding e by (intro exI [of _ "add_mset (proc_pid proc) C"]) simp
  qed
qed

lemma owns_to_stdio:
  "owns X C s0 s \<Longrightarrow> relay_stream_to_stdio cfg net s = (rc, s') \<Longrightarrow> closable net \<subseteq> X \<Longrightarrow> owns X C s0 s'"
  using owns_relay [of X C s0 s net stdio_stream "relay_options cfg"]
  by (auto simp: relay_stream_to_stdio_def split: prod.splits)

lemma owns_to_spawned:
  assumes "owns (X \<union> set (process_fds proc)) (add_mset (proc_pid proc) C) s0 s" and "started proc"
    and "relay_to_spawned cfg net proc s = (rc, s')" and "closable (net\<lparr>close_on_eof := False\<rparr>) = {}"
  shows "\<exists>D. unwaited 1 C D \<and> owns X D s0 s'"
proof -
  obtain n r s1 where b: "wcat_relay_bidirectional (net\<lparr>close_on_eof := False\<rparr>)
      (wcat_stream_from_fd_pair (out_fd proc) (in_fd proc) ''process'') (relay_options cfg) s = (n, r, s1)" using prod_cases3 by blast
  have "owns (X \<union> set (process_fds proc)) (add_mset (proc_pid proc) C) s0 s1"
    by (rule owns_relay [OF assms(1) b]) (use assms(4) closable_process in auto)
  from owns_process_end [OF this assms(2)] assms(3) b show ?thesis by (auto simp: relay_to_spawned_def)
qed

lemma owns_stream_to_process:
  assumes "owns X C s0 s" and "relay_stream_to_process cfg net s = (rc, s')" and "closable (net\<lparr>close_on_eof := False\<rparr>) = {}"
  shows "\<exists>D. unwaited 1 C D \<and> owns X D s0 s'"
proof -
  obtain r proc s1 where p: "wcat_process_spawn (pty cfg) s = (r, proc, s1)" using prod_cases3 by blast
  note run = assms(2) [unfolded relay_stream_to_process_def p prod.case Let_def]
  from owns_spawn [OF assms(1) p] show ?thesis
  proof
    assume "r = - 1 \<and> owns X C s0 s1"
    with run have "owns X C s0 s'" by (auto intro: own)
    then show ?thesis using unwaited_refl by blast
  next
    assume ok: "r = 0 \<and> 0 < proc_pid proc \<and> owns (X \<union> set (process_fds proc)) (add_mset (proc_pid proc) C) s0 s1"
    then have st: "started proc" using p by (auto intro: spawn_started)
    from ok run have q: "relay_to_spawned cfg net proc s1 = (rc, s')" by simp
    from owns_to_spawned [OF _ st q assms(3)] ok show ?thesis by blast
  qed
qed

lemma owns_open_peer_tls:
  assumes "owns (insert fd X) C s0 s" and "open_peer_tls cfg fd sv s = (rc, t, s')"
  shows "rc = 0 \<and> owns (insert fd X) C s0 s' \<and> tfd t = fd \<and> owns_fd t \<and> \<not> quic_stream t
    \<or> rc = - 1 \<and> owns (X - {fd}) C s0 s'"
  using owns_server_open [OF assms(1)] owns_client_open [OF assms(1)] assms(2)
  by (cases sv) (simp_all add: open_peer_tls_def)

text \<open>The connection handed over is closed at the end, whatever happens.\<close>

lemma owns_peer_to_stdio:
  assumes "owns (insert fd X) C s0 s" and "relay_peer_to_stdio cfg fd sv s = (rc, s')"
  shows "owns (X - {fd}) C s0 s'"
proof (cases "tls cfg")
  case False
  obtain n s2 where r: "relay_stream_to_stdio cfg (plain_net cfg fd) s = (n, s2)" by force
  from owns_close [OF owns_to_stdio [OF assms(1) r]] assms(2) r False show ?thesis by (auto simp: relay_peer_to_stdio_def)
next
  case True
  obtain q t s1 where o: "open_peer_tls cfg fd sv s = (q, t, s1)" using prod_cases3 by blast
  from owns_open_peer_tls [OF assms(1) o] consider (ok) "q = 0" "owns (insert fd X) C s0 s1" "tfd t = fd" "owns_fd t"
    | (failed) "q = - 1" "owns (X - {fd}) C s0 s1" by auto
  then show ?thesis
  proof cases
    case failed
    with assms(2) True o show ?thesis by (auto simp: relay_peer_to_stdio_def)
  next
    case ok
    obtain n s2 where r: "relay_stream_to_stdio cfg (wcat_stream_from_tls t ''network'') s1 = (n, s2)" by force
    have "owns (insert (tfd t) X) C s0 s2" using owns_to_stdio [OF ok(2) r] ok(3) by simp
    from owns_tls_close [OF this ok(4)] assms(2) True o r ok show ?thesis by (auto simp: relay_peer_to_stdio_def)
  qed
qed

text \<open>With a process too, except that a process that could not be started leaves the connection open.\<close>

lemma owns_peer_to_process:
  assumes "owns (insert fd X) C s0 s" and "relay_peer_to_process cfg fd sv s = (rc, s')"
  shows "(\<exists>D. unwaited 1 C D \<and> owns (X - {fd}) D s0 s')
    \<or> fst (wcat_process_spawn (pty cfg) s) = - 1 \<and> rc = 1 \<and> owns (insert fd X) C s0 s'"
proof -
  obtain r proc s1 where p: "wcat_process_spawn (pty cfg) s = (r, proc, s1)" using prod_cases3 by blast
  note run = assms(2) [unfolded relay_peer_to_process_def p prod.case Let_def]
  let ?C = "add_mset (proc_pid proc) C" and ?F = "set (process_fds proc)"
  from owns_spawn [OF assms(1) p] consider (nospawn) "r = - 1" "owns (insert fd X) C s0 s1"
    | (spawned) "r = 0" "0 < proc_pid proc" "owns (insert fd X \<union> ?F) ?C s0 s1" by auto
  then show ?thesis
  proof cases
    case nospawn
    with run owns_log(2) [OF nospawn(2)] p show ?thesis by auto
  next
    case spawned
    then have st: "started proc" using p by (auto intro: spawn_started)
    have w: "owns (insert fd (X \<union> ?F)) ?C s0 s1" using spawned(3) by simp
    show ?thesis
    proof (cases "tls cfg")
      case False
      obtain n s3 where q: "relay_to_spawned cfg (plain_net cfg fd) proc s1 = (n, s3)" by force
      from owns_to_spawned [OF spawned(3) st q] obtain D where "unwaited 1 C D" "owns (insert fd X) D s0 s3" by auto
      moreover have "s' = close_quiet fd s3" using run spawned(1) False q by auto
      ultimately show ?thesis using owns_close by blast
    next
      case True
      obtain q t s2 where o: "open_peer_tls cfg fd sv s1 = (q, t, s2)" using prod_cases3 by blast
      from owns_open_peer_tls [OF w o] consider (ok) "q = 0" "owns (insert fd (X \<union> ?F)) ?C s0 s2" "tfd t = fd" "owns_fd t"
        | (failed) "q = - 1" "owns (X \<union> ?F - {fd}) ?C s0 s2" by auto
      then show ?thesis
      proof cases
        case failed
        have e: "(X - {fd}) \<union> ?F - {fd} = X \<union> ?F - {fd}" "(X - {fd}) \<union> ?F \<union> {fd} = insert fd (X \<union> ?F)" by auto
        have "owns ((X - {fd}) \<union> ?F) ?C s0 s2"
          by (rule owns_restore [of _ "{fd}"]) (use failed(2) w in \<open>simp_all only: e\<close>)
        from owns_process_end [OF this st] obtain D where "unwaited 1 C D" "owns (X - {fd}) D s0 (process_end proc s2)" by blast
        moreover have "s' = process_end proc s2" using run spawned(1) True o failed(1) by auto
        ultimately show ?thesis by blast
      next
        case ok
        obtain n s3 where q: "relay_to_spawned cfg (wcat_stream_from_tls t ''network'') proc s2 = (n, s3)" by force
        have "owns (insert fd X \<union> ?F) ?C s0 s2" using ok(2) by simp
        from owns_to_spawned [OF this st q] obtain D where d: "unwaited 1 C D" "owns (insert (tfd t) X) D s0 s3"
          using ok(3) by auto
        moreover have "s' = snd (wcat_tls_close t s3)" using run spawned(1) True o ok q by auto
        ultimately show ?thesis using owns_tls_close [OF d(2) ok(4)] ok(3) by auto
      qed
    qed
  qed
qed

section \<open>The modes that connect\<close>

lemma main_connect_makes_fd:
  assumes "main_connect_socket cfg s = (Ret r, s')"
  shows "makes_fd s r s'"
proof -
  consider "udp cfg" | "\<not> udp cfg" "unix_socket cfg" | "\<not> udp cfg" "\<not> unix_socket cfg" "vsock cfg"
    | "\<not> udp cfg" "\<not> unix_socket cfg" "\<not> vsock cfg" "sctp cfg"
    | (tcp) "\<not> udp cfg" "\<not> unix_socket cfg" "\<not> vsock cfg" "\<not> sctp cfg" by blast
  then show ?thesis
  proof cases
    case tcp
    show ?thesis
    proof (cases "wcat_proxy_parse (proxy_url cfg)")
      case None
      with tcp assms have "r = - 1" "rest_of {} s' = rest_of {} s" by (auto simp: main_connect_socket_def rest)
      then show ?thesis by (simp add: makes_fd_def)
    next
      case (Some pr)
      with tcp assms show ?thesis by (auto simp: main_connect_socket_def intro: proxied.make_fd)
    qed
  qed (use assms in \<open>auto simp: main_connect_socket_def split: prod.splits
        intro: new_socket_makes_fd [OF udp_connect.make_new] new_socket_makes_fd [OF unix_connect.make_new]
          new_socket_makes_fd [OF vsock_connect.make_new] new_socket_makes_fd [OF sctp_connect.make_new]\<close>)
qed

interpretation main_connect: fd_maker "main_connect_socket cfg"
  by unfold_locales (rule main_connect_makes_fd)

lemma run_connect_owns:
  assumes "run_connect cfg s = (Ret rc, s')"
  shows "(\<exists>D. unwaited (procs cfg) {#} D \<and> owns {} D s s')
    \<or> exec_path cfg \<noteq> None \<and> rc = 1 \<and> (\<exists>fd. 0 \<le> fd \<and> owns {fd} {#} s s')"
proof -
  obtain q s1 where c: "main_connect_socket cfg s = (q, s1)" by force
  with assms obtain fd where q: "q = Ret fd" by (cases q) (auto simp: run_connect_def)
  note w = owns_make [OF owns_refl main_connect.make_fd [OF c [unfolded q]]]
  define s2 where "s2 = wcat_log WCAT_LOG_INFO ''connect'' (''connected to '' @ text_of (host cfg) @ '':'' @ text_of (port cfg)) s1"
  note run = assms [unfolded run_connect_def c q prod.case run.case Let_def s2_def [symmetric]]
  show ?thesis
  proof (cases "fd < 0")
    case True
    then have "owns {} {#} s s1" using w by simp
    from owns_log(2) [OF this] have "owns {} {#} s s'" using run True by auto
    then show ?thesis using unwaited_refl by blast
  next
    case False
    have w2: "owns {fd} {#} s s2" unfolding s2_def using owns_log(1) w False by simp
    show ?thesis
    proof (cases "exec_path cfg")
      case None
      obtain r s3 where r: "relay_peer_to_stdio cfg fd False s2 = (r, s3)" by force
      with run False None have "s' = s3" by simp
      with owns_peer_to_stdio [OF w2 r] have "owns {} {#} s s'" by simp
      then show ?thesis using unwaited_refl by blast
    next
      case (Some path)
      obtain r s3 where r: "relay_peer_to_process cfg fd False s2 = (r, s3)" by force
      with run False Some have e: "s' = s3" "rc = r" by simp_all
      from owns_peer_to_process [OF w2 r] Some False show ?thesis unfolding e by (auto simp: procs_def)
    qed
  qed
qed

lemma owns_serve_quic:
  assumes "owns X C s0 s" and "serve_quic_stream cfg t s = (rc, s')" and "owns_fd t \<longrightarrow> tfd t \<in> X"
  shows "\<exists>D. unwaited (procs cfg) C D \<and> owns (if owns_fd t then X - {tfd t} else X) D s0 s'"
proof -
  obtain r s1 where r: "(if exec_path cfg \<noteq> None then relay_stream_to_process cfg (wcat_stream_from_tls t ''quic'') s
      else relay_stream_to_stdio cfg (wcat_stream_from_tls t ''quic'') s) = (r, s1)" by force
  have e: "s' = snd (wcat_tls_close t s1)" using assms(2) r by (auto simp: serve_quic_stream_def Let_def)
  have "\<exists>D. unwaited (procs cfg) C D \<and> owns X D s0 s1"
  proof (cases "exec_path cfg")
    case None
    then have "owns X C s0 s1" using owns_to_stdio [OF assms(1)] r by simp
    then show ?thesis using unwaited_refl by blast
  next
    case (Some x)
    then have "relay_stream_to_process cfg (wcat_stream_from_tls t ''quic'') s = (r, s1)" using r by simp
    from owns_stream_to_process [OF assms(1) this closable_streams(2)] Some show ?thesis by (simp add: procs_def)
  qed
  then obtain D where d: "unwaited (procs cfg) C D" "owns X D s0 s1" by blast
  show ?thesis
  proof (cases "owns_fd t")
    case True
    then have "owns (insert (tfd t) X) D s0 s1" using d(2) assms(3) by (simp add: insert_absorb)
    from owns_tls_close [OF this True] have "owns (X - {tfd t}) D s0 s'" unfolding e .
    with d(1) True show ?thesis by auto
  next
    case False
    have "rest_of {} s' = rest_of {} s1" unfolding e using False by (simp add: wcat_tls_close_def Let_def rest)
    from owns_io [OF d(2) this] d(1) False show ?thesis by auto
  qed
qed

lemma run_quic_connect_owns:
  assumes "run_quic_connect cfg s = (rc, s')"
  shows "\<exists>D. unwaited (procs cfg) {#} D \<and> owns {} D s s'"
proof -
  obtain r t s1 where c: "wcat_quic_client_open cfg s = (r, t, s1)" using prod_cases3 by blast
  from quic_client_open_result [OF c] consider (failed) "r = - 1" "rest_of {} s1 = rest_of {} s"
    | (ok) "r = 0" "0 \<le> tfd t" "makes_fd s (tfd t) s1" "owns_fd t" by (auto simp: quic_connected_def)
  then show ?thesis
  proof cases
    case failed
    with assms c have "s' = s1" by (simp add: run_quic_connect_def)
    with owns_io [OF owns_refl failed(2)] show ?thesis using unwaited_refl by blast
  next
    case ok
    define s2 where "s2 = wcat_log WCAT_LOG_INFO ''connect''
      (''connected to '' @ text_of (host cfg) @ '':'' @ text_of (port cfg) @ '' over QUIC'') s1"
    have w: "owns {tfd t} {#} s s2" unfolding s2_def using owns_log(1) owns_make [OF owns_refl ok(3)] ok(2) by simp
    have "serve_quic_stream cfg t s2 = (rc, s')" using assms c ok by (simp add: run_quic_connect_def s2_def)
    from owns_serve_quic [OF w this] ok(4) show ?thesis by auto
  qed
qed

lemma quic_accept_stream:
  assumes "wcat_quic_accept l s = (rc, t, s')"
  shows "\<not> owns_fd t" and "rc = 0 \<or> rc = - 1"
  using assms by (auto simp: wcat_quic_accept_def tls_zero_def Let_def split: prod.splits option.splits bool.splits if_splits)

lemma owns_listener_close:
  assumes "owns (insert (ql_fd l) X) C s0 s" and "0 \<le> ql_fd l"
  shows "owns (X - {ql_fd l}) C s0 (snd (wcat_quic_listener_close l s))"
  using owns_close [OF assms(1)] assms(2) by (simp add: wcat_quic_listener_close_def)

lemma run_quic_listen_owns:
  assumes "run_quic_listen cfg s = (rc, s')"
  shows "\<exists>D. unwaited (procs cfg) {#} D \<and> owns {} D s s'"
proof -
  obtain r l s1 where o: "wcat_quic_listener_open cfg s = (r, l, s1)" using prod_cases3 by blast
  from quic_listener_open_result [OF o] consider (failed) "r = - 1" "rest_of {} s1 = rest_of {} s"
    | (ok) "r = 0" "0 \<le> ql_fd l" "makes_fd s (ql_fd l) s1" by auto
  then show ?thesis
  proof cases
    case failed
    with assms o have "s' = s1" by (simp add: run_quic_listen_def)
    with owns_io [OF owns_refl failed(2)] show ?thesis using unwaited_refl by blast
  next
    case ok
    define s2 where "s2 = wcat_log WCAT_LOG_INFO ''listen''
      (''QUIC listening on '' @ text_of (host cfg) @ '':'' @ text_of (port cfg)) s1"
    have w: "owns (insert (ql_fd l) {}) {#} s s2" unfolding s2_def using owns_log(1) owns_make [OF owns_refl ok(3)] ok(2) by simp
    obtain ra t s3 where a: "wcat_quic_accept l s2 = (ra, t, s3)" using prod_cases3 by blast
    have w3: "owns (insert (ql_fd l) {}) {#} s s3"
      using owns_io [OF w, of s3] rest_quic_accept [of "{}" l s2] a by simp
    note run = assms [unfolded run_quic_listen_def o prod.case Let_def s2_def [symmetric] a]
    show ?thesis
    proof (cases "ra < 0")
      case True
      obtain u s4 where c: "wcat_quic_listener_close l s3 = (u, s4)" by force
      obtain stop s5 where st: "observe_stop s4 = (stop, s5)" by force
      have "owns {} {#} s s4" using owns_listener_close [OF w3 ok(2)] c by simp
      from owns_stop [OF this st] run ok True c st have "owns {} {#} s s'" by auto
      then show ?thesis using unwaited_refl by blast
    next
      case False
      define s4 where "s4 = wcat_log WCAT_LOG_INFO ''accept'' ''accepted QUIC peer'' s3"
      have w4: "owns (insert (ql_fd l) {}) {#} s s4" unfolding s4_def by (rule owns_log [OF w3])
      obtain rs s5 where sv: "serve_quic_stream cfg t s4 = (rs, s5)" by force
      from owns_serve_quic [OF w4 sv] quic_accept_stream(1) [OF a] obtain D
        where d: "unwaited (procs cfg) {#} D" "owns (insert (ql_fd l) {}) D s s5" by auto
      have "s' = snd (wcat_quic_listener_close l s5)" using run ok False sv by (simp add: s4_def)
      with owns_listener_close [OF d(2) ok(2)] d(1) show ?thesis by auto
    qed
  qed
qed

section \<open>The mode that listens\<close>

lemma acc_q_rest: "rest_of UNIV s' = rest_of UNIV s \<Longrightarrow> acc_q s' = acc_q s"
  by (rule rest_fields(1))

lemma spawn_acc_q: "wcat_process_spawn tt s = (rc, proc, s') \<Longrightarrow> acc_q s' = acc_q s"
  using spawn_failed [of tt s rc proc s'] spawn_ok [of tt s proc s']
  by (cases "rc = 0") (auto simp: spawned_def dest: rest_fields(1))

lemma process_end_acc_q: "acc_q (process_end proc s) = acc_q s"
proof -
  obtain p s1 where c: "wcat_process_close proc s = (p, s1)" by force
  obtain r s2 where w: "wcat_process_wait p s1 = (r, s2)" by force
  have "acc_q s1 = acc_q s" using c by (auto simp: wcat_process_close_def Let_def)
  moreover have "acc_q s2 = acc_q s1"
    using w wait_loop_effect [of "proc_pid p" s1 r s2] by (auto simp: wcat_process_wait_def split: if_splits)
  ultimately show ?thesis by (simp add: process_end_def c w)
qed

lemma relay_acc_q: "acc_q (snd (snd (wcat_relay_bidirectional a b opts s))) = acc_q s"
  by (rule acc_q_rest) (simp add: wcat_relay_bidirectional_rest)

lemma serve_client_acc_q: "acc_q (snd (serve_client cfg fd s)) = acc_q s"
proof -
  have st: "acc_q (snd (relay_stream_to_stdio cfg net u)) = acc_q u" for net u
    by (simp add: relay_stream_to_stdio_def case_prod_unfold Let_def relay_acc_q)
  have sp: "acc_q (snd (relay_to_spawned cfg net proc u)) = acc_q u" for net proc u
    by (simp add: relay_to_spawned_def case_prod_unfold Let_def relay_acc_q process_end_acc_q)
  have op: "acc_q (snd (snd (open_peer_tls cfg fd sv u))) = acc_q u" for sv u
    by (rule acc_q_rest) (simp add: open_peer_tls_def rest_client_open rest_server_open)
  have cl: "acc_q (snd (wcat_tls_close t u)) = acc_q u" for t u
    by (rule acc_q_rest) (simp add: rest_tls_close)
  have le: "acc_q (wcat_log_errno ev m u) = acc_q u" for ev m u
    by (rule acc_q_rest) (simp add: rest)
  have sw: "acc_q (snd (snd (wcat_process_spawn tt u))) = acc_q u" for tt u
    by (rule spawn_acc_q) (simp add: prod_eq_iff)
  show ?thesis
    by (simp add: serve_client_def relay_peer_to_stdio_def relay_peer_to_process_def case_prod_unfold Let_def
        st sp op cl le sw process_end_acc_q)
qed

text \<open>The socket of \<open>listen\<close> and of \<open>listen --multi\<close>.\<close>

definition main_listen_socket :: "wcat_config \<Rightarrow> sys \<Rightarrow> int \<times> sys" where
  "main_listen_socket cfg s =
     (if unix_socket cfg then wcat_unix_listen (host cfg) 16 s
      else if vsock cfg then wcat_vsock_listen (host cfg) (port cfg) 16 s
      else if sctp cfg then wcat_sctp_listen (host cfg) (port cfg) (family cfg) 16 s
      else wcat_tcp_listen (host cfg) (port cfg) (family cfg) 16 s)"

interpretation listening: socket_maker "main_listen_socket cfg"
  by unfold_locales
    (auto simp: main_listen_socket_def split: if_splits
      intro: unix_listen.make_new vsock_listen.make_new sctp_listen.make_new tcp_listen.make_new)

text \<open>One accepted client: checked, logged, served; a denied one is closed and the result stays.\<close>

definition listen_client :: "inet \<Rightarrow> wcat_config \<Rightarrow> int \<Rightarrow> fd \<times> string \<times> string \<Rightarrow> sys \<Rightarrow> int \<times> sys" where
  "listen_client L cfg rc peer s =
     (let (client, h, p) = peer; (allowed, s1) = wcat_access_check_fd L cfg client s
      in if \<not> allowed then (rc, close_quiet client s1)
         else serve_client cfg client (wcat_log WCAT_LOG_INFO ''accept'' (''accepted '' @ h @ '':'' @ p) s1))"

lemma listen_client_acc_q: "acc_q (snd (listen_client L cfg rc peer s)) = acc_q s"
proof -
  obtain c h p where x: "peer = (c, h, p)" by (cases peer) auto
  obtain ok s1 where a: "wcat_access_check_fd L cfg c s = (ok, s1)" by force
  then have "rest_of UNIV s1 = rest_of UNIV s" by (metis rest_access snd_conv)
  from acc_q_rest [OF this] show ?thesis
    by (simp add: listen_client_def x a serve_client_acc_q wcat_log_def Let_def)
qed

function listen_loop :: "inet \<Rightarrow> wcat_config \<Rightarrow> fd \<Rightarrow> int \<Rightarrow> sys \<Rightarrow> int \<times> sys" where
  "listen_loop L cfg listener rc s =
     (case accept_when_ready listener s of
        (None, s1) \<Rightarrow>
          (let (stop, s2) = observe_stop s1
           in if stop then (rc, s2) else (1, wcat_log_errno ''accept'' ''accept failed'' s2))
      | (Some peer, s1) \<Rightarrow>
          (let (rc1, s2) = listen_client L cfg rc peer s1
           in if \<not> keep_open cfg then (rc1, s2)
              else let (stop, s3) = observe_stop s2
                   in if stop then (rc1, s3) else listen_loop L cfg listener rc1 s3))"
  by pat_completeness auto
termination
proof (relation "measure (\<lambda>(L, cfg, l, rc, s). length (acc_q s l))", goal_cases)
  case 1
  show ?case by simp
next
  case (2 L cfg l rc s x s1 peer y rc1 s2 z stop s3)
  obtain c h p where x: "peer = (c, h, p)" by (cases peer) auto
  have "length (acc_q s1 l) < length (acc_q s l)"
    using accept_when_ready_effect [of l s c h p s1] 2(1,2) x by simp
  moreover have "acc_q s2 = acc_q s1" using listen_client_acc_q [of L cfg rc peer s1] 2(3,4) by (metis snd_conv)
  moreover have "acc_q s3 = acc_q s2" using rest_stop [of s2 stop s3 UNIV] 2(6,7) by (intro acc_q_rest) simp
  ultimately show ?case by simp
qed

declare listen_loop.simps [simp del]

definition run_listen_serial :: "inet \<Rightarrow> wcat_config \<Rightarrow> sys \<Rightarrow> int \<times> sys" where
  "run_listen_serial L cfg s =
     (if udp cfg
      then let (listener, s1) = wcat_udp_bind (host cfg) (port cfg) (family cfg) s
           in if listener < 0 then (1, wcat_log_errno ''listen'' ''UDP bind failed'' s1) else serve_client cfg listener s1
      else let (listener, s1) = main_listen_socket cfg s
           in if listener < 0 then (1, wcat_log_errno ''listen'' ''listen failed'' s1)
              else let (rc, s2) = listen_loop L cfg listener 0
                         (wcat_log WCAT_LOG_INFO ''listen''
                            (if unix_socket cfg then ''listening on unix:'' @ text_of (host cfg)
                             else ''listening on '' @ text_of (host cfg) @ '':'' @ text_of (port cfg)) s1)
                   in (rc, close_quiet listener s2))"

text \<open>
  Serving clients one after the other. Without \<open>--exec\<close> nothing is left over; with it, a process
  that could not be started leaves its connection open, once per client.
\<close>

definition grown :: "wcat_config \<Rightarrow> fd set \<Rightarrow> int multiset \<Rightarrow> sys \<Rightarrow> sys \<Rightarrow> bool" where
  "grown cfg X C s0 s \<longleftrightarrow>
     (\<exists>Y D. X \<subseteq> Y \<and> C \<subseteq># D \<and> (exec_path cfg = None \<longrightarrow> Y \<subseteq> X \<and> D \<subseteq># C) \<and> owns Y D s0 s)"

lemma grownI: "owns Y D s0 s \<Longrightarrow> X \<subseteq> Y \<Longrightarrow> C \<subseteq># D \<Longrightarrow> exec_path cfg = None \<longrightarrow> Y \<subseteq> X \<and> D \<subseteq># C \<Longrightarrow> grown cfg X C s0 s"
  unfolding grown_def by (intro exI conjI)

lemma grownE:
  assumes "grown cfg X C s0 s"
  obtains Y D where "owns Y D s0 s" "X \<subseteq> Y" "C \<subseteq># D" "exec_path cfg = None \<longrightarrow> Y \<subseteq> X \<and> D \<subseteq># C"
  using assms unfolding grown_def by (elim exE conjE)

lemma grown_refl: "owns X C s0 s \<Longrightarrow> grown cfg X C s0 s"
  by (erule grownI) simp_all

lemma grown_trans:
  assumes "X \<subseteq> Y" and "C \<subseteq># D" and "exec_path cfg = None \<longrightarrow> Y \<subseteq> X \<and> D \<subseteq># C" and "grown cfg Y D s0 s"
  shows "grown cfg X C s0 s"
  using assms(4)
proof (rule grownE)
  fix Y' D'
  assume w: "owns Y' D' s0 s" "Y \<subseteq> Y'" "D \<subseteq># D'" "exec_path cfg = None \<longrightarrow> Y' \<subseteq> Y \<and> D' \<subseteq># D"
  show ?thesis
  proof (rule grownI [OF w(1)])
    show "X \<subseteq> Y'" using assms(1) w(2) by (rule order_trans)
    show "C \<subseteq># D'" using assms(2) w(3) by (rule subset_mset.order_trans)
    show "exec_path cfg = None \<longrightarrow> Y' \<subseteq> X \<and> D' \<subseteq># C"
      using assms(3) w(4) by (meson order_trans subset_mset.order_trans)
  qed
qed

lemma grown_None: "grown cfg X C s0 s \<Longrightarrow> exec_path cfg = None \<Longrightarrow> owns X C s0 s"
proof (erule grownE)
  fix Y D
  assume "exec_path cfg = None" and w: "owns Y D s0 s" "X \<subseteq> Y" "C \<subseteq># D" "exec_path cfg = None \<longrightarrow> Y \<subseteq> X \<and> D \<subseteq># C"
  then have "Y = X" "D = C" by (simp_all add: subset_antisym subset_mset.order_antisym)
  with w(1) show ?thesis by simp
qed

lemma owns_listen_client:
  assumes "owns (insert c X) C s0 s" and "listen_client L cfg rc (c, h, p) s = (rc', s')"
  shows "grown cfg X C s0 s'"
proof -
  obtain ok s1 where a: "wcat_access_check_fd L cfg c s = (ok, s1)" by force
  note w1 = owns_access [OF assms(1) a]
  have fit: "owns X D s0 u" if "owns (X - {c}) D s0 u" for D u
    by (rule owns_restore [OF that]) (use assms(1) in simp)
  define s2 where "s2 = wcat_log WCAT_LOG_INFO ''accept'' (''accepted '' @ h @ '':'' @ p) s1"
  have w2: "owns (insert c X) C s0 s2" unfolding s2_def by (rule owns_log [OF w1])
  note run = assms(2) [unfolded listen_client_def a prod.case Let_def s2_def [symmetric]]
  consider (denied) "\<not> ok" | (stdio) "ok" "exec_path cfg = None" | (proc) "ok" "exec_path cfg \<noteq> None" by blast
  then show ?thesis
  proof cases
    case denied
    with run fit [OF owns_close [OF w1]] show ?thesis by (auto intro: grown_refl)
  next
    case stdio
    then have "relay_peer_to_stdio cfg c True s2 = (rc', s')" using run by (simp add: serve_client_def)
    from fit [OF owns_peer_to_stdio [OF w2 this]] show ?thesis by (rule grown_refl)
  next
    case proc
    then have "relay_peer_to_process cfg c True s2 = (rc', s')" using run by (simp add: serve_client_def)
    from owns_peer_to_process [OF w2 this] consider D where "unwaited 1 C D" "owns X D s0 s'"
      | "owns (insert c X) C s0 s'" using fit by blast
    then show ?thesis
    proof cases
      case 1
      then have "C \<subseteq># D" by (simp add: unwaited_def)
      show ?thesis by (rule grownI [OF 1(2) order_refl \<open>C \<subseteq># D\<close>]) (use proc(2) in auto)
    next
      case 2
      show ?thesis by (rule grownI [OF 2]) (use proc(2) in auto)
    qed
  qed
qed

lemma owns_listen_loop: "owns X C s0 s \<Longrightarrow> grown cfg X C s0 (snd (listen_loop L cfg l rc s))"
proof (induction L cfg l rc s arbitrary: X C rule: listen_loop.induct)
  case (1 L cfg l rc s)
  obtain a s1 where ac: "accept_when_ready l s = (a, s1)" by force
  note w1 = owns_accept_when_ready [OF ac "1.prems"]
  note u = listen_loop.simps [of L cfg l rc s, unfolded ac prod.case Let_def]
  show ?case
  proof (cases a)
    case None
    obtain stop s2 where st: "observe_stop s1 = (stop, s2)" by force
    have "owns X C s0 s2" using owns_stop [OF _ st] w1 None by simp
    then show ?thesis using u None st by (auto intro: grown_refl own)
  next
    case (Some x)
    obtain c h p where x: "x = (c, h, p)" by (cases x) auto
    obtain rc1 s2 where lc: "listen_client L cfg rc x s1 = (rc1, s2)" by force
    have "owns (insert c X) C s0 s1" using w1 Some x by simp
    note g = owns_listen_client [OF this lc [unfolded x]]
    obtain stop s3 where st: "observe_stop s2 = (stop, s3)" by force
    from g obtain Y D where w2: "owns Y D s0 s2"
      and g': "X \<subseteq> Y" "C \<subseteq># D" "exec_path cfg = None \<longrightarrow> Y \<subseteq> X \<and> D \<subseteq># C" by (rule grownE)
    note w3 = owns_stop [OF w2 st]
    consider (once) "\<not> keep_open cfg" | (stop) "keep_open cfg" "stop" | (again) "\<not> \<not> keep_open cfg" "\<not> stop" by blast
    then show ?thesis
    proof cases
      case once
      with u Some lc g show ?thesis by simp
    next
      case stop
      with u Some lc st grown_trans [OF g'(1-3) grown_refl [OF w3]] show ?thesis by simp
    next
      case again
      from "1.IH" [OF ac [symmetric] Some lc [symmetric] refl again(1) st [symmetric] refl again(2) w3]
      have "grown cfg Y D s0 (snd (listen_loop L cfg l rc1 s3))" .
      from grown_trans [OF g'(1-3) this] again u Some lc st show ?thesis by simp
    qed
  qed
qed

lemma run_listen_serial_held:
  assumes "exec_path cfg = None"
  shows "held (snd (run_listen_serial L cfg s)) = held s"
proof (cases "udp cfg")
  case True
  obtain l s1 where l: "wcat_udp_bind (host cfg) (port cfg) (family cfg) s = (l, s1)" by force
  note w = owns_make [OF owns_refl new_socket_makes_fd [OF udp_bind.make_new [OF l]]]
  show ?thesis
  proof (cases "l < 0")
    case neg: True
    with w have "owns {} {#} s (wcat_log_errno ''listen'' ''UDP bind failed'' s1)" by (auto intro: own)
    with True l neg show ?thesis by (simp add: run_listen_serial_def owns_held)
  next
    case False
    obtain rc s2 where r: "relay_peer_to_stdio cfg l True s1 = (rc, s2)" by force
    have "owns {l} {#} s s1" using w False by simp
    from owns_peer_to_stdio [OF this r] True l False r assms show ?thesis
      by (simp add: run_listen_serial_def serve_client_def owns_held)
  qed
next
  case False
  obtain l s1 where l: "main_listen_socket cfg s = (l, s1)" by force
  note w = owns_make [OF owns_refl new_socket_makes_fd [OF listening.make_new [OF l]]]
  define s2 where "s2 = wcat_log WCAT_LOG_INFO ''listen''
    (if unix_socket cfg then ''listening on unix:'' @ text_of (host cfg)
     else ''listening on '' @ text_of (host cfg) @ '':'' @ text_of (port cfg)) s1"
  note run = run_listen_serial_def [of L cfg s, unfolded if_not_P [OF False] l prod.case Let_def s2_def [symmetric]]
  show ?thesis
  proof (cases "l < 0")
    case True
    with w have "owns {} {#} s (wcat_log_errno ''listen'' ''listen failed'' s1)" by (auto intro: own)
    with run True show ?thesis by (simp add: owns_held)
  next
    case pos: False
    have w2: "owns (insert l {}) {#} s s2" unfolding s2_def using owns_log(1) w pos by simp
    have "owns (insert l {}) {#} s (snd (listen_loop L cfg l 0 s2))"
      by (rule grown_None [OF owns_listen_loop [OF w2] assms])
    from owns_close [OF this] run pos show ?thesis by (simp add: case_prod_unfold owns_held)
  qed
qed

section \<open>The mode that relays\<close>

text \<open>What an endpoint holds: the descriptors of its process, or its one or two descriptors.\<close>

definition ep_fds :: "relay_endpoint \<Rightarrow> fd set" where
  "ep_fds ep = (if has_proc ep then set (process_fds (ep_proc ep)) else {f. 0 \<le> f \<and> (f = ep_fd1 ep \<or> f = ep_fd2 ep)})"

definition ep_pids :: "relay_endpoint \<Rightarrow> int multiset" where
  "ep_pids ep = (if has_proc ep then {#proc_pid (ep_proc ep)#} else {#})"

definition ep_ok :: "relay_endpoint \<Rightarrow> bool" where
  "ep_ok ep \<longleftrightarrow> (has_proc ep \<longrightarrow> started (ep_proc ep)) \<and> closable (ep_stream ep) \<subseteq> ep_fds ep"

text \<open>Opening adds to what was held exactly what the endpoint holds, with an error too.\<close>

definition ep_opened :: "fd set \<Rightarrow> int multiset \<Rightarrow> sys \<Rightarrow> relay_endpoint \<Rightarrow> sys \<Rightarrow> bool" where
  "ep_opened X C s0 ep s \<longleftrightarrow> ep_ok ep \<and> owns (X \<union> ep_fds ep) (C + ep_pids ep) s0 s"

lemma ep_init [simp]:
  "ep_fds (relay_endpoint_init\<lparr>ep_stream := st\<rparr>) = {}" "ep_pids (relay_endpoint_init\<lparr>ep_stream := st\<rparr>) = {#}"
  "ep_fds relay_endpoint_init = {}" "ep_pids relay_endpoint_init = {#}" "has_proc relay_endpoint_init = False"
  by (auto simp: ep_fds_def ep_pids_def relay_endpoint_init_def)

lemma closable_zero [simp]: "closable zero_stream = {}"
  by (simp add: closable_def zero_stream_def)

lemma ep_opened_init: "owns X C s0 s \<Longrightarrow> ep_opened X C s0 relay_endpoint_init s"
  by (simp add: ep_opened_def ep_ok_def) (simp add: relay_endpoint_init_def)

lemma endpoint_fd_opened:
  assumes "owns X C s0 s" and "makes_fd s fd s1"
    and "endpoint_fd ev message nm relay_endpoint_init (fd, s1) = (rc, ep, s')"
  shows "ep_opened X C s0 ep s'"
proof (cases "fd < 0")
  case True
  then have "owns X C s0 s1" using owns_make [OF assms(1,2)] by simp
  moreover from True assms(3) have "ep = relay_endpoint_init\<lparr>ep_fd1 := fd\<rparr>" "s' = wcat_log_errno ev message s1"
    by (auto simp: endpoint_fd_def)
  moreover from this True have "ep_fds ep = {}" "ep_pids ep = {#}" "ep_ok ep"
    by (auto simp: ep_fds_def ep_pids_def ep_ok_def relay_endpoint_init_def)
  ultimately show ?thesis by (auto simp: ep_opened_def intro: own)
next
  case False
  then have w: "owns (insert fd X) C s0 s1" using owns_make [OF assms(1,2)] by simp
  from False assms(3) have e: "ep = relay_endpoint_init\<lparr>ep_fd1 := fd, ep_stream := wcat_stream_from_fd fd nm\<rparr>" "s' = s1"
    by (auto simp: endpoint_fd_def Let_def)
  with False have "ep_fds ep = {fd}" "ep_pids ep = {#}" "ep_ok ep"
    by (auto simp: ep_fds_def ep_pids_def ep_ok_def relay_endpoint_init_def)
  with w e show ?thesis by (simp add: ep_opened_def)
qed

lemma endpoint_accept_opened:
  assumes "owns X C s0 s" and "makes_fd s l s1"
    and "endpoint_accept lm am nm relay_endpoint_init (l, s1) = (rc, ep, s')"
  shows "ep_opened X C s0 ep s'"
proof (cases "l < 0")
  case True
  then have "owns X C s0 s1" using owns_make [OF assms(1,2)] by simp
  moreover from True assms(3) have "ep = relay_endpoint_init\<lparr>ep_fd1 := l\<rparr>" "s' = wcat_log_errno ''relay_listen'' lm s1"
    by (auto simp: endpoint_accept_def)
  moreover from this True have "ep_fds ep = {}" "ep_pids ep = {#}" "ep_ok ep"
    by (auto simp: ep_fds_def ep_pids_def ep_ok_def relay_endpoint_init_def)
  ultimately show ?thesis by (auto simp: ep_opened_def intro: own)
next
  case pos: False
  then have w: "owns (insert l X) C s0 s1" using owns_make [OF assms(1,2)] by simp
  obtain a s2 where ac: "accept_when_ready l s1 = (a, s2)" by force
  note w2 = owns_accept_when_ready [OF ac w]
  show ?thesis
  proof (cases a)
    case None
    with pos assms(3) ac have e: "ep = relay_endpoint_init\<lparr>ep_fd1 := l, ep_fd2 := - 1\<rparr>" "s' = wcat_log_errno ''relay_accept'' am s2"
      by (auto simp: endpoint_accept_def Let_def)
    with pos have "ep_fds ep = {l}" "ep_pids ep = {#}" "ep_ok ep"
      by (auto simp: ep_fds_def ep_pids_def ep_ok_def relay_endpoint_init_def)
    moreover have "owns (insert l X) C s0 s2" using w2 None by simp
    ultimately show ?thesis unfolding e(2) ep_opened_def by (auto intro: own)
  next
    case (Some x)
    obtain c h p where x: "a = Some (c, h, p)" using Some by (cases x) auto
    with pos assms(3) ac have e: "ep = relay_endpoint_init\<lparr>ep_fd1 := c, ep_fd2 := - 1, ep_stream := wcat_stream_from_fd c nm\<rparr>"
      "s' = close_quiet l s2"
      by (auto simp: endpoint_accept_def Let_def)
    have c: "0 \<le> c" "c \<notin> set (open_fds s1)" using accept_when_ready_effect [OF ac [unfolded x]] by simp_all
    have ep: "ep_fds ep = {c}" "ep_pids ep = {#}" "ep_ok ep"
      using c(1) by (auto simp: e(1) ep_fds_def ep_pids_def ep_ok_def relay_endpoint_init_def)
    have "owns (insert c (insert l X)) C s0 s2" using w2 x by simp
    then have w3: "owns (insert l (insert c X)) C s0 s2" by (simp add: insert_commute)
    have "owns (insert c X) C s0 s'" unfolding e(2)
      by (rule owns_restore [OF owns_close [OF w3]]) (use w3 in simp)
    with ep show ?thesis by (simp add: ep_opened_def)
  qed
qed

lemma open_relay_endpoint_opened:
  assumes "owns X C s0 s" and "open_relay_endpoint cfg spec relay_endpoint_init s = (rc, ep, s')"
  shows "ep_opened X C s0 ep s'"
proof -
  let ?ep = relay_endpoint_init
  have err: "ep_opened X C s0 ?ep (wcat_log lv ev m s)" for lv ev m
    by (rule ep_opened_init [OF owns_log(1) [OF assms(1)]])
  have stdio: "ep_opened X C s0 (?ep\<lparr>ep_stream := wcat_stream_from_fd_pair 0 1 ''stdio''\<rparr>) s"
    using assms(1) by (simp add: ep_opened_def ep_ok_def)
      (simp add: relay_endpoint_init_def closable_def wcat_stream_from_fd_pair_def)
  note fd = endpoint_fd_opened [OF assms(1)] and acc = endpoint_accept_opened [OF assms(1)]
  note run = assms(2) [unfolded open_relay_endpoint_def]
  consider (stdio) "spec = ''-'' \<or> spec = ''stdio''"
    | (tcp) "\<not> (spec = ''-'' \<or> spec = ''stdio'')" "prefix ''tcp:'' spec"
    | (un) "\<not> (spec = ''-'' \<or> spec = ''stdio'')" "\<not> prefix ''tcp:'' spec" "prefix ''unix:'' spec"
    | (listen) "\<not> (spec = ''-'' \<or> spec = ''stdio'')" "\<not> prefix ''tcp:'' spec" "\<not> prefix ''unix:'' spec"
        "prefix ''listen:'' spec"
    | (unixl) "\<not> (spec = ''-'' \<or> spec = ''stdio'')" "\<not> prefix ''tcp:'' spec" "\<not> prefix ''unix:'' spec"
        "\<not> prefix ''listen:'' spec" "prefix ''unix-listen:'' spec"
    | (fil) "\<not> (spec = ''-'' \<or> spec = ''stdio'')" "\<not> prefix ''tcp:'' spec" "\<not> prefix ''unix:'' spec"
        "\<not> prefix ''listen:'' spec" "\<not> prefix ''unix-listen:'' spec" "prefix ''file:'' spec"
    | (exec) "\<not> (spec = ''-'' \<or> spec = ''stdio'')" "\<not> prefix ''tcp:'' spec" "\<not> prefix ''unix:'' spec"
        "\<not> prefix ''listen:'' spec" "\<not> prefix ''unix-listen:'' spec" "\<not> prefix ''file:'' spec"
        "prefix ''exec:'' spec \<or> prefix ''pty:'' spec"
    | (unknown) "\<not> (spec = ''-'' \<or> spec = ''stdio'')" "\<not> prefix ''tcp:'' spec" "\<not> prefix ''unix:'' spec"
        "\<not> prefix ''listen:'' spec" "\<not> prefix ''unix-listen:'' spec" "\<not> prefix ''file:'' spec"
        "\<not> (prefix ''exec:'' spec \<or> prefix ''pty:'' spec)" by blast
  then show ?thesis
  proof cases
    case stdio
    with run show ?thesis using \<open>ep_opened X C s0 (?ep\<lparr>ep_stream := _\<rparr>) s\<close> by auto
  next
    case tcp
    note run = run [unfolded if_not_P [OF tcp(1)] if_P [OF tcp(2)]]
    show ?thesis
    proof (cases "split_spec_host_port spec ''tcp:'' 256 32")
      case None
      with run err show ?thesis by auto
    next
      case (Some hp)
      obtain h p fd1 s1 where x: "hp = (h, p)"
        and c: "wcat_tcp_connect (Some h) (Some p) (family cfg) (timeout_ms cfg) s = (fd1, s1)" by (metis surj_pair)
      from fd [OF tcp_makes_fd [OF c]] run Some x c show ?thesis by simp
    qed
  next
    case un
    obtain fd1 s1 where c: "wcat_unix_connect (Some (drop 5 spec)) (timeout_ms cfg) s = (fd1, s1)" by force
    from run [unfolded if_not_P [OF un(1)] if_not_P [OF un(2)] if_P [OF un(3)] c]
    show ?thesis by (rule fd [OF new_socket_makes_fd [OF unix_connect.make_new [OF c]]])
  next
    case listen
    note run = run [unfolded if_not_P [OF listen(1)] if_not_P [OF listen(2)] if_not_P [OF listen(3)] if_P [OF listen(4)]]
    show ?thesis
    proof (cases "split_spec_host_port spec ''listen:'' 256 32")
      case None
      with run err show ?thesis by auto
    next
      case (Some hp)
      obtain h p l s1 where x: "hp = (h, p)"
        and c: "wcat_tcp_listen (Some h) (Some p) (family cfg) 16 s = (l, s1)" by (metis surj_pair)
      from acc [OF new_socket_makes_fd [OF tcp_listen.make_new [OF c]]] run Some x c show ?thesis by simp
    qed
  next
    case unixl
    obtain l s1 where c: "wcat_unix_listen (Some (drop 12 spec)) 16 s = (l, s1)" by force
    from run [unfolded if_not_P [OF unixl(1)] if_not_P [OF unixl(2)] if_not_P [OF unixl(3)] if_not_P [OF unixl(4)]
        if_P [OF unixl(5)] c]
    show ?thesis by (rule acc [OF new_socket_makes_fd [OF unix_listen.make_new [OF c]]])
  next
    case fil
    obtain fd1 s1 where c: "sys_open s = (fd1, s1)" by force
    from run [unfolded if_not_P [OF fil(1)] if_not_P [OF fil(2)] if_not_P [OF fil(3)] if_not_P [OF fil(4)]
        if_not_P [OF fil(5)] if_P [OF fil(6)] c]
    show ?thesis by (rule fd [OF sys_open_makes_fd [OF c]])
  next
    case exec
    obtain r proc s1 where sp: "wcat_process_spawn (hd spec = CHR ''p'') s = (r, proc, s1)" using prod_cases3 by blast
    note run = run [unfolded if_not_P [OF exec(1)] if_not_P [OF exec(2)] if_not_P [OF exec(3)] if_not_P [OF exec(4)]
        if_not_P [OF exec(5)] if_not_P [OF exec(6)] if_P [OF exec(7)] Let_def sp prod.case]
    from owns_spawn [OF assms(1) sp] show ?thesis
    proof
      assume f: "r = - 1 \<and> owns X C s0 s1"
      with run have e: "ep = ?ep\<lparr>ep_proc := proc\<rparr>" "\<exists>ev m. s' = wcat_log_errno ev m s1" by auto
      have "ep_fds ep = {}" "ep_pids ep = {#}" "ep_ok ep"
        by (auto simp: e(1) ep_fds_def ep_pids_def ep_ok_def relay_endpoint_init_def)
      with e(2) f show ?thesis by (auto simp: ep_opened_def intro: own)
    next
      assume ok: "r = 0 \<and> 0 < proc_pid proc \<and> owns (X \<union> set (process_fds proc)) (add_mset (proc_pid proc) C) s0 s1"
      then have st: "started proc" using sp by (auto intro: spawn_started)
      from ok run have e: "ep = ?ep\<lparr>ep_proc := proc, has_proc := True,
          ep_stream := wcat_stream_from_fd_pair (out_fd proc) (in_fd proc) ''process''\<rparr>" "s' = s1" by auto
      have "ep_fds ep = set (process_fds proc)" "ep_pids ep = {#proc_pid proc#}" "ep_ok ep"
        using st closable_process by (simp_all add: e(1) ep_fds_def ep_pids_def ep_ok_def)
      with ok e(2) show ?thesis by (simp add: ep_opened_def)
    qed
  next
    case unknown
    from run [unfolded if_not_P [OF unknown(1)] if_not_P [OF unknown(2)] if_not_P [OF unknown(3)] if_not_P [OF unknown(4)]
        if_not_P [OF unknown(5)] if_not_P [OF unknown(6)] if_not_P [OF unknown(7)]] err
    show ?thesis by auto
  qed
qed

text \<open>Closing gives back what the endpoint holds.\<close>

lemma endpoint_close_process_end: "has_proc ep \<Longrightarrow> relay_endpoint_close ep s = process_end (ep_proc ep) s"
  by (simp add: relay_endpoint_close_def process_end_def)

lemma owns_endpoint_close:
  assumes "ep_opened X C s0 ep s"
  shows "\<exists>D. unwaited (size (ep_pids ep)) C D \<and> owns X D s0 (relay_endpoint_close ep s)"
proof (cases "has_proc ep")
  case True
  with assms have "owns (X \<union> set (process_fds (ep_proc ep))) (add_mset (proc_pid (ep_proc ep)) C) s0 s" "started (ep_proc ep)"
    by (simp_all add: ep_opened_def ep_fds_def ep_pids_def ep_ok_def)
  from owns_process_end [OF this] True show ?thesis by (simp add: endpoint_close_process_end ep_pids_def)
next
  case False
  define a where "a = ep_fd1 ep"
  define b where "b = ep_fd2 ep"
  have w: "owns (X \<union> {f. 0 \<le> f \<and> (f = a \<or> f = b)}) C s0 s"
    using assms False by (simp add: ep_opened_def ep_fds_def ep_pids_def a_def b_def)
  have e: "relay_endpoint_close ep s =
      (if 0 \<le> b \<and> b \<noteq> a then close_quiet b (if 0 \<le> a then close_quiet a s else s) else if 0 \<le> a then close_quiet a s else s)"
    using False by (simp add: relay_endpoint_close_def a_def b_def Let_def)
  have one: "owns Y C s0 (close_quiet f u)" if "owns (insert f Y) C s0 u" for f Y u
    by (rule owns_restore [OF owns_close [OF that]]) (use that in simp)
  have "owns X C s0 (relay_endpoint_close ep s)"
  proof (cases "0 \<le> a")
    case nn: True
    have "owns (insert a (X \<union> {f. 0 \<le> f \<and> f = b})) C s0 s"
      by (rule back_subst [of "\<lambda>Y. owns Y C s0 s", OF w]) (use nn in auto)
    note 1 = one [OF this]
    show ?thesis
    proof (cases "0 \<le> b \<and> b \<noteq> a")
      case True
      then have "owns (insert b X) C s0 (close_quiet a s)"
        by (intro back_subst [of "\<lambda>Y. owns Y C s0 (close_quiet a s)", OF 1]) auto
      from one [OF this] True nn show ?thesis unfolding e by simp
    next
      case same: False
      have "owns X C s0 (close_quiet a s)"
      proof (cases "0 \<le> b")
        case True
        with same have "b = a" by simp
        with nn have "owns (insert a X) C s0 s" by (intro back_subst [of "\<lambda>Y. owns Y C s0 s", OF w]) auto
        from one [OF this] show ?thesis .
      next
        case False
        then have "X \<union> {f. 0 \<le> f \<and> f = b} = X" by auto
        with 1 show ?thesis by simp
      qed
      with same nn show ?thesis unfolding e by auto
    qed
  next
    case neg: False
    show ?thesis
    proof (cases "0 \<le> b")
      case True
      with neg have "owns (insert b X) C s0 s" by (intro back_subst [of "\<lambda>Y. owns Y C s0 s", OF w]) auto
      from one [OF this] True neg show ?thesis unfolding e by auto
    next
      case False
      with neg have "X \<union> {f. 0 \<le> f \<and> (f = a \<or> f = b)} = X" by auto
      with w False neg show ?thesis unfolding e by simp
    qed
  qed
  with False show ?thesis by (intro exI [of _ C]) (simp add: ep_pids_def)
qed

lemma ep_pids_size: "size (ep_pids ep) \<le> 1"
  by (simp add: ep_pids_def)

text \<open>Both endpoints, the left one opened and closed first.\<close>

lemma owns_both_close:
  assumes "ep_opened {} {#} s0 l s1" and "ep_opened (ep_fds l) (ep_pids l) s0 r s"
  shows "\<exists>D. size D \<le> 2 \<and> owns {} D s0 (relay_endpoint_close r (relay_endpoint_close l s))"
proof -
  have ok: "ep_ok l" "ep_ok r" using assms by (simp_all add: ep_opened_def)
  have "ep_opened (ep_fds r) (ep_pids r) s0 l s"
    using assms(2) ok by (simp add: ep_opened_def Un_commute union_commute)
  from owns_endpoint_close [OF this] obtain D
    where d: "unwaited (size (ep_pids l)) (ep_pids r) D" "owns (ep_fds r) D s0 (relay_endpoint_close l s)" by blast
  define C where "C = D - ep_pids r"
  have c: "D = C + ep_pids r" "size C \<le> size (ep_pids l)"
    using d(1) by (auto simp: C_def unwaited_def size_Diff_submset)
  have "ep_opened {} C s0 r (relay_endpoint_close l s)" using d(2) ok c(1) by (simp add: ep_opened_def)
  from owns_endpoint_close [OF this] obtain E
    where e: "unwaited (size (ep_pids r)) C E" "owns {} E s0 (relay_endpoint_close r (relay_endpoint_close l s))" by blast
  have "size E \<le> 2" using e(1) c(2) ep_pids_size [of l] ep_pids_size [of r] by (simp add: unwaited_def)
  with e(2) show ?thesis by blast
qed

lemma closable_eof [simp]: "closable (st\<lparr>close_on_eof := b\<rparr>) = closable st"
  by (simp add: closable_def)

lemma run_relay_owns: "\<exists>D. size D \<le> 2 \<and> owns {} D s (snd (run_relay cfg s))"
proof -
  obtain rc1 l s1 where 1: "open_relay_endpoint cfg (the (left cfg)) relay_endpoint_init s = (rc1, l, s1)" using prod_cases3 by blast
  note o1 = open_relay_endpoint_opened [OF owns_refl 1]
  then have w1: "owns (ep_fds l) (ep_pids l) s s1" by (simp add: ep_opened_def)
  obtain rc r s2 where 2: "(if rc1 = 0 then open_relay_endpoint cfg (the (right cfg)) relay_endpoint_init s1
      else (rc1, relay_endpoint_init, s1)) = (rc, r, s2)" using prod_cases3 by blast
  have o2: "ep_opened (ep_fds l) (ep_pids l) s r s2"
    using 2 open_relay_endpoint_opened [OF w1] ep_opened_init [OF w1] by (auto split: if_splits)
  note run = run_relay_def [of cfg s, unfolded 1 prod.case Let_def 2]
  show ?thesis
  proof (cases "rc = 0")
    case False
    with run owns_both_close [OF o1 o2] show ?thesis by simp
  next
    case True
    define rs where "rs = (if has_proc l \<and> \<not> has_proc r then (ep_stream r)\<lparr>close_on_eof := False\<rparr> else ep_stream r)"
    define ls where "ls = (if has_proc r \<and> \<not> has_proc l then (ep_stream l)\<lparr>close_on_eof := False\<rparr> else ep_stream l)"
    obtain n x s3 where b: "wcat_relay_bidirectional ls rs (relay_options cfg) s2 = (n, x, s3)" using prod_cases3 by blast
    have k: "closable ls \<union> closable rs \<subseteq> ep_fds l \<union> ep_fds r"
      using o1 o2 by (auto simp: ls_def rs_def ep_opened_def ep_ok_def)
    have "owns (ep_fds l \<union> ep_fds r) (ep_pids l + ep_pids r) s s3"
      using owns_relay [OF _ b k] o2 by (simp add: ep_opened_def)
    then have "ep_opened (ep_fds l) (ep_pids l) s r s3" using o2 by (simp add: ep_opened_def)
    from owns_both_close [OF o1 this] show ?thesis
      using run True b by (simp add: ls_def [symmetric] rs_def [symmetric])
  qed
qed

end
