(* ===== verification/Wcat_Console.thy ===== *)
theory Wcat_Console
  imports Wcat_Main
begin

text \<open>
  src/main.c, the session table and the commands of \<open>listen --multi\<close>: the 256 slots, the lookup
  by number, the reports on standard error, the colon commands and the lines that go to the
  active session. \<open>m\<close> is \<open>max_sessions\<close>, the number of slots in use.
\<close>

section \<open>The session table\<close>

definition WCAT_MULTI_LIMIT :: nat where "WCAT_MULTI_LIMIT = 256"
definition WCAT_MULTI_INPUT :: nat where "WCAT_MULTI_INPUT = 8192"

type_synonym u64 = "64 word"

record multi_session =
  ms_fd :: fd
  ms_id :: u32
  ms_name :: string
  ms_host :: string
  ms_port :: string
  ms_rx :: u64
  ms_tx :: u64
  ms_line_start :: bool

definition multi_session_init :: multi_session where
  "multi_session_init = \<lparr>ms_fd = - 1, ms_id = 0, ms_name = [], ms_host = [], ms_port = [], ms_rx = 0, ms_tx = 0,
     ms_line_start = True\<rparr>"

definition multi_session_close :: "multi_session list \<Rightarrow> nat \<Rightarrow> sys \<Rightarrow> multi_session list \<times> sys" where
  "multi_session_close ss k s =
     (let (r, s1) = wcat_close_quiet (ms_fd (ss ! k)) s
      in (ss[k := \<lparr>ms_fd = r, ms_id = 0, ms_name = [], ms_host = [], ms_port = [], ms_rx = 0, ms_tx = 0,
                   ms_line_start = True\<rparr>], s1))"

definition live :: "multi_session list \<Rightarrow> nat \<Rightarrow> bool" where
  "live ss k = (ms_fd (ss ! k) \<ge> 0)"

definition multi_find_by_id :: "multi_session list \<Rightarrow> nat \<Rightarrow> u32 \<Rightarrow> nat option" where
  "multi_find_by_id ss m i = find (\<lambda>k. live ss k \<and> ms_id (ss ! k) = i) [0..<m]"

text \<open>The number of the first live session of some slots, 0 with none.\<close>

definition first_id :: "multi_session list \<Rightarrow> nat list \<Rightarrow> u32" where
  "first_id ss ks = (case find (live ss) ks of None \<Rightarrow> 0 | Some k \<Rightarrow> ms_id (ss ! k))"

definition multi_first_session_id :: "multi_session list \<Rightarrow> nat \<Rightarrow> u32" where
  "multi_first_session_id ss m = first_id ss [0..<m]"

definition multi_next_session_id :: "multi_session list \<Rightarrow> nat \<Rightarrow> u32 \<Rightarrow> u32" where
  "multi_next_session_id ss m a =
     (case multi_find_by_id ss m a of
        None \<Rightarrow> multi_first_session_id ss m
      | Some k \<Rightarrow>
          (case find (live ss) [k + 1..<m] of
             Some j \<Rightarrow> ms_id (ss ! j)
           | None \<Rightarrow> multi_first_session_id ss m))"

definition multi_prev_session_id :: "multi_session list \<Rightarrow> nat \<Rightarrow> u32 \<Rightarrow> u32" where
  "multi_prev_session_id ss m a =
     (case multi_find_by_id ss m a of
        None \<Rightarrow> multi_first_session_id ss m
      | Some k \<Rightarrow>
          (case find (live ss) (rev [0..<k]) of
             Some j \<Rightarrow> ms_id (ss ! j)
           | None \<Rightarrow> first_id ss (rev [0..<m])))"

definition multi_session_label :: "multi_session \<Rightarrow> string" where
  "multi_session_label x = (if ms_name x \<noteq> [] then ms_name x else ''peer'')"

section \<open>Reading a command\<close>

definition is_space_tab :: "char \<Rightarrow> bool" where
  "is_space_tab c = (c = CHR '' '' \<or> c = CHR 0x09)"

definition multi_skip_space :: "string \<Rightarrow> string" where
  "multi_skip_space t = dropWhile is_space_tab t"

definition is_line_end :: "char \<Rightarrow> bool" where
  "is_line_end c = (c = CHR 0x0A \<or> c = CHR 0x0D)"

definition multi_line_trim_len :: "bytes \<Rightarrow> nat" where
  "multi_line_trim_len line = length (dropWhile is_line_end (rev line))"

text \<open>The number and the text after it.\<close>

definition multi_parse_id_arg :: "string \<Rightarrow> (u32 \<times> string) option" where
  "multi_parse_id_arg arg =
     (let t = multi_skip_space arg
      in if t = [] \<or> \<not> isdigit (hd t) then None
         else let (v, rest, _) = strtoul t
              in if v = 0 \<or> v > UINT_MAX then None else Some (word_of_int v, multi_skip_space rest))"

section \<open>Reports\<close>

text \<open>
  \<open>dprintf\<close> on standard error. \<open>layout\<close> fills the places of a format, each written as \<open>%\<close> and
  one letter, with texts that have been converted already.
\<close>

definition eprint :: "string \<Rightarrow> sys \<Rightarrow> sys" where
  "eprint t s = s\<lparr>stderr_out := stderr_out s @ t\<rparr>"

definition sgr :: "bool \<Rightarrow> string \<Rightarrow> string" where
  "sgr color c = (if color then CHR 0x1B # ''['' @ c @ ''m'' else [])"

fun layout :: "string \<Rightarrow> string list \<Rightarrow> string" where
  "layout (c # d # t) (a # as) = (if c = CHR ''%'' then a @ layout t as else c # layout (d # t) (a # as))"
| "layout t as = t"

definition pad_right :: "nat \<Rightarrow> string \<Rightarrow> string" where
  "pad_right n t = t @ replicate (n - length t) (CHR '' '')"

definition nl :: string where "nl = [CHR 0x0A]"

definition u32_text :: "u32 \<Rightarrow> string" where
  "u32_text w = dec_string (unat w)"

definition u64_text :: "u64 \<Rightarrow> string" where
  "u64_text w = dec_string (unat w)"

definition dots :: string where
  "dots = ''%s................................................%s'' @ nl"

definition multi_print_prompt :: "u32 \<Rightarrow> sys \<Rightarrow> sys" where
  "multi_print_prompt active_id s =
     (let color = tty s 2; reset = sgr color ''0''; bold = sgr color ''1''; cyan = sgr color ''36'';
          yellow = sgr color ''33''; dim = sgr color ''2''
      in if active_id = 0
         then eprint (layout ''%s%swcat%s[%sstandby%s]> %s'' [bold, cyan, reset, dim, reset, reset]) s
         else eprint (layout ''%s%swcat%s[%s*%u%s]> %s'' [bold, cyan, reset, yellow, u32_text active_id, reset, reset]) s)"

definition multi_print_help :: "sys \<Rightarrow> sys" where
  "multi_print_help s =
     (let color = tty s 2; reset = sgr color ''0''; bold = sgr color ''1''; cyan = sgr color ''36'';
          green = sgr color ''32''; yellow = sgr color ''33''; dim = sgr color ''2''
      in eprint (layout
           (nl @ dots
            @ ''%s%scontrol plane%s  %sstdin targets the active peer%s'' @ nl
            @ ''  %s.%s %speer%s      %s:sessions%s/:s  %s:use N%s/:u  %s:next%s/:n  %s:prev%s/:p'' @ nl
            @ ''  %s.%s %sdetail%s    %s:info N%s/:i   %s:rename N NAME%s'' @ nl
            @ ''  %s.%s %saction%s    %s:attach [N]%s/:at  %s:send N CMD%s  %s:all CMD%s/:a  %s:kill N%s/:k'' @ nl
            @ ''  %s.%s %ssystem%s    %s:clear%s/:c    %s:help%s      %s:quit%s/:q  %sCtrl-]%s/%sback%s/%s:back%s/%s:detach%s'' @ nl
            @ dots @ nl)
           [dim, reset,
            bold, cyan, reset, dim, reset,
            green, reset, dim, reset, green, reset, green, reset, green, reset, green, reset,
            green, reset, dim, reset, green, reset, green, reset,
            yellow, reset, dim, reset, yellow, reset, yellow, reset, yellow, reset, yellow, reset,
            cyan, reset, dim, reset, green, reset, green, reset, yellow, reset,
            yellow, reset, yellow, reset, yellow, reset, yellow, reset,
            dim, reset]) s)"

text \<open>The line of one session in the list.\<close>

definition session_line :: "bool \<Rightarrow> u32 \<Rightarrow> multi_session \<Rightarrow> string" where
  "session_line color active_id x =
     (let reset = sgr color ''0''; bold = sgr color ''1''; green = sgr color ''32''; yellow = sgr color ''33'';
          dim = sgr color ''2''; act = (ms_id x = active_id); hue = (if act then yellow else green)
      in layout (nl @ ''  %s.%s %s%c%u%s %s%s%s %s%s%s %s%s:%s%s'')
           [hue, reset, hue, (if act then ''*'' else ''#''), pad_right 3 (u32_text (ms_id x)), reset,
            hue, pad_right 6 (if act then ''active'' else ''ready''), reset,
            (if act then bold else dim), multi_session_label x, reset,
            dim, ms_host x, ms_port x, reset])"

definition multi_print_sessions :: "multi_session list \<Rightarrow> nat \<Rightarrow> u32 \<Rightarrow> sys \<Rightarrow> sys" where
  "multi_print_sessions ss m active_id s =
     (let color = tty s 2; reset = sgr color ''0''; bold = sgr color ''1''; cyan = sgr color ''36''; dim = sgr color ''2'';
          ks = filter (live ss) [0..<m]; count = length ks;
          s1 = eprint (layout (nl @ dots @ ''%s%speers%s %s%d/%d%s'')
                 [dim, reset, bold, cyan, reset, dim, dec_string count, dec_string m, reset]) s
      in if count = 0
         then eprint (layout (nl @ ''  %s.%s %sidle%s'' @ nl @ dots @ nl) [dim, reset, dim, reset, dim, reset]) s1
         else eprint (layout (nl @ dots) [dim, reset])
                (fold (\<lambda>k. eprint (session_line color active_id (ss ! k))) ks s1))"

text \<open>The two short reports of the commands.\<close>

definition report_error :: "string \<Rightarrow> sys \<Rightarrow> sys" where
  "report_error t s = eprint (layout ''%serror%s '' [sgr (tty s 2) ''31'', sgr (tty s 2) ''0''] @ t @ nl) s"

definition report_session :: "string \<Rightarrow> string \<Rightarrow> u32 \<Rightarrow> sys \<Rightarrow> sys" where
  "report_session word hue i s =
     eprint (sgr (tty s 2) hue @ word @ sgr (tty s 2) ''0'' @ '' session '' @ u32_text i) s"

definition report_active :: "u32 \<Rightarrow> sys \<Rightarrow> sys" where
  "report_active i s = eprint nl (report_session ''active'' ''32'' i s)"

section \<open>Sending\<close>

definition multi_send_line :: "multi_session \<Rightarrow> bytes \<Rightarrow> sys \<Rightarrow> int \<times> multi_session \<times> sys" where
  "multi_send_line x line s =
     (if ms_fd x < 0 then (- 1, x, s)
      else let (n, s1) = wcat_full_write (ms_fd x) line s
           in if n \<noteq> int (length line) then (- 1, x, s1)
              else (0, x\<lparr>ms_tx := ms_tx x + of_nat (length line)\<rparr>, s1))"

definition send_to :: "nat \<Rightarrow> bytes \<Rightarrow> multi_session list \<Rightarrow> sys \<Rightarrow> int \<times> multi_session list \<times> sys" where
  "send_to k line ss s = (let (rc, x, s1) = multi_send_line (ss ! k) line s in (rc, ss[k := x], s1))"

definition broadcast_to :: "bytes \<Rightarrow> nat \<Rightarrow> multi_session list \<times> sys \<Rightarrow> multi_session list \<times> sys" where
  "broadcast_to line k st =
     (let (ss, s) = st
      in if \<not> live ss k then st
         else let (rc, ss1, s1) = send_to k line ss s
              in if rc < 0
                 then multi_session_close ss1 k
                        (wcat_log WCAT_LOG_WARN ''multi_drop'' (''dropping failed session '' @ u32_text (ms_id (ss1 ! k))) s1)
                 else (ss1, s1))"

definition multi_broadcast :: "nat \<Rightarrow> bytes \<Rightarrow> multi_session list \<Rightarrow> sys \<Rightarrow> multi_session list \<times> sys" where
  "multi_broadcast m line ss s = fold (broadcast_to line) [0..<m] (ss, s)"

section \<open>Commands\<close>

record console =
  sessions :: "multi_session list"
  active :: u32
  attached :: u32

definition prompt :: "console \<times> sys \<Rightarrow> console \<times> sys" where
  "prompt r = (fst r, multi_print_prompt (active (fst r)) (snd r))"

definition multi_set_active_session :: "nat \<Rightarrow> u32 \<Rightarrow> console \<Rightarrow> sys \<Rightarrow> console \<times> sys" where
  "multi_set_active_session m i c s =
     prompt (if i \<noteq> 0 \<and> multi_find_by_id (sessions c) m i \<noteq> None then (c\<lparr>active := i\<rparr>, report_active i s)
             else (c, report_error ''no sessions'' s))"

definition multi_print_info :: "multi_session list \<Rightarrow> nat \<Rightarrow> u32 \<Rightarrow> u32 \<Rightarrow> sys \<Rightarrow> sys" where
  "multi_print_info ss m active_id i s =
     (let color = tty s 2; reset = sgr color ''0''; bold = sgr color ''1''; cyan = sgr color ''36'';
          green = sgr color ''32''; yellow = sgr color ''33''; dim = sgr color ''2''
      in case multi_find_by_id ss m i of
           None \<Rightarrow> report_error ''no such session'' s
         | Some k \<Rightarrow>
             (let x = ss ! k; act = (active_id = i); hue = (if act then yellow else green)
              in eprint (layout
                   (nl @ dots @ ''%s%ssession%s %s%u%s  %s%s%s'' @ nl @ ''  %s.%s %sstate%s    %s%s%s'' @ nl
                    @ ''  %s.%s %speer%s     %s:%s'' @ nl @ ''  %s.%s %straffic%s  rx=%u tx=%u'' @ nl @ dots @ nl)
                   [dim, reset, bold, cyan, reset, yellow, u32_text (ms_id x), reset,
                    bold, multi_session_label x, reset,
                    hue, reset, dim, reset, hue, (if act then ''active'' else ''ready''), reset,
                    green, reset, dim, reset, ms_host x, ms_port x,
                    cyan, reset, dim, reset, u64_text (ms_rx x), u64_text (ms_tx x),
                    dim, reset]) s))"

text \<open>The session a text names, with the text after the number.\<close>

definition named_session :: "nat \<Rightarrow> string \<Rightarrow> console \<Rightarrow> (nat \<times> u32 \<times> string) option" where
  "named_session m arg c =
     (case multi_parse_id_arg arg of
        None \<Rightarrow> None
      | Some (i, rest) \<Rightarrow> map_option (\<lambda>k. (k, i, rest)) (multi_find_by_id (sessions c) m i))"

definition cmd_use :: "nat \<Rightarrow> string \<Rightarrow> console \<Rightarrow> sys \<Rightarrow> console \<times> sys" where
  "cmd_use m arg c s =
     prompt (case named_session m arg c of
               Some (k, i, _) \<Rightarrow> (c\<lparr>active := i\<rparr>, report_active i s)
             | None \<Rightarrow> (c, report_error ''no such session'' s))"

text \<open>Without an argument (\<open>None\<close>) the active session is attached.\<close>

definition cmd_attach :: "nat \<Rightarrow> string option \<Rightarrow> console \<Rightarrow> sys \<Rightarrow> console \<times> sys" where
  "cmd_attach m arg c s =
     (let i = (case arg of None \<Rightarrow> active c
               | Some t \<Rightarrow> (case multi_parse_id_arg t of None \<Rightarrow> 0 | Some (j, _) \<Rightarrow> j))
      in if i \<noteq> 0 \<and> multi_find_by_id (sessions c) m i \<noteq> None
         then (c\<lparr>active := i, attached := i\<rparr>,
               eprint (''; press Ctrl-] to detach'' @ nl) (report_session ''attached'' ''32'' i s))
         else prompt (c, report_error ''no such session'' s))"

definition cmd_info :: "nat \<Rightarrow> string option \<Rightarrow> console \<Rightarrow> sys \<Rightarrow> console \<times> sys" where
  "cmd_info m arg c s =
     (let i = (case arg of None \<Rightarrow> active c
               | Some t \<Rightarrow> (case multi_parse_id_arg t of None \<Rightarrow> 0 | Some (j, _) \<Rightarrow> j))
      in prompt (c, if i \<noteq> 0 then multi_print_info (sessions c) m (active c) i s
                    else report_error ''invalid session id'' s))"

definition cmd_rename :: "nat \<Rightarrow> string \<Rightarrow> console \<Rightarrow> sys \<Rightarrow> console \<times> sys" where
  "cmd_rename m arg c s =
     prompt (case named_session m arg c of
               Some (k, i, nm) \<Rightarrow>
                 if nm \<noteq> []
                 then (c\<lparr>sessions := (sessions c)[k := (sessions c ! k)\<lparr>ms_name := snprintf_trunc 32 nm\<rparr>]\<rparr>,
                       eprint nl (report_session ''renamed'' ''32'' i s))
                 else (c, report_error ''invalid rename target'' s)
             | None \<Rightarrow> (c, report_error ''invalid rename target'' s))"

text \<open>A closed session; when it was the active one the first live session becomes active.\<close>

definition close_session :: "nat \<Rightarrow> nat \<Rightarrow> u32 \<Rightarrow> console \<Rightarrow> sys \<Rightarrow> console \<times> sys" where
  "close_session m k i c s =
     (let (ss, s1) = multi_session_close (sessions c) k s
      in (c\<lparr>sessions := ss, active := (if active c = i then multi_first_session_id ss m else active c)\<rparr>, s1))"

definition cmd_kill :: "nat \<Rightarrow> string \<Rightarrow> console \<Rightarrow> sys \<Rightarrow> console \<times> sys" where
  "cmd_kill m arg c s =
     prompt (case named_session m arg c of
               Some (k, i, _) \<Rightarrow>
                 (let x = sessions c ! k; (c1, s1) = close_session m k i c s;
                      s2 = eprint ('' '' @ sgr (tty s 2) ''32'' @ ms_host x @ '':'' @ ms_port x @ sgr (tty s 2) ''0'' @ nl)
                             (report_session ''killed'' ''33'' i s1)
                  in (c1, if active c1 \<noteq> 0 then report_active (active c1) s2 else s2))
             | None \<Rightarrow> (c, report_error ''no such session'' s))"

definition cmd_send :: "nat \<Rightarrow> string \<Rightarrow> console \<Rightarrow> sys \<Rightarrow> console \<times> sys" where
  "cmd_send m arg c s =
     prompt (case named_session m arg c of
               Some (k, i, payload) \<Rightarrow>
                 if payload \<noteq> []
                 then let (r1, ss1, s1) = send_to k payload (sessions c) s;
                          (r2, ss2, s2) = (if r1 < 0 then (r1, ss1, s1) else send_to k nl ss1 s1)
                      in if r2 < 0 then close_session m k i (c\<lparr>sessions := ss2\<rparr>) (report_error ''send failed'' s2)
                         else (c\<lparr>sessions := ss2\<rparr>, s2)
                 else (c, report_error ''invalid send target'' s)
             | None \<Rightarrow> (c, report_error ''invalid send target'' s))"

definition cmd_all :: "nat \<Rightarrow> bytes \<Rightarrow> console \<Rightarrow> sys \<Rightarrow> console \<times> sys" where
  "cmd_all m payload c s =
     (let (ss, s1) = multi_broadcast m payload (sessions c) s in prompt (c\<lparr>sessions := ss\<rparr>, s1))"

text \<open>A line that is no command goes to the active session.\<close>

definition plain_line :: "nat \<Rightarrow> bytes \<Rightarrow> console \<Rightarrow> sys \<Rightarrow> console \<times> sys" where
  "plain_line m line c s =
     (if active c = 0 then prompt (c, report_error ''no active session'' s)
      else case multi_find_by_id (sessions c) m (active c) of
             None \<Rightarrow> prompt (c\<lparr>active := multi_first_session_id (sessions c) m\<rparr>,
                            report_error ''active session unavailable'' s)
           | Some k \<Rightarrow>
               (let (rc, ss1, s1) = send_to k line (sessions c) s
                in if rc < 0
                   then let (ss2, s2) = multi_session_close ss1 k (report_error ''active session unavailable'' s1)
                        in prompt (c\<lparr>sessions := ss2, active := multi_first_session_id ss2 m\<rparr>, s2)
                   else (c\<lparr>sessions := ss1\<rparr>, s1)))"

definition colon_command :: "nat \<Rightarrow> bytes \<Rightarrow> console \<Rightarrow> sys \<Rightarrow> console \<times> sys" where
  "colon_command m line c s =
     (let cmd = c_string (take (multi_line_trim_len line) line)
      in if cmd = '':help'' then prompt (c, multi_print_help s)
         else if cmd = '':sessions'' \<or> cmd = '':s'' then prompt (c, multi_print_sessions (sessions c) m (active c) s)
         else if cmd = '':quit'' \<or> cmd = '':q'' then (c, s\<lparr>wcat_stop := True\<rparr>)
         else if cmd = '':detach'' then prompt (c\<lparr>attached := 0\<rparr>, s)
         else if cmd = '':next'' \<or> cmd = '':n''
         then multi_set_active_session m (multi_next_session_id (sessions c) m (active c)) c s
         else if cmd = '':prev'' \<or> cmd = '':p''
         then multi_set_active_session m (multi_prev_session_id (sessions c) m (active c)) c s
         else if cmd = '':clear'' \<or> cmd = '':c''
         then prompt (c, eprint ([CHR 0x1B] @ ''[2J'' @ [CHR 0x1B] @ ''[H'') s)
         else if prefix '':u '' cmd then cmd_use m (drop 3 cmd) c s
         else if prefix '':use '' cmd then cmd_use m (drop 5 cmd) c s
         else if cmd = '':attach'' then cmd_attach m None c s
         else if prefix '':attach '' cmd then cmd_attach m (Some (drop 8 cmd)) c s
         else if prefix '':at '' cmd then cmd_attach m (Some (drop 4 cmd)) c s
         else if cmd = '':info'' \<or> cmd = '':i'' then cmd_info m None c s
         else if prefix '':i '' cmd then cmd_info m (Some (drop 3 cmd)) c s
         else if prefix '':info '' cmd then cmd_info m (Some (drop 6 cmd)) c s
         else if prefix '':rename '' cmd then cmd_rename m (drop 8 cmd) c s
         else if prefix '':k '' cmd then cmd_kill m (drop 3 cmd) c s
         else if prefix '':kill '' cmd then cmd_kill m (drop 6 cmd) c s
         else if prefix '':send '' cmd then cmd_send m (drop 6 cmd) c s
         else if prefix '':a '' cmd then cmd_all m (drop 3 line) c s
         else if prefix '':all '' cmd then cmd_all m (drop 5 line) c s
         else prompt (c, multi_print_help (report_error ''unknown multi command'' s)))"

definition multi_handle_input_line :: "nat \<Rightarrow> bytes \<Rightarrow> console \<Rightarrow> sys \<Rightarrow> console \<times> sys" where
  "multi_handle_input_line m line c s =
     (if line \<noteq> [] \<and> hd line = CHR '':'' then colon_command m line c s else plain_line m line c s)"

section \<open>Commands do not wait\<close>

text \<open>None of this calls \<open>poll\<close>, which is why every pass of the loop uses up one answer of it.\<close>

named_theorems same_poll \<open>calls that leave the answers of poll\<close>

lemma same_poll_report [same_poll]:
  "poll_q (eprint t s) = poll_q s" "poll_q (multi_print_prompt i s) = poll_q s" "poll_q (multi_print_help s) = poll_q s"
  "poll_q (report_error t s) = poll_q s" "poll_q (report_session w h i s) = poll_q s" "poll_q (report_active i s) = poll_q s"
  by (simp_all add: eprint_def multi_print_prompt_def multi_print_help_def report_error_def report_session_def
      report_active_def Let_def)

lemma same_poll_full_write [same_poll]: "poll_q (snd (wcat_full_write fd b s)) = poll_q s"
  by (metis prod.collapse write_effect_def wcat_full_write_effect)

lemma same_poll_fold: "(\<And>k u. poll_q (snd (f k u)) = poll_q (snd u)) \<Longrightarrow> poll_q (snd (fold f ks u)) = poll_q (snd u)"
  by (induction ks arbitrary: u) simp_all

lemma same_poll_sessions [same_poll]: "poll_q (multi_print_sessions ss m i s) = poll_q s"
proof -
  have "poll_q (fold (\<lambda>k. eprint (f k)) ks u) = poll_q u" for f and ks :: "nat list" and u
    by (induction ks arbitrary: u) (simp_all add: same_poll)
  then show ?thesis by (simp add: multi_print_sessions_def Let_def same_poll)
qed

lemma same_poll_tools [same_poll]:
  "poll_q (snd (multi_session_close ss k s)) = poll_q s" "poll_q (snd (snd (multi_send_line x b s))) = poll_q s"
  "poll_q (snd (snd (send_to k b ss s))) = poll_q s" "poll_q (snd (prompt r)) = poll_q (snd r)"
  "poll_q (multi_print_info ss m a i s) = poll_q s" "poll_q (snd (close_session m k i c s)) = poll_q s"
  by (simp_all add: multi_session_close_def multi_send_line_def send_to_def prompt_def multi_print_info_def close_session_def
      case_prod_unfold Let_def same_poll split: option.splits)

lemma same_poll_broadcast [same_poll]: "poll_q (snd (multi_broadcast m b ss s)) = poll_q s"
proof -
  have "poll_q (snd (broadcast_to b k u)) = poll_q (snd u)" for k u
    by (simp add: broadcast_to_def case_prod_unfold Let_def same_poll)
  then show ?thesis by (simp add: multi_broadcast_def same_poll_fold)
qed

lemma same_poll_commands [same_poll]:
  "poll_q (snd (multi_set_active_session m i c s)) = poll_q s" "poll_q (snd (cmd_use m a c s)) = poll_q s"
  "poll_q (snd (cmd_attach m arg c s)) = poll_q s" "poll_q (snd (cmd_info m arg c s)) = poll_q s"
  "poll_q (snd (cmd_rename m a c s)) = poll_q s" "poll_q (snd (cmd_kill m a c s)) = poll_q s"
  "poll_q (snd (cmd_send m a c s)) = poll_q s" "poll_q (snd (cmd_all m b c s)) = poll_q s"
  "poll_q (snd (plain_line m b c s)) = poll_q s"
  by (simp_all add: multi_set_active_session_def cmd_use_def cmd_attach_def cmd_info_def cmd_rename_def cmd_kill_def
      cmd_send_def cmd_all_def plain_line_def case_prod_unfold Let_def same_poll split: option.splits)

lemma same_poll_line [same_poll]: "poll_q (snd (multi_handle_input_line m line c s)) = poll_q s"
  by (simp add: multi_handle_input_line_def colon_command_def Let_def same_poll)

end
