(* ===== verification/Wcat_Editor.thy ===== *)
theory Wcat_Editor
  imports Wcat_Console
begin

text \<open>
  src/main.c, the input of \<open>listen --multi\<close>: complete lines when standard input is no terminal,
  and the line editor with cursor, history and escape sequences when it is one.
\<close>

section \<open>Complete lines\<close>

text \<open>
  The lines of the input buffer, each handled with its newline; a full buffer without a newline
  is handled as it is. What stays in the buffer is the beginning of the next line.
\<close>

fun input_lines :: "nat \<Rightarrow> bytes \<Rightarrow> bytes \<Rightarrow> console \<Rightarrow> sys \<Rightarrow> bytes \<times> console \<times> sys" where
  "input_lines m line [] c s =
     (if length line = WCAT_MULTI_INPUT
      then let (c1, s1) = multi_handle_input_line m line c s in ([], c1, s1)
      else (line, c, s))"
| "input_lines m line (x # xs) c s =
     (if x = CHR 0x0A
      then let (c1, s1) = multi_handle_input_line m (line @ [x]) c s in input_lines m [] xs c1 s1
      else input_lines m (line @ [x]) xs c s)"

definition multi_handle_stdin :: "nat \<Rightarrow> bytes \<Rightarrow> console \<Rightarrow> sys \<Rightarrow> bytes \<times> console \<times> sys" where
  "multi_handle_stdin m input c s =
     (case read_retry 0 (WCAT_MULTI_INPUT - length input) s of
        (None, s1) \<Rightarrow> (input, c, s1)
      | (Some b, s1) \<Rightarrow> if b = [] then (input, c, s1) else input_lines m [] (input @ b) c s1)"

section \<open>The line editor\<close>

text \<open>
  The text being typed, the cursor in it, the state of an escape sequence (1 after ESC, 2 after
  \<open>ESC [\<close>, 3 after \<open>ESC O\<close>, 100 plus a digit after \<open>ESC [ digit\<close>, 99 in a longer one), the
  lines typed before and the one shown, -1 for none.
\<close>

definition WCAT_MULTI_HISTORY :: nat where "WCAT_MULTI_HISTORY = 64"

record editor =
  ed_input :: bytes
  ed_cursor :: nat
  esc_state :: nat
  ed_history :: "bytes list"
  history_pos :: int

definition new_editor :: editor where
  "new_editor = \<lparr>ed_input = [], ed_cursor = 0, esc_state = 0, ed_history = [], history_pos = - 1\<rparr>"

text \<open>A \<open>write\<close> on standard error: what it takes appears after the text printed so far.\<close>

definition stderr_write :: "bytes \<Rightarrow> sys \<Rightarrow> sys" where
  "stderr_write b s =
     (let (n, s1) = wcat_full_write 2 b s in eprint (drop (length (sent s 2)) (sent s1 2)) s1)"

definition esc :: "string \<Rightarrow> string" where
  "esc t = CHR 0x1B # CHR ''['' # t"

definition multi_redraw_input :: "u32 \<Rightarrow> bytes \<Rightarrow> nat \<Rightarrow> sys \<Rightarrow> sys" where
  "multi_redraw_input active_id inp cursor s =
     (let s1 = multi_print_prompt active_id (eprint (CHR 0x0D # esc ''2K'') s);
          s2 = (if length inp > 0 then stderr_write inp s1 else s1)
      in if cursor < length inp then eprint (esc (dec_string (length inp - cursor) @ ''D'')) s2 else s2)"

definition redraw :: "u32 \<Rightarrow> editor \<Rightarrow> sys \<Rightarrow> sys" where
  "redraw active_id e s = multi_redraw_input active_id (ed_input e) (ed_cursor e) s"

definition multi_history_save :: "bytes list \<Rightarrow> bytes \<Rightarrow> bytes list" where
  "multi_history_save h line =
     (let len0 = multi_line_trim_len line;
          len = (if len0 \<ge> WCAT_MULTI_INPUT then WCAT_MULTI_INPUT - 1 else len0)
      in if len0 = 0 then h
         else if h \<noteq> [] \<and> length (c_string (last h)) = len \<and> take len (last h) = take len line then h
         else (if length h = WCAT_MULTI_HISTORY then tl h else h) @ [take len line])"

text \<open>The line of the history that is shown, and up or down in the history.\<close>

definition show_history :: "editor \<Rightarrow> editor" where
  "show_history e =
     (let line = c_string (ed_history e ! nat (history_pos e))
      in e\<lparr>ed_input := line, ed_cursor := length line\<rparr>)"

definition multi_history_load :: "u32 \<Rightarrow> bool \<Rightarrow> editor \<Rightarrow> sys \<Rightarrow> editor \<times> sys" where
  "multi_history_load active_id up e s =
     (let n = int (length (ed_history e)); p = history_pos e
      in if n = 0 then (e, s)
         else if up
         then let e1 = show_history (e\<lparr>history_pos := (if p < 0 then n - 1 else if p > 0 then p - 1 else p)\<rparr>)
              in (e1, redraw active_id e1 s)
         else if p < 0 then (e, s)
         else let e1 = (if p + 1 < n then show_history (e\<lparr>history_pos := p + 1\<rparr>)
                        else e\<lparr>history_pos := - 1, ed_input := [], ed_cursor := 0\<rparr>)
              in (e1, redraw active_id e1 s))"

definition multi_handle_input_key :: "u32 \<Rightarrow> char \<Rightarrow> editor \<Rightarrow> sys \<Rightarrow> editor \<times> sys" where
  "multi_handle_input_key active_id key e s =
     (let len = length (ed_input e); cur = ed_cursor e
      in if key = CHR ''A'' then multi_history_load active_id True e s
         else if key = CHR ''B'' then multi_history_load active_id False e s
         else if key = CHR ''D''
         then (if cur > 0 then (e\<lparr>ed_cursor := cur - 1\<rparr>, eprint (esc ''D'') s) else (e, s))
         else if key = CHR ''C''
         then (if cur < len then (e\<lparr>ed_cursor := cur + 1\<rparr>, eprint (esc ''C'') s) else (e, s))
         else if key = CHR ''H'' \<or> key = CHR ''h''
         then (if cur > 0 then (e\<lparr>ed_cursor := 0\<rparr>, eprint (esc (dec_string cur @ ''D'')) s) else (e, s))
         else if key = CHR ''F'' \<or> key = CHR ''f''
         then (if cur < len then (e\<lparr>ed_cursor := len\<rparr>, eprint (esc (dec_string (len - cur) @ ''C'')) s) else (e, s))
         else (e, s))"

text \<open>One byte inside an escape sequence.\<close>

definition in_escape :: "nat \<Rightarrow> bool" where
  "in_escape n = (n = 1 \<or> n = 2 \<or> n = 3 \<or> n = 99 \<or> n \<ge> 100)"

definition escape_byte :: "u32 \<Rightarrow> char \<Rightarrow> editor \<Rightarrow> sys \<Rightarrow> editor \<times> sys" where
  "escape_byte active_id ch e s =
     (let st = esc_state e; goes = (\<lambda>n. e\<lparr>esc_state := n\<rparr>);
          key = (\<lambda>k. multi_handle_input_key active_id k (e\<lparr>esc_state := 0\<rparr>) s)
      in if st = 1
         then (if ch = CHR ''['' then goes 2 else if ch = CHR ''O'' then goes 3 else goes 0, s)
         else if st = 2
         then (if ch \<in> set ''ABCDHF'' then key ch
               else if isdigit ch then (goes (100 + code ch), s)
               else (goes 0, s))
         else if st = 3
         then key (if ch = CHR ''w'' then CHR ''H'' else if ch = CHR ''q'' then CHR ''F'' else ch)
         else if st \<ge> 100
         then (let digit = st - 100
               in if ch = CHR ''~''
                  then (if digit = code (CHR ''1'') \<or> digit = code (CHR ''7'') then key (CHR ''H'')
                        else if digit = code (CHR ''4'') \<or> digit = code (CHR ''8'') then key (CHR ''F'')
                        else (goes 0, s))
                  else (goes 99, s))
         else (if code (CHR ''A'') \<le> code ch \<and> code ch \<le> code (CHR ''Z'') \<or> ch = CHR ''~'' then goes 0 else e, s))"

definition insert_at :: "nat \<Rightarrow> char \<Rightarrow> bytes \<Rightarrow> bytes" where
  "insert_at k ch t = take k t @ ch # drop k t"

definition delete_before :: "nat \<Rightarrow> bytes \<Rightarrow> bytes" where
  "delete_before k t = take (k - 1) t @ drop k t"

definition is_text :: "char \<Rightarrow> bool" where
  "is_text ch = (32 \<le> code ch \<and> code ch < 127)"

text \<open>The end of a line: kept in the history, then handled.\<close>

definition enter_line :: "nat \<Rightarrow> editor \<Rightarrow> console \<Rightarrow> sys \<Rightarrow> editor \<times> console \<times> sys" where
  "enter_line m e c s =
     (let line = (if length (ed_input e) < WCAT_MULTI_INPUT then ed_input e @ nl else ed_input e);
          h = multi_history_save (ed_history e) line;
          (c1, s1) = multi_handle_input_line m line c (eprint nl s)
      in (e\<lparr>ed_input := [], ed_cursor := 0, ed_history := h, history_pos := - 1\<rparr>, c1, s1))"

definition editor_byte :: "nat \<Rightarrow> char \<Rightarrow> editor \<Rightarrow> console \<Rightarrow> sys \<Rightarrow> editor \<times> console \<times> sys" where
  "editor_byte m ch e c s =
     (if in_escape (esc_state e) then let (e1, s1) = escape_byte (active c) ch e s in (e1, c, s1)
      else if ch = CHR 0x1B then (e\<lparr>esc_state := 1\<rparr>, c, s)
      else if ch = CHR 0x0D \<or> ch = CHR 0x0A then enter_line m e c s
      else if ch = CHR 0x08 \<or> ch = CHR 0x7F
      then (if ed_cursor e > 0
            then let e1 = e\<lparr>ed_input := delete_before (ed_cursor e) (ed_input e), ed_cursor := ed_cursor e - 1,
                           history_pos := - 1\<rparr>
                 in (e1, c, redraw (active c) e1 s)
            else (e, c, s))
      else if (ch = CHR 0x09 \<or> is_text ch) \<and> length (ed_input e) < WCAT_MULTI_INPUT
      then let e1 = e\<lparr>ed_input := insert_at (ed_cursor e) ch (ed_input e), ed_cursor := ed_cursor e + 1,
                     history_pos := - 1\<rparr>
           in (e1, c, redraw (active c) e1 s)
      else (e, c, s))"

fun editor_bytes :: "nat \<Rightarrow> bytes \<Rightarrow> editor \<Rightarrow> console \<Rightarrow> sys \<Rightarrow> editor \<times> console \<times> sys" where
  "editor_bytes m [] e c s = (e, c, s)"
| "editor_bytes m (ch # chs) e c s = (let (e1, c1, s1) = editor_byte m ch e c s in editor_bytes m chs e1 c1 s1)"

definition multi_handle_interactive_stdin :: "nat \<Rightarrow> editor \<Rightarrow> console \<Rightarrow> sys \<Rightarrow> editor \<times> console \<times> sys" where
  "multi_handle_interactive_stdin m e c s =
     (case read_retry 0 128 s of
        (None, s1) \<Rightarrow> (e, c, s1)
      | (Some b, s1) \<Rightarrow> editor_bytes m b e c s1)"

section \<open>The input does not wait\<close>

lemma same_poll_read_retry [same_poll]: "poll_q (snd (read_retry fd n s)) = poll_q s"
  by (metis prod.collapse read_retry_frame(1))

lemma same_poll_input_lines [same_poll]: "poll_q (snd (snd (input_lines m l xs c s))) = poll_q s"
  by (induction m l xs c s rule: input_lines.induct) (simp_all add: case_prod_unfold Let_def same_poll)

lemma same_poll_stdin [same_poll]: "poll_q (snd (snd (multi_handle_stdin m inp c s))) = poll_q s"
proof -
  obtain r s1 where r: "read_retry 0 (WCAT_MULTI_INPUT - length inp) s = (r, s1)" by force
  then have "poll_q s1 = poll_q s" by (metis same_poll_read_retry snd_conv)
  then show ?thesis by (simp add: multi_handle_stdin_def r same_poll split: option.splits)
qed

lemma same_poll_editor [same_poll]:
  "poll_q (stderr_write b s) = poll_q s" "poll_q (multi_redraw_input i inp k s) = poll_q s" "poll_q (redraw i e s) = poll_q s"
  "poll_q (snd (multi_history_load i up e s)) = poll_q s"
  by (simp_all add: stderr_write_def multi_redraw_input_def redraw_def multi_history_load_def case_prod_unfold Let_def same_poll)

lemma same_poll_key [same_poll]: "poll_q (snd (multi_handle_input_key i key e s)) = poll_q s"
  by (simp add: multi_handle_input_key_def Let_def same_poll)

lemma same_poll_escape [same_poll]: "poll_q (snd (escape_byte i ch e s)) = poll_q s"
  by (simp add: escape_byte_def Let_def same_poll)

lemma same_poll_editor_byte [same_poll]: "poll_q (snd (snd (editor_byte m ch e c s))) = poll_q s"
  by (simp add: editor_byte_def enter_line_def case_prod_unfold Let_def same_poll)

lemma same_poll_editor_bytes [same_poll]: "poll_q (snd (snd (editor_bytes m b e c s))) = poll_q s"
  by (induction b arbitrary: e c s) (simp_all add: case_prod_unfold Let_def same_poll)

lemma same_poll_interactive [same_poll]: "poll_q (snd (snd (multi_handle_interactive_stdin m e c s))) = poll_q s"
proof -
  obtain r s1 where r: "read_retry 0 128 s = (r, s1)" by force
  then have "poll_q s1 = poll_q s" by (metis same_poll_read_retry snd_conv)
  then show ?thesis by (simp add: multi_handle_interactive_stdin_def r same_poll split: option.splits)
qed

end
