(* ===== verification/Wcat_Attached.thy ===== *)
theory Wcat_Attached
  imports Wcat_Editor
begin

text \<open>
  src/main.c, the attached session of \<open>listen --multi\<close>: the typed text goes to the peer, the
  words that detach are held back, the echo of the peer is left out of the output.
\<close>

section \<open>Definitions\<close>

definition WCAT_MULTI_ECHO_PENDING :: nat where "WCAT_MULTI_ECHO_PENDING = 8192"

definition detach_words :: "string list" where
  "detach_words = [''back'', '':back'', '':detach'']"

text \<open>Whether the text begins one of the words, and whether it is that word.\<close>

definition multi_attached_detach_match :: "bytes \<Rightarrow> bool \<times> bool" where
  "multi_attached_detach_match line =
     (case find (\<lambda>w. length line \<le> length w \<and> take (length line) w = line) detach_words of
        None \<Rightarrow> (False, False)
      | Some w \<Rightarrow> (True, length line = length w))"

definition http_methods :: "string list" where
  "http_methods = [''GET '', ''POST '', ''HEAD '', ''PUT '', ''DELETE '', ''OPTIONS '', ''PATCH '', ''TRACE '', ''CONNECT '',
     ''PRI * HTTP/2.0'']"

definition multi_looks_http_request :: "bytes \<Rightarrow> bool" where
  "multi_looks_http_request buf =
     list_ex (\<lambda>w. length buf \<ge> length w \<and> take (length w) buf = w) http_methods"

definition multi_echo_pending_append :: "bytes \<Rightarrow> bytes \<Rightarrow> bytes" where
  "multi_echo_pending_append pending buf =
     (let len = length buf; space = WCAT_MULTI_ECHO_PENDING - length pending;
          kept = (if len > space
                  then let surplus = len - space in if surplus \<ge> length pending then [] else drop surplus pending
                  else pending);
          added = (if len > WCAT_MULTI_ECHO_PENDING then drop (len - WCAT_MULTI_ECHO_PENDING) buf else buf)
      in kept @ added)"

text \<open>
  Output of the attached session, byte by byte: a byte that was typed is its echo, a carriage
  return before the newline of an echo too; the first other byte ends the expectation.
\<close>

fun attached_output :: "bytes \<Rightarrow> bytes \<Rightarrow> sys \<Rightarrow> int \<times> bytes \<times> sys" where
  "attached_output [] pending s = (0, pending, s)"
| "attached_output (x # xs) pending s =
     (if pending \<noteq> [] \<and> x = hd pending then attached_output xs (tl pending) s
      else if pending \<noteq> [] \<and> x = CHR 0x0D \<and> hd pending = CHR 0x0A then attached_output xs pending s
      else let (n, s1) = wcat_full_write 1 [x] s
           in if n \<noteq> 1 then (- 1, [], s1) else attached_output xs [] s1)"

definition multi_write_attached_output ::
  "multi_session \<Rightarrow> bytes \<Rightarrow> bytes \<Rightarrow> sys \<Rightarrow> int \<times> multi_session \<times> bytes \<times> sys" where
  "multi_write_attached_output x buf pending s =
     (let (rc, p, s1) = attached_output buf pending s in (rc, x\<lparr>ms_line_start := True\<rparr>, p, s1))"

text \<open>The line typed so far, whether it is held back, and the echo that is expected.\<close>

record typing =
  ty_line :: bytes
  ty_held :: bool
  ty_echo :: bytes

definition new_typing :: typing where
  "new_typing = \<lparr>ty_line = [], ty_held = True, ty_echo = []\<rparr>"

text \<open>Bytes to the peer of slot \<open>k\<close>; a failure is ignored, the echo is expected all the same.\<close>

definition type_out :: "nat \<Rightarrow> bytes \<Rightarrow> typing \<Rightarrow> console \<Rightarrow> sys \<Rightarrow> typing \<times> console \<times> sys" where
  "type_out k b t c s =
     (let (rc, ss, s1) = send_to k b (sessions c) s
      in (t\<lparr>ty_echo := multi_echo_pending_append (ty_echo t) b\<rparr>, c\<lparr>sessions := ss\<rparr>, s1))"

definition detach :: "typing \<Rightarrow> console \<Rightarrow> sys \<Rightarrow> typing \<times> console \<times> sys" where
  "detach t c s =
     (t\<lparr>ty_line := [], ty_held := True, ty_echo := []\<rparr>, c\<lparr>attached := 0\<rparr>,
      multi_print_prompt (active c) (eprint nl s))"

definition attached_erase :: "nat \<Rightarrow> char \<Rightarrow> typing \<Rightarrow> console \<Rightarrow> sys \<Rightarrow> typing \<times> console \<times> sys" where
  "attached_erase k ch t c s =
     (let (t1, c1, s1) = (if ty_line t = [] then (t, c, s)
                          else let t0 = t\<lparr>ty_line := butlast (ty_line t)\<rparr>
                               in if ty_held t then (t0, c, s) else type_out k [ch] t0 c s)
      in (t1, c1, eprint [CHR 0x08, CHR '' '', CHR 0x08] s1))"

definition attached_enter :: "nat \<Rightarrow> typing \<Rightarrow> console \<Rightarrow> sys \<Rightarrow> typing \<times> console \<times> sys" where
  "attached_enter k t c s =
     (if ty_held t \<and> multi_attached_detach_match (ty_line t) = (True, True) then detach t c s
      else let (t1, c1, s1) = (if ty_held t \<and> ty_line t \<noteq> [] then type_out k (ty_line t) t c s else (t, c, s));
               (t2, c2, s2) = type_out k nl (t1\<lparr>ty_line := [], ty_held := True\<rparr>) c1 s1
           in (t2, c2, eprint nl s2))"

definition attached_char :: "nat \<Rightarrow> char \<Rightarrow> typing \<Rightarrow> console \<Rightarrow> sys \<Rightarrow> typing \<times> console \<times> sys" where
  "attached_char k ch t c s =
     (let (t1, c1, s1) =
            (if length (ty_line t) + 1 < WCAT_MULTI_INPUT \<and> (ch = CHR 0x09 \<or> is_text ch)
             then let t0 = t\<lparr>ty_line := ty_line t @ [ch]\<rparr>
                  in if ty_held t \<and> \<not> fst (multi_attached_detach_match (ty_line t0))
                     then (let (t2, c2, s2) = type_out k (ty_line t0) t0 c s in (t2\<lparr>ty_held := False\<rparr>, c2, s2))
                     else if \<not> ty_held t then type_out k [ch] t0 c s
                     else (t0, c, s)
             else if attached c \<noteq> 0 then type_out k [ch] t c s
             else (t, c, s))
      in (t1, c1, if is_text ch then stderr_write [ch] s1 else s1))"

definition attached_byte :: "nat \<Rightarrow> char \<Rightarrow> typing \<Rightarrow> console \<Rightarrow> sys \<Rightarrow> typing \<times> console \<times> sys" where
  "attached_byte k ch t c s =
     (if ch = CHR 0x1D then detach t c s
      else if ch = CHR 0x08 \<or> ch = CHR 0x7F then attached_erase k ch t c s
      else if ch = CHR 0x0D \<or> ch = CHR 0x0A then attached_enter k t c s
      else attached_char k ch t c s)"

fun attached_bytes :: "nat \<Rightarrow> bytes \<Rightarrow> typing \<Rightarrow> console \<Rightarrow> sys \<Rightarrow> typing \<times> console \<times> sys" where
  "attached_bytes k [] t c s = (t, c, s)"
| "attached_bytes k (ch # chs) t c s = (let (t1, c1, s1) = attached_byte k ch t c s in attached_bytes k chs t1 c1 s1)"

definition multi_handle_attached_stdin :: "nat \<Rightarrow> typing \<Rightarrow> console \<Rightarrow> sys \<Rightarrow> typing \<times> console \<times> sys" where
  "multi_handle_attached_stdin m t c s =
     (case multi_find_by_id (sessions c) m (attached c) of
        None \<Rightarrow>
          (let c1 = c\<lparr>attached := 0, active := multi_first_session_id (sessions c) m\<rparr>
           in (t, c1, multi_print_prompt (active c1) (eprint nl s)))
      | Some k \<Rightarrow>
          (case read_retry 0 512 s of
             (None, s1) \<Rightarrow> (t, c, s1)
           | (Some b, s1) \<Rightarrow> attached_bytes k b t c s1))"

section \<open>The attached session does not wait\<close>

lemma same_poll_output [same_poll]: "poll_q (snd (snd (attached_output b p s))) = poll_q s"
  by (induction b arbitrary: p s) (simp_all add: case_prod_unfold Let_def same_poll)

lemma same_poll_attached [same_poll]:
  "poll_q (snd (snd (snd (multi_write_attached_output x b p s)))) = poll_q s"
  "poll_q (snd (snd (type_out k b t c s))) = poll_q s" "poll_q (snd (snd (detach t c s))) = poll_q s"
  "poll_q (snd (snd (attached_erase k ch t c s))) = poll_q s" "poll_q (snd (snd (attached_enter k t c s))) = poll_q s"
  "poll_q (snd (snd (attached_char k ch t c s))) = poll_q s"
  by (simp_all add: multi_write_attached_output_def type_out_def detach_def attached_erase_def attached_enter_def
      attached_char_def case_prod_unfold Let_def same_poll)

lemma same_poll_attached_byte [same_poll]: "poll_q (snd (snd (attached_byte k ch t c s))) = poll_q s"
  by (simp add: attached_byte_def same_poll)

lemma same_poll_attached_bytes [same_poll]: "poll_q (snd (snd (attached_bytes k b t c s))) = poll_q s"
  by (induction b arbitrary: t c s) (simp_all add: case_prod_unfold Let_def same_poll)

lemma same_poll_attached_stdin [same_poll]: "poll_q (snd (snd (multi_handle_attached_stdin m t c s))) = poll_q s"
proof -
  obtain r s1 where r: "read_retry 0 512 s = (r, s1)" by force
  then have "poll_q s1 = poll_q s" by (metis same_poll_read_retry snd_conv)
  then show ?thesis by (simp add: multi_handle_attached_stdin_def r same_poll Let_def split: option.splits)
qed

end
