(* ===== verification/Wcat_Multi.thy ===== *)
theory Wcat_Multi
  imports Wcat_Attached
begin

text \<open>
  src/main.c, the loop of \<open>listen --multi\<close>: new sessions, the input of the operator, the output
  of the sessions with their labels, the end of sessions and of the program.
\<close>

section \<open>Output with labels\<close>

definition session_prefix :: "multi_session \<Rightarrow> string" where
  "session_prefix x =
     layout ''[session%u %s %s:%s] '' [u32_text (ms_id x), multi_session_label x, ms_host x, ms_port x]"

text \<open>
  One piece: the label when a line starts (it must fit a buffer of 192 bytes), then the bytes up
  to the end of the line.
\<close>

function write_labelled :: "multi_session \<Rightarrow> bytes \<Rightarrow> sys \<Rightarrow> int \<times> multi_session \<times> sys" where
  "write_labelled x buf s =
     (if buf = [] then (0, x, s)
      else let pre = session_prefix x;
               (ok, x1, s1) =
                 (if \<not> ms_line_start x then (True, x, s)
                  else if length pre \<ge> 192 then (False, x, s)
                  else let (n, s') = wcat_full_write 1 pre s
                       in if n \<noteq> int (length pre) then (False, x, s') else (True, x\<lparr>ms_line_start := False\<rparr>, s'))
           in if \<not> ok then (- 1, x1, s1)
              else let body = takeWhile (\<lambda>c. c \<noteq> CHR 0x0A) buf;
                       ends = (length body < length buf);
                       piece = (if ends then body @ nl else body);
                       x2 = (if ends then x1\<lparr>ms_line_start := True\<rparr> else x1);
                       (n, s2) = wcat_full_write 1 piece s1
                   in if n \<noteq> int (length piece) then (- 1, x2, s2)
                      else write_labelled x2 (drop (length piece) buf) s2)"
  by pat_completeness auto
termination
proof (relation "measure (\<lambda>(x, buf, s). length buf)", goal_cases)
  case 1
  show ?case by simp
next
  case (2 x buf s)
  then show ?case by (cases buf) (auto simp: nl_def split: if_splits)
qed

declare write_labelled.simps [simp del]

definition multi_write_output :: "multi_session \<Rightarrow> bytes \<Rightarrow> bool \<Rightarrow> sys \<Rightarrow> int \<times> multi_session \<times> sys" where
  "multi_write_output x buf raw s =
     (if raw
      then let (n, s1) = wcat_full_write 1 buf s
           in (if n = int (length buf) then 0 else - 1, x\<lparr>ms_line_start := True\<rparr>, s1)
      else write_labelled x buf s)"

section \<open>The state of the loop\<close>

text \<open>
  The console, the editor (used when the terminal is in raw mode), the buffered line (used
  otherwise), what is typed into the attached session, the next session number and the result.
\<close>

record multi =
  mu_console :: console
  mu_editor :: editor
  mu_line :: bytes
  mu_typing :: typing
  next_id :: u32
  interactive :: bool
  mu_result :: int

definition multi_sessions :: "multi \<Rightarrow> multi_session list" where
  "multi_sessions x = sessions (mu_console x)"

definition multi_pollfds :: "nat \<Rightarrow> fd \<Rightarrow> multi_session list \<Rightarrow> (fd \<times> pflag set) list" where
  "multi_pollfds m listener ss =
     (listener, {POLLIN}) # (0, {POLLIN})
     # map (\<lambda>k. (ms_fd (ss ! k), {POLLIN})) (filter (live ss) [0..<m])"

section \<open>New sessions\<close>

definition join_session :: "nat \<Rightarrow> fd \<Rightarrow> string \<Rightarrow> string \<Rightarrow> multi \<Rightarrow> sys \<Rightarrow> multi \<times> sys" where
  "join_session k fd h p x s =
     (let c = mu_console x; i = next_id x;
          y = (sessions c ! k)\<lparr>ms_fd := fd, ms_id := i, ms_line_start := True,
                 ms_host := snprintf_trunc 128 (if h \<noteq> [] then h else ''peer''),
                 ms_port := snprintf_trunc 32 (if p \<noteq> [] then p else ''0'')\<rparr>;
          c1 = c\<lparr>sessions := (sessions c)[k := y], active := (if active c = 0 then i else active c)\<rparr>;
          s1 = wcat_log WCAT_LOG_INFO ''multi_join''
                 (''session '' @ u32_text i @ '' accepted from '' @ ms_host y @ '':'' @ ms_port y) s
      in (x\<lparr>mu_console := c1, next_id := i + 1\<rparr>,
          if attached c1 = 0 then multi_print_prompt (active c1) (eprint nl s1) else s1))"

definition multi_accept :: "inet \<Rightarrow> wcat_config \<Rightarrow> nat \<Rightarrow> fd \<Rightarrow> multi \<Rightarrow> sys \<Rightarrow> multi \<times> sys" where
  "multi_accept L cfg m listener x s =
     (case wcat_accept listener s of
        (None, s1) \<Rightarrow> (x, s1)
      | (Some (fd, h, p), s1) \<Rightarrow>
          (let (allowed, s2) = wcat_access_check_fd L cfg fd s1
           in if \<not> allowed then (x, close_quiet fd s2)
              else case find (\<lambda>k. \<not> live (multi_sessions x) k) [0..<m] of
                     None \<Rightarrow> (x, close_quiet fd (wcat_log WCAT_LOG_WARN ''multi_full'' ''multi session limit reached'' s2))
                   | Some k \<Rightarrow> join_session k fd h p x s2))"

section \<open>The operator\<close>

definition multi_input :: "nat \<Rightarrow> multi \<Rightarrow> sys \<Rightarrow> multi \<times> sys" where
  "multi_input m x s =
     (let c = mu_console x
      in if attached c \<noteq> 0
         then let (t, c1, s1) = multi_handle_attached_stdin m (mu_typing x) c s
              in (x\<lparr>mu_typing := t, mu_console := c1\<rparr>, s1)
         else if interactive x
         then let (e, c1, s1) = multi_handle_interactive_stdin m (mu_editor x) c s
              in (x\<lparr>mu_editor := e, mu_console := c1\<rparr>, s1)
         else let (l, c1, s1) = multi_handle_stdin m (mu_line x) c s in (x\<lparr>mu_line := l, mu_console := c1\<rparr>, s1))"

section \<open>One session\<close>

definition multi_redraw :: "multi \<Rightarrow> sys \<Rightarrow> sys" where
  "multi_redraw x s = redraw (active (mu_console x)) (mu_editor x) s"

text \<open>The session in slot \<open>k\<close> has ended: the log entry, its slot, the active session.\<close>

definition drop_session :: "nat \<Rightarrow> nat \<Rightarrow> console \<Rightarrow> sys \<Rightarrow> console \<times> sys" where
  "drop_session m k c s =
     (let (ss, s1) = multi_session_close (sessions c) k
            (wcat_log WCAT_LOG_INFO ''multi_leave'' (''session '' @ u32_text (ms_id (sessions c ! k)) @ '' closed'') s)
      in (c\<lparr>sessions := ss,
            active := (if active c \<noteq> 0 \<and> multi_find_by_id ss m (active c) = None then multi_first_session_id ss m
                       else active c)\<rparr>, s1))"

definition session_left :: "nat \<Rightarrow> nat \<Rightarrow> multi \<Rightarrow> sys \<Rightarrow> multi \<times> sys" where
  "session_left m k x s =
     (let c = mu_console x;
          (c1, s1) = drop_session m k
                       (if attached c = ms_id (sessions c ! k) then c\<lparr>attached := 0\<rparr> else c) s
      in (x\<lparr>mu_console := c1\<rparr>, if attached c1 = 0 then multi_print_prompt (active c1) s1 else s1))"

text \<open>The output of slot \<open>k\<close>: as it is when the session is attached, with labels otherwise.\<close>

definition session_output :: "nat \<Rightarrow> bytes \<Rightarrow> multi \<Rightarrow> sys \<Rightarrow> int \<times> multi \<times> sys" where
  "session_output k b x s =
     (let c = mu_console x; y = sessions c ! k
      in if attached c = ms_id y
         then let (rc, y1, p, s1) = multi_write_attached_output y b (ty_echo (mu_typing x)) s
              in (rc, x\<lparr>mu_console := c\<lparr>sessions := (sessions c)[k := y1]\<rparr>,
                        mu_typing := (mu_typing x)\<lparr>ty_echo := p\<rparr>\<rparr>, s1)
         else let (rc, y1, s1) = multi_write_output y b False s
              in (rc, x\<lparr>mu_console := c\<lparr>sessions := (sessions c)[k := y1]\<rparr>\<rparr>, s1))"

definition count_received :: "nat \<Rightarrow> bytes \<Rightarrow> multi \<Rightarrow> multi" where
  "count_received k b x =
     (let c = mu_console x; y = sessions c ! k
      in x\<lparr>mu_console := c\<lparr>sessions := (sessions c)[k := y\<lparr>ms_rx := ms_rx y + of_nat (length b)\<rparr>]\<rparr>\<rparr>)"

definition clear_line :: string where "clear_line = CHR 0x0D # esc ''2K''"

definition hexdump_if :: "wcat_config \<Rightarrow> bytes \<Rightarrow> sys \<Rightarrow> sys" where
  "hexdump_if cfg b s = (if hex cfg then wcat_hexdump ''multi'' b s else s)"

definition output_failed :: "multi \<Rightarrow> sys \<Rightarrow> multi \<times> sys" where
  "output_failed x s = (x\<lparr>mu_result := 1\<rparr>, s\<lparr>wcat_stop := True\<rparr>)"

text \<open>
  The first bytes of a session are an HTTP request: shown, and the session is closed. The flag
  of the result says whether the loop over the sessions goes on.
\<close>

definition http_closed :: "nat \<Rightarrow> nat \<Rightarrow> multi \<Rightarrow> sys \<Rightarrow> multi \<times> sys" where
  "http_closed m k x s =
     (let line_start = ms_line_start (multi_sessions x ! k);
          (c, s1) = drop_session m k (mu_console x) s;
          x1 = x\<lparr>mu_console := c\<rparr>
      in (x1, if interactive x1 \<and> attached c = 0 then multi_redraw x1 (if line_start then s1 else eprint nl s1)
              else if attached c = 0 then multi_print_prompt (active c) s1
              else s1))"

definition http_session :: "wcat_config \<Rightarrow> nat \<Rightarrow> nat \<Rightarrow> bytes \<Rightarrow> multi \<Rightarrow> sys \<Rightarrow> bool \<times> multi \<times> sys" where
  "http_session cfg m k b x s =
     (let s1 = (if interactive x \<and> attached (mu_console x) = 0 then eprint clear_line s else s);
          was_attached = (attached (mu_console x) = ms_id (multi_sessions x ! k));
          (rc, x1, s2) = session_output k b (count_received k b x) (hexdump_if cfg b s1);
          x2 = (if was_attached then x1\<lparr>mu_console := (mu_console x1)\<lparr>attached := 0\<rparr>\<rparr> else x1)
      in if rc < 0 then (False, output_failed x2 s2) else (True, http_closed m k x2 s2))"

definition session_data :: "wcat_config \<Rightarrow> nat \<Rightarrow> bytes \<Rightarrow> multi \<Rightarrow> sys \<Rightarrow> bool \<times> multi \<times> sys" where
  "session_data cfg k b x s =
     (let x0 = count_received k b x; s1 = hexdump_if cfg b s;
          s2 = (if interactive x0 \<and> attached (mu_console x0) = 0 then eprint clear_line s1 else s1);
          (rc, x1, s3) = session_output k b x0 s2
      in if rc < 0 then (False, output_failed x1 s3)
         else (True, x1,
               if interactive x1 \<and> attached (mu_console x1) = 0
               then multi_redraw x1 (if ms_line_start (multi_sessions x1 ! k) then s3 else eprint nl s3)
               else s3))"

definition session_readable :: "wcat_config \<Rightarrow> nat \<Rightarrow> nat \<Rightarrow> multi \<Rightarrow> sys \<Rightarrow> bool \<times> multi \<times> sys" where
  "session_readable cfg m k x s =
     (let y = multi_sessions x ! k; (r, s1) = read_retry (ms_fd y) 4096 s;
          b = (case r of None \<Rightarrow> [] | Some d \<Rightarrow> d)
      in if b = [] then (True, session_left m k x s1)
         else if ms_rx y = 0 \<and> multi_looks_http_request b then http_session cfg m k b x s1
         else session_data cfg k b x s1)"

text \<open>\<open>revs\<close> are the descriptors of the sessions that were polled, with their events.\<close>

definition session_service ::
  "wcat_config \<Rightarrow> nat \<Rightarrow> (fd \<times> pflag set) list \<Rightarrow> nat \<Rightarrow> multi \<Rightarrow> sys \<Rightarrow> bool \<times> multi \<times> sys" where
  "session_service cfg m revs k x s =
     (if \<not> live (multi_sessions x) k then (True, x, s)
      else case map_of revs (ms_fd (multi_sessions x ! k)) of
             None \<Rightarrow> (True, x, s)
           | Some ev \<Rightarrow>
               if ev \<inter> {POLLERR, POLLNVAL} \<noteq> {} then (True, session_left m k x s)
               else if ev \<inter> {POLLIN, POLLHUP} \<noteq> {} then session_readable cfg m k x s
               else (True, x, s))"

fun session_services ::
  "wcat_config \<Rightarrow> nat \<Rightarrow> (fd \<times> pflag set) list \<Rightarrow> nat list \<Rightarrow> multi \<Rightarrow> sys \<Rightarrow> multi \<times> sys" where
  "session_services cfg m revs [] x s = (x, s)"
| "session_services cfg m revs (k # ks) x s =
     (let (go, x1, s1) = session_service cfg m revs k x s
      in if go then session_services cfg m revs ks x1 s1 else (x1, s1))"

section \<open>The loop\<close>

text \<open>After a \<open>poll\<close> with events.\<close>

definition multi_pass ::
  "inet \<Rightarrow> wcat_config \<Rightarrow> nat \<Rightarrow> fd \<Rightarrow> pflag set list \<Rightarrow> multi \<Rightarrow> sys \<Rightarrow> multi \<times> sys" where
  "multi_pass L cfg m listener revs x s =
     (let polled = zip (map fst (drop 2 (multi_pollfds m listener (multi_sessions x)))) (drop 2 revs);
          (x1, s1) = (if POLLIN \<in> revs ! 0 then multi_accept L cfg m listener x s else (x, s));
          (x2, s2) = (if POLLIN \<in> revs ! 1 then multi_input m x1 s1 else (x1, s1))
      in session_services cfg m polled [0..<m] x2 s2)"
lemma write_labelled_Nil [simp]: "write_labelled x [] s = (0, x, s)"
  by (simp add: write_labelled.simps)

lemma same_poll_labelled [same_poll]: "poll_q (snd (snd (write_labelled x b s))) = poll_q s"
proof (induction "length b" arbitrary: x b s rule: less_induct)
  case less
  let ?body = "takeWhile (\<lambda>c. c \<noteq> CHR 0x0A) b"
  show ?case
  proof (cases "b = []")
    case False
    then have d: "length (drop (length (?body @ nl)) b) < length b" by (simp add: nl_def)
    have e: "\<not> length ?body < length b \<Longrightarrow> drop (length ?body) b = []" by simp
    show ?thesis
      by (subst write_labelled.simps) (use less [OF d] e in \<open>simp add: case_prod_unfold Let_def same_poll\<close>)
  qed simp
qed

lemma same_poll_accept [same_poll]: "poll_q (snd (multi_accept L cfg m l x s)) = poll_q s"
proof -
  obtain r s1 where r: "wcat_accept l s = (r, s1)" by force
  then have "poll_q s1 = poll_q s" using wcat_accept_effect [of l s r s1] by simp
  then show ?thesis
    by (simp add: multi_accept_def join_session_def r case_prod_unfold Let_def same_poll split: option.splits)
qed

lemma same_poll_input [same_poll]: "poll_q (snd (multi_input m x s)) = poll_q s"
  by (simp add: multi_input_def case_prod_unfold Let_def same_poll)

lemma same_poll_session [same_poll]:
  "poll_q (snd (drop_session m k c s)) = poll_q s" "poll_q (snd (session_left m k x s)) = poll_q s"
  "poll_q (snd (snd (session_output k b x s))) = poll_q s" "poll_q (hexdump_if cfg b s) = poll_q s"
  "poll_q (snd (output_failed x s)) = poll_q s" "poll_q (multi_redraw x s) = poll_q s"
  by (simp_all add: drop_session_def session_left_def session_output_def hexdump_if_def output_failed_def multi_redraw_def
      multi_write_output_def case_prod_unfold Let_def same_poll)

lemma session_output_poll: "session_output k b x s = (rc, x1, s1) \<Longrightarrow> poll_q s1 = poll_q s"
  using same_poll_session(3) [of k b x s] by simp

lemma same_poll_http [same_poll]:
  "poll_q (snd (http_closed m k x s)) = poll_q s" "poll_q (snd (snd (http_session cfg m k b x s))) = poll_q s"
proof -
  show c: "poll_q (snd (http_closed m k x s)) = poll_q s" for x s
    by (simp add: http_closed_def case_prod_unfold Let_def same_poll)
  obtain rc x1 s2 where o: "session_output k b (count_received k b x)
      (hexdump_if cfg b (if interactive x \<and> attached (mu_console x) = 0 then eprint clear_line s else s)) = (rc, x1, s2)"
    using prod_cases3 by blast
  have "poll_q s2 = poll_q s" using session_output_poll [OF o] by (simp add: same_poll)
  then show "poll_q (snd (snd (http_session cfg m k b x s))) = poll_q s"
    by (simp add: http_session_def o c same_poll Let_def)
qed

lemma same_poll_data [same_poll]: "poll_q (snd (snd (session_data cfg k b x s))) = poll_q s"
proof -
  obtain rc x1 s2 where o: "session_output k b (count_received k b x)
      (if interactive (count_received k b x) \<and> attached (mu_console (count_received k b x)) = 0
       then eprint clear_line (hexdump_if cfg b s) else hexdump_if cfg b s) = (rc, x1, s2)"
    using prod_cases3 by blast
  have "poll_q s2 = poll_q s" using session_output_poll [OF o] by (simp add: same_poll)
  then show ?thesis by (simp add: session_data_def o same_poll Let_def)
qed

lemma same_poll_service [same_poll]: "poll_q (snd (snd (session_service cfg m revs k x s))) = poll_q s"
proof -
  obtain r s1 where r: "read_retry (ms_fd (multi_sessions x ! k)) 4096 s = (r, s1)" by force
  then have "poll_q s1 = poll_q s" by (metis same_poll_read_retry snd_conv)
  then have "poll_q (snd (snd (session_readable cfg m k x s))) = poll_q s"
    by (simp add: session_readable_def r same_poll Let_def)
  then show ?thesis by (simp add: session_service_def same_poll split: option.splits)
qed

lemma same_poll_services [same_poll]: "poll_q (snd (session_services cfg m revs ks x s)) = poll_q s"
  by (induction ks arbitrary: x s) (simp_all add: case_prod_unfold Let_def same_poll)

lemma same_poll_pass [same_poll]: "poll_q (snd (multi_pass L cfg m l revs x s)) = poll_q s"
  by (simp add: multi_pass_def case_prod_unfold Let_def same_poll del: split_paired_All)

function multi_loop :: "inet \<Rightarrow> wcat_config \<Rightarrow> nat \<Rightarrow> fd \<Rightarrow> multi \<Rightarrow> sys \<Rightarrow> multi \<times> sys" where
  "multi_loop L cfg m listener x s =
     (let (stop, s0) = observe_stop s
      in if stop then (x, s0)
         else let (rc, revs, s1) = sys_poll (multi_pollfds m listener (multi_sessions x)) s0
              in if rc < 0
                 then if errno_of s1 = EINTR then multi_loop L cfg m listener x s1
                      else (x\<lparr>mu_result := 1\<rparr>, wcat_log_errno ''multi_poll'' ''multi poll failed'' s1)
                 else if rc = 0 then multi_loop L cfg m listener x s1
                 else let (x1, s2) = multi_pass L cfg m listener revs x s1 in multi_loop L cfg m listener x1 s2)"
  by pat_completeness auto
termination
proof (relation "measure (\<lambda>(L, cfg, m, l, x, s). length (poll_q s))", goal_cases)
  case 1
  show ?case by simp
next
  case (2 L cfg m l x s p stop s0 q rc r revs s1)
  have "poll_q s0 = poll_q s" using 2(1,2) observe_stop_poll by metis
  moreover have "length (poll_q s1) < length (poll_q s0)"
    using 2 sys_poll_queue(2) [of "multi_pollfds m l (multi_sessions x)" s0 rc revs s1] by simp
  ultimately show ?case by simp
next
  case (3 L cfg m l x s p stop s0 q rc r revs s1)
  have "poll_q s0 = poll_q s" using 3(1,2) observe_stop_poll by metis
  moreover have "length (poll_q s1) < length (poll_q s0)"
    using 3 by (intro sys_poll_answered [of "multi_pollfds m l (multi_sessions x)" s0 rc revs s1]) simp_all
  ultimately show ?case by simp
next
  case (4 L cfg m l x s p stop s0 q rc r revs s1 y x1 s2)
  have "poll_q s0 = poll_q s" using 4(1,2) observe_stop_poll by metis
  moreover have "length (poll_q s1) < length (poll_q s0)"
    using 4 by (intro sys_poll_answered [of "multi_pollfds m l (multi_sessions x)" s0 rc revs s1]) simp_all
  moreover have "poll_q s2 = poll_q s1" using same_poll_pass [of L cfg m l revs x s1] 4(9,10) by (metis snd_conv)
  ultimately show ?case by simp
qed

declare multi_loop.simps [simp del]

text \<open>The sessions that are left at the end are closed, in the order of their slots.\<close>

definition close_live :: "nat \<Rightarrow> multi_session list \<times> sys \<Rightarrow> multi_session list \<times> sys" where
  "close_live k st = (if live (fst st) k then multi_session_close (fst st) k (snd st) else st)"

text \<open>The terminal is put into raw mode when standard input is one and both calls succeed.\<close>

definition multi_terminal :: "sys \<Rightarrow> bool \<times> sys" where
  "multi_terminal s =
     (if tty s 0
      then let (got_attr, s1) = sys_tcgetattr s in if got_attr then sys_tcsetattr True s1 else (False, s1)
      else (False, s))"

definition multi_init :: "bool \<Rightarrow> multi" where
  "multi_init raw =
     \<lparr>mu_console = \<lparr>sessions = replicate WCAT_MULTI_LIMIT multi_session_init, active = 0, attached = 0\<rparr>,
      mu_editor = new_editor, mu_line = [], mu_typing = new_typing, next_id = 1, interactive = raw, mu_result = 0\<rparr>"

definition run_multi_listen :: "inet \<Rightarrow> wcat_config \<Rightarrow> sys \<Rightarrow> int \<times> sys" where
  "run_multi_listen L cfg s =
     (if broker_max_clients cfg < 1 \<or> broker_max_clients cfg > int WCAT_MULTI_LIMIT
      then (2, wcat_log WCAT_LOG_ERROR ''multi_config'' ''invalid multi session limit'' s)
      else let m = nat (broker_max_clients cfg); (listener, s1) = main_listen_socket cfg s
           in if listener < 0 then (1, wcat_log_errno ''listen'' ''multi listen failed'' s1)
              else let (raw, s2) = multi_terminal s1;
                       s3 = wcat_log WCAT_LOG_INFO ''multi_listen'' ''multi listener ready; use :help for commands'' s2;
                       x = multi_init raw;
                       s4 = (if raw then multi_redraw x s3 else multi_print_prompt 0 s3);
                       (x1, s5) = multi_loop L cfg m listener x s4;
                       (ss, s6) = fold close_live [0..<m] (multi_sessions x1, s5);
                       s7 = (if raw then snd (sys_tcsetattr False s6) else s6)
                   in (mu_result x1, close_quiet listener s7))"

definition run_listen :: "inet \<Rightarrow> wcat_config \<Rightarrow> sys \<Rightarrow> int \<times> sys" where
  "run_listen L cfg s = (if multi cfg then run_multi_listen L cfg s else run_listen_serial L cfg s)"

end
