(* ===== verification/Wcat_Table.thy ===== *)
theory Wcat_Table
  imports Wcat_Multi
begin

text \<open>
  Descriptor accounting for \<open>listen --multi\<close>: the live slots of the session table hold different
  descriptors, which are the ones the loop has opened and not closed yet. Every command, every byte
  of input and every event of a session keeps that; at the end the table is closed.
\<close>

section \<open>The invariant of the table\<close>

definition fds_of :: "nat \<Rightarrow> multi_session list \<Rightarrow> fd set" where
  "fds_of m ss = (\<lambda>k. ms_fd (ss ! k)) ` {k. k < m \<and> live ss k}"

definition table_ok :: "nat \<Rightarrow> fd set \<Rightarrow> sys \<Rightarrow> multi_session list \<Rightarrow> sys \<Rightarrow> bool" where
  "table_ok m X s0 ss s \<longleftrightarrow>
     m \<le> length ss \<and> inj_on (\<lambda>k. ms_fd (ss ! k)) {k. k < m \<and> live ss k}
     \<and> X \<inter> fds_of m ss = {} \<and> owns (X \<union> fds_of m ss) {#} s0 s \<and> X \<union> fds_of m ss \<subseteq> set (open_fds s)
     \<and> term_q s = term_q s0"

named_theorems table \<open>operations that keep the table or do not touch it\<close>

lemma table_rest: "rest_of {} s' = rest_of {} s \<Longrightarrow> table_ok m X s0 ss s' = table_ok m X s0 ss s"
  by (simp add: table_ok_def owns_def rest_of_def)

lemma table_cong:
  assumes "map ms_fd ss' = map ms_fd ss"
  shows "table_ok m X s0 ss' s = table_ok m X s0 ss s"
proof -
  have l: "length ss' = length ss" using assms by (metis length_map)
  have e: "k < length ss \<Longrightarrow> ms_fd (ss' ! k) = ms_fd (ss ! k)" for k using assms l by (metis nth_map)
  show ?thesis
  proof (cases "m \<le> length ss")
    case True
    then have "{k. k < m \<and> live ss' k} = {k. k < m \<and> live ss k}" by (auto simp: live_def e)
    moreover from this have "fds_of m ss' = fds_of m ss" unfolding fds_of_def using True e by (intro image_cong) auto
    moreover have "inj_on (\<lambda>k. ms_fd (ss' ! k)) {k. k < m \<and> live ss k} = inj_on (\<lambda>k. ms_fd (ss ! k)) {k. k < m \<and> live ss k}"
      using True e by (intro inj_on_cong) auto
    ultimately show ?thesis by (simp add: table_ok_def l)
  qed (simp add: table_ok_def l)
qed

lemma table_update: "ms_fd y = ms_fd (ss ! k) \<Longrightarrow> table_ok m X s0 (ss[k := y]) s = table_ok m X s0 ss s"
  by (rule table_cong) (metis list_update_beyond list_update_id map_update not_le)

lemma rest_eprint [rest]: "rest_of K (eprint t s) = rest_of K s"
  by (simp add: rest_of_def eprint_def)

lemma rest_reports [rest]:
  "rest_of K (multi_print_prompt i s) = rest_of K s" "rest_of K (multi_print_help s) = rest_of K s"
  "rest_of K (report_error t s) = rest_of K s" "rest_of K (report_session w h i s) = rest_of K s"
  "rest_of K (report_active i s) = rest_of K s" "rest_of K (multi_print_info ss m a i s) = rest_of K s"
  "rest_of K (s\<lparr>wcat_stop := b\<rparr>) = rest_of K s" "rest_of K (stderr_write d s) = rest_of K s"
  by (simp_all add: multi_print_prompt_def multi_print_help_def report_error_def report_session_def report_active_def
      multi_print_info_def stderr_write_def Let_def case_prod_unfold rest split: option.splits)
    (simp add: rest_of_def)

lemma rest_sessions [rest]: "rest_of K (multi_print_sessions ss m i s) = rest_of K s"
proof -
  have "rest_of K (fold (\<lambda>k. eprint (f k)) ks u) = rest_of K u" for f and ks :: "nat list" and u
    by (induction ks arbitrary: u) (simp_all add: rest)
  then show ?thesis by (simp add: multi_print_sessions_def Let_def rest)
qed

lemma rest_redraw [rest]:
  "rest_of K (multi_redraw_input i inp k s) = rest_of K s" "rest_of K (redraw i e s) = rest_of K s"
  "rest_of K (multi_redraw x s) = rest_of K s" "rest_of K (hexdump_if cfg b s) = rest_of K s"
  by (simp_all add: multi_redraw_input_def redraw_def multi_redraw_def hexdump_if_def Let_def rest)

lemma table_reports [table]:
  "table_ok m X s0 ss (eprint t s) = table_ok m X s0 ss s"
  "table_ok m X s0 ss (multi_print_prompt i s) = table_ok m X s0 ss s"
  "table_ok m X s0 ss (multi_print_help s) = table_ok m X s0 ss s"
  "table_ok m X s0 ss (report_error t s) = table_ok m X s0 ss s"
  "table_ok m X s0 ss (report_session w h i s) = table_ok m X s0 ss s"
  "table_ok m X s0 ss (report_active i s) = table_ok m X s0 ss s"
  "table_ok m X s0 ss (multi_print_info tt m' a i s) = table_ok m X s0 ss s"
  "table_ok m X s0 ss (multi_print_sessions tt m' i s) = table_ok m X s0 ss s"
  "table_ok m X s0 ss (wcat_log lv ev t s) = table_ok m X s0 ss s"
  "table_ok m X s0 ss (wcat_log_errno ev t s) = table_ok m X s0 ss s"
  "table_ok m X s0 ss (s\<lparr>wcat_stop := b\<rparr>) = table_ok m X s0 ss s"
  "table_ok m X s0 ss (stderr_write d s) = table_ok m X s0 ss s"
  "table_ok m X s0 ss (redraw a e s) = table_ok m X s0 ss s"
  "table_ok m X s0 ss (multi_redraw x s) = table_ok m X s0 ss s"
  "table_ok m X s0 ss (hexdump_if cfg d s) = table_ok m X s0 ss s"
  by (rule table_rest, simp add: rest)+

lemma table_close:
  assumes "table_ok m X s0 ss s" and "k < m" and "live ss k"
  shows "table_ok m X s0 (fst (multi_session_close ss k s)) (snd (multi_session_close ss k s))"
proof -
  let ?f = "ms_fd (ss ! k)" and ?ss = "fst (multi_session_close ss k s)"
  have k: "k < length ss" and f: "0 \<le> ?f" using assms by (auto simp: table_ok_def live_def)
  have n: "ms_fd (?ss ! j) = (if j = k then - 1 else ms_fd (ss ! j))" for j
    using k by (simp add: multi_session_close_def case_prod_unfold)
  have L: "{j. j < m \<and> live ?ss j} = {j. j < m \<and> live ss j} - {k}" by (auto simp: live_def n)
  have i: "inj_on (\<lambda>j. ms_fd (ss ! j)) {j. j < m \<and> live ss j}" using assms(1) by (simp add: table_ok_def)
  have F: "fds_of m ?ss = fds_of m ss - {?f}"
  proof -
    have "fds_of m ?ss = (\<lambda>j. ms_fd (ss ! j)) ` ({j. j < m \<and> live ss j} - {k})"
      unfolding fds_of_def L by (intro image_cong) (auto simp: n)
    also have "\<dots> = fds_of m ss - {?f}"
      using inj_on_image_set_diff [OF i, of "{j. j < m \<and> live ss j}" "{k}"] assms(2,3) by (simp add: fds_of_def)
    finally show ?thesis .
  qed
  have "?f \<in> fds_of m ss" using assms(2,3) by (auto simp: fds_of_def)
  then have ins: "X \<union> fds_of m ss = insert ?f (X \<union> fds_of m ss - {?f})" by blast
  have dis: "?f \<notin> X" using assms(1) \<open>?f \<in> fds_of m ss\<close> by (auto simp: table_ok_def)
  have "owns (X \<union> fds_of m ss) {#} s0 s" using assms(1) by (simp add: table_ok_def)
  then have "owns (insert ?f (X \<union> fds_of m ss - {?f})) {#} s0 s" using ins by simp
  from owns_close [OF this] have "owns (X \<union> (fds_of m ss - {?f})) {#} s0 (close_quiet ?f s)"
    using dis by (simp add: Un_Diff)
  moreover have "snd (multi_session_close ss k s) = close_quiet ?f s" "term_q (close_quiet ?f s) = term_q s"
    by (simp_all add: multi_session_close_def case_prod_unfold)
  moreover have "inj_on (\<lambda>j. ms_fd (?ss ! j)) {j. j < m \<and> live ?ss j}"
    unfolding L using inj_on_subset [OF i Diff_subset] by (rule inj_on_cong [THEN iffD1, rotated]) (auto simp: n)
  moreover have "length ?ss = length ss" by (simp add: multi_session_close_def case_prod_unfold)
  moreover have "X \<union> fds_of m ?ss \<subseteq> set (open_fds (close_quiet ?f s))"
    using assms(1) dis unfolding F table_ok_def by auto
  ultimately show ?thesis using assms(1) F by (auto simp: table_ok_def)
qed

text \<open>A new descriptor in a free slot.\<close>

lemma table_join:
  assumes "table_ok m X s0 ss s" and "k < m" and "\<not> live ss k" and "ms_fd y \<notin> X \<union> fds_of m ss"
    and "owns (insert (ms_fd y) (X \<union> fds_of m ss)) {#} s0 s'"
    and "insert (ms_fd y) (X \<union> fds_of m ss) \<subseteq> set (open_fds s')" and "term_q s' = term_q s"
  shows "table_ok m X s0 (ss[k := y]) s'"
proof -
  have k: "k < length ss" using assms(1,2) by (auto simp: table_ok_def)
  have f: "0 \<le> ms_fd y" using assms(5) by (simp add: owns_def)
  have n: "ms_fd (ss[k := y] ! j) = (if j = k then ms_fd y else ms_fd (ss ! j))" for j using k by simp
  have L: "{j. j < m \<and> live (ss[k := y]) j} = insert k {j. j < m \<and> live ss j}"
    using assms(2,3) f k by (auto simp: live_def nth_list_update)
  have nk: "k \<notin> {j. j < m \<and> live ss j}" using assms(3) by simp
  have e: "(\<lambda>j. ms_fd (ss[k := y] ! j)) ` {j. j < m \<and> live ss j} = fds_of m ss"
    unfolding fds_of_def using assms(3) by (intro image_cong) (auto simp: n)
  have F: "fds_of m (ss[k := y]) = insert (ms_fd y) (fds_of m ss)"
    unfolding fds_of_def [of m "ss[k := y]"] L using e k by simp
  have "inj_on (\<lambda>j. ms_fd (ss[k := y] ! j)) (insert k {j. j < m \<and> live ss j})"
  proof (subst inj_on_insert, intro conjI)
    show "inj_on (\<lambda>j. ms_fd (ss[k := y] ! j)) {j. j < m \<and> live ss j}"
    proof -
      have "inj_on (\<lambda>j. ms_fd (ss[k := y] ! j)) {j. j < m \<and> live ss j} = inj_on (\<lambda>j. ms_fd (ss ! j)) {j. j < m \<and> live ss j}"
        using assms(3) by (intro inj_on_cong) (auto simp: n)
      with assms(1) show ?thesis by (simp add: table_ok_def)
    qed
    show "ms_fd (ss[k := y] ! k) \<notin> (\<lambda>j. ms_fd (ss[k := y] ! j)) ` ({j. j < m \<and> live ss j} - {k})"
      unfolding Diff_insert_absorb [OF nk, simplified] using e k assms(4) nk by simp
  qed
  with assms show ?thesis unfolding table_ok_def L F by (auto simp: Un_commute)
qed

section \<open>Commands\<close>

definition kept :: "nat \<Rightarrow> fd set \<Rightarrow> sys \<Rightarrow> console \<times> sys \<Rightarrow> bool" where
  "kept m X s0 r = table_ok m X s0 (sessions (fst r)) (snd r)"

lemma kept_pair [table]: "kept m X s0 (c, s) = table_ok m X s0 (sessions c) s"
  by (simp add: kept_def)

lemma kept_prompt [table]: "kept m X s0 (prompt r) = kept m X s0 r"
  by (simp add: kept_def prompt_def table)

lemma find_slot: "multi_find_by_id ss m i = Some k \<Longrightarrow> k < m \<and> live ss k \<and> ms_id (ss ! k) = i"
  by (auto simp: multi_find_by_id_def find_Some_iff)

lemma named_slot: "named_session m a c = Some (k, i, t) \<Longrightarrow> k < m \<and> live (sessions c) k \<and> ms_id (sessions c ! k) = i"
  by (auto simp: named_session_def split: option.splits prod.splits dest: find_slot)

lemma send_to_same:
  assumes "send_to k b ss s = (rc, ss1, s1)"
  shows "map ms_fd ss1 = map ms_fd ss" and "live ss1 j = live ss j" and "rest_of K s1 = rest_of K s"
    and "ms_fd (ss1 ! j) = ms_fd (ss ! j)" and "ms_id (ss1 ! j) = ms_id (ss ! j)"
proof -
  obtain r y u where l: "multi_send_line (ss ! k) b s = (r, y, u)" using prod_cases3 by blast
  then have y: "ms_fd y = ms_fd (ss ! k)" "ms_id y = ms_id (ss ! k)"
    by (auto simp: multi_send_line_def Let_def split: if_splits prod.splits)
  have u: "rest_of K u = rest_of K s"
    using l rest_write [of K "ms_fd (ss ! k)" b s] by (auto simp: multi_send_line_def Let_def split: if_splits prod.splits)
  have r: "ss1 = ss[k := y]" "s1 = u" using assms l by (auto simp: send_to_def)
  show "map ms_fd ss1 = map ms_fd ss"
    using y(1) unfolding r by (metis list_update_beyond list_update_id map_update not_le)
  show "rest_of K s1 = rest_of K s" using u r by simp
  show d: "ms_fd (ss1 ! j) = ms_fd (ss ! j)" "ms_id (ss1 ! j) = ms_id (ss ! j)" using y unfolding r by (metis list_update_beyond not_le nth_list_update)+
  from d show "live ss1 j = live ss j" by (simp add: live_def)
qed

lemma table_send: "send_to k b ss s = (rc, ss1, s1) \<Longrightarrow> table_ok m X s0 ss1 s1 = table_ok m X s0 ss s"
  using table_cong [OF send_to_same(1)] table_rest [OF send_to_same(3)] by metis

lemma kept_close_session:
  "table_ok m X s0 (sessions c) s \<Longrightarrow> k < m \<Longrightarrow> live (sessions c) k \<Longrightarrow> kept m X s0 (close_session m k i c s)"
  using table_close [of m X s0 "sessions c" s k] by (simp add: kept_def close_session_def case_prod_unfold Let_def)

lemma kept_simple:
  assumes "table_ok m X s0 (sessions c) s"
  shows "kept m X s0 (multi_set_active_session m i c s)" "kept m X s0 (cmd_use m a c s)"
    "kept m X s0 (cmd_attach m arg c s)" "kept m X s0 (cmd_info m arg c s)" "kept m X s0 (cmd_rename m a c s)"
  using assms
  by (auto simp: multi_set_active_session_def cmd_use_def cmd_attach_def cmd_info_def cmd_rename_def Let_def table
      table_update split: option.splits)

lemma kept_kill:
  assumes "table_ok m X s0 (sessions c) s"
  shows "kept m X s0 (cmd_kill m a c s)"
proof (cases "named_session m a c")
  case (Some x)
  then obtain k i t where n: "named_session m a c = Some (k, i, t)" by (cases x) auto
  obtain c1 s1 where cl: "close_session m k i c s = (c1, s1)" by force
  have "table_ok m X s0 (sessions c1) s1"
    using kept_close_session [OF assms, of k i] named_slot [OF n] by (simp add: cl table)
  then show ?thesis by (simp add: cmd_kill_def n cl Let_def table)
qed (use assms in \<open>simp add: cmd_kill_def table\<close>)

lemma kept_send:
  assumes "table_ok m X s0 (sessions c) s"
  shows "kept m X s0 (cmd_send m a c s)"
proof (cases "\<exists>k i t. named_session m a c = Some (k, i, t) \<and> t \<noteq> []")
  case True
  then obtain k i t where n: "named_session m a c = Some (k, i, t)" "t \<noteq> []" by blast
  note sl = named_slot [OF n(1)]
  obtain r1 ss1 s1 where 1: "send_to k t (sessions c) s = (r1, ss1, s1)" using prod_cases3 by blast
  obtain r2 ss2 s2 where 2: "(if r1 < 0 then (r1, ss1, s1) else send_to k nl ss1 s1) = (r2, ss2, s2)"
    using prod_cases3 by blast
  have t1: "table_ok m X s0 ss1 s1" using table_send [OF 1] assms by simp
  have t2: "table_ok m X s0 ss2 s2 \<and> live ss2 k"
  proof (cases "r1 < 0")
    case True
    with 2 t1 sl send_to_same(2) [OF 1] show ?thesis by simp
  next
    case False
    with 2 have "send_to k nl ss1 s1 = (r2, ss2, s2)" by simp
    with table_send [OF this] t1 sl send_to_same(2) [OF 1] send_to_same(2) [OF this] show ?thesis by simp
  qed
  have "kept m X s0 (close_session m k i (c\<lparr>sessions := ss2\<rparr>) (report_error ''send failed'' s2))"
    using t2 sl by (intro kept_close_session) (simp_all add: table)
  with t2 show ?thesis by (simp add: cmd_send_def n 1 2 table)
qed (use assms in \<open>auto simp: cmd_send_def table split: option.splits\<close>)

lemma kept_all:
  assumes "table_ok m X s0 (sessions c) s"
  shows "kept m X s0 (cmd_all m b c s)"
proof -
  have "table_ok m X s0 (fst u) (snd u) \<Longrightarrow> set ks \<subseteq> {..<m} \<Longrightarrow>
      table_ok m X s0 (fst (fold (broadcast_to b) ks u)) (snd (fold (broadcast_to b) ks u))" for ks u
  proof (induction ks arbitrary: u)
    case (Cons k ks)
    obtain ss v where u: "u = (ss, v)" by force
    have "table_ok m X s0 (fst (broadcast_to b k u)) (snd (broadcast_to b k u))"
    proof (cases "live ss k")
      case True
      obtain rc ss1 s1 where 1: "send_to k b ss v = (rc, ss1, s1)" using prod_cases3 by blast
      have "table_ok m X s0 ss1 s1" "live ss1 k" "k < m"
        using table_send [OF 1] send_to_same(2) [OF 1] True Cons.prems u by simp_all
      moreover from this have "table_ok m X s0 ss1 (wcat_log WCAT_LOG_WARN e t s1)" for e t by (simp add: table)
      ultimately show ?thesis using True by (simp add: broadcast_to_def u 1 Let_def table_close)
    qed (use Cons.prems in \<open>simp add: broadcast_to_def u\<close>)
    with Cons show ?case by simp
  qed simp
  from this [of "(sessions c, s)" "[0..<m]"] assms show ?thesis
    by (simp add: cmd_all_def multi_broadcast_def case_prod_unfold Let_def table lessThan_atLeast0)
qed

lemma kept_plain:
  assumes "table_ok m X s0 (sessions c) s"
  shows "kept m X s0 (plain_line m b c s)"
proof (cases "active c \<noteq> 0 \<and> multi_find_by_id (sessions c) m (active c) \<noteq> None")
  case True
  then obtain k where n: "multi_find_by_id (sessions c) m (active c) = Some k" by blast
  note sl = find_slot [OF n]
  obtain rc ss1 s1 where 1: "send_to k b (sessions c) s = (rc, ss1, s1)" using prod_cases3 by blast
  have t1: "table_ok m X s0 ss1 s1" "live ss1 k" using table_send [OF 1] send_to_same(2) [OF 1] assms sl by simp_all
  then have "table_ok m X s0 ss1 (report_error ''active session unavailable'' s1)" by (simp add: table)
  from table_close [OF this _ t1(2)] sl t1 True show ?thesis
    by (simp add: plain_line_def n 1 Let_def table case_prod_unfold)
qed (use assms in \<open>auto simp: plain_line_def table split: option.splits\<close>)

lemma kept_line: "table_ok m X s0 (sessions c) s \<Longrightarrow> kept m X s0 (multi_handle_input_line m line c s)"
  by (simp add: multi_handle_input_line_def colon_command_def Let_def table kept_simple kept_kill kept_send kept_all kept_plain)

end
