(* ===== verification/Wcat_Console_Run.thy ===== *)
theory Wcat_Console_Run
  imports Wcat_Table
begin

text \<open>
  The rest of the accounting of \<open>listen --multi\<close>: input, attached session, events, loop. A run
  leaves open what was open before and gives the terminal back.
\<close>

section \<open>Input\<close>

definition kept3 :: "nat \<Rightarrow> fd set \<Rightarrow> sys \<Rightarrow> 'a \<times> console \<times> sys \<Rightarrow> bool" where
  "kept3 m X s0 r = kept m X s0 (snd r)"

lemma kept3_triple [table]: "kept3 m X s0 (e, c, s) = table_ok m X s0 (sessions c) s"
  by (simp add: kept3_def table)

lemma table_read: "read_retry fd n s = (r, s1) \<Longrightarrow> table_ok m X s0 ss s1 = table_ok m X s0 ss s"
  using table_rest [of s1 s] rest_read [of "{}" fd n s] by simp

lemma kept_input_lines: "table_ok m X s0 (sessions c) s \<Longrightarrow> kept3 m X s0 (input_lines m l xs c s)"
proof (induction m l xs c s rule: input_lines.induct)
  case (1 m line c s)
  then show ?case using kept_line [OF 1] by (simp add: kept3_def kept_def case_prod_unfold)
next
  case (2 m line x xs c s)
  show ?case
  proof (cases "x = CHR 0x0A")
    case True
    obtain c1 s1 where h: "multi_handle_input_line m (line @ [x]) c s = (c1, s1)" by force
    have "table_ok m X s0 (sessions c1) s1" using kept_line [OF 2(3), of "line @ [x]"] by (simp add: h table)
    from 2(1) [OF True refl h [symmetric] this] True h show ?thesis by simp
  next
    case False
    with 2(2) [OF False 2(3)] show ?thesis by simp
  qed
qed

lemma kept_stdin: "table_ok m X s0 (sessions c) s \<Longrightarrow> kept3 m X s0 (multi_handle_stdin m inp c s)"
proof -
  assume t: "table_ok m X s0 (sessions c) s"
  obtain r s1 where r: "read_retry 0 (WCAT_MULTI_INPUT - length inp) s = (r, s1)" by force
  have "table_ok m X s0 (sessions c) s1" using t table_read [OF r] by simp
  then show ?thesis
    by (cases r) (simp_all add: multi_handle_stdin_def r table kept_input_lines)
qed

lemma rest_keys [rest]:
  "rest_of K (snd (multi_history_load i up e s)) = rest_of K s"
  "rest_of K (snd (multi_handle_input_key i key e s)) = rest_of K s"
  "rest_of K (snd (escape_byte i ch e s)) = rest_of K s"
proof -
  show h: "rest_of K (snd (multi_history_load i up e s)) = rest_of K s" for up e
    by (simp add: multi_history_load_def Let_def rest)
  show k: "rest_of K (snd (multi_handle_input_key i key e s)) = rest_of K s" for key e
    by (simp add: multi_handle_input_key_def Let_def rest h)
  show "rest_of K (snd (escape_byte i ch e s)) = rest_of K s"
    by (simp add: escape_byte_def Let_def k)
qed

lemma kept_editor_byte:
  assumes "table_ok m X s0 (sessions c) s"
  shows "kept3 m X s0 (editor_byte m ch e c s)"
proof -
  have e: "kept3 m X s0 (e1, c, snd (escape_byte (active c) ch e s))" for e1 :: editor
    using assms table_rest [of "snd (escape_byte (active c) ch e s)" s] by (simp add: table rest)
  have "kept3 m X s0 (enter_line m e c s)"
    using kept_line [of m X s0 c "eprint nl s"] assms by (simp add: enter_line_def Let_def case_prod_unfold kept3_def kept_def table)
  with e assms show ?thesis by (simp add: editor_byte_def case_prod_unfold Let_def table)
qed

lemma kept_editor_bytes: "table_ok m X s0 (sessions c) s \<Longrightarrow> kept3 m X s0 (editor_bytes m b e c s)"
proof (induction b arbitrary: e c s)
  case (Cons ch b)
  obtain e1 c1 s1 where h: "editor_byte m ch e c s = (e1, c1, s1)" using prod_cases3 by blast
  with kept_editor_byte [OF Cons.prems, of ch e] Cons.IH show ?case by (simp add: table)
qed (simp add: table)

lemma kept_interactive: "table_ok m X s0 (sessions c) s \<Longrightarrow> kept3 m X s0 (multi_handle_interactive_stdin m e c s)"
proof -
  assume t: "table_ok m X s0 (sessions c) s"
  obtain r s1 where r: "read_retry 0 128 s = (r, s1)" by force
  have "table_ok m X s0 (sessions c) s1" using t table_read [OF r] by simp
  then show ?thesis
    by (cases r) (simp_all add: multi_handle_interactive_stdin_def r table kept_editor_bytes)
qed

section \<open>The attached session\<close>

lemma kept_type_out: "table_ok m X s0 (sessions c) s \<Longrightarrow> kept3 m X s0 (type_out k b t c s)"
proof -
  assume t: "table_ok m X s0 (sessions c) s"
  obtain rc ss1 s1 where 1: "send_to k b (sessions c) s = (rc, ss1, s1)" using prod_cases3 by blast
  with table_send [OF 1] t show ?thesis by (simp add: type_out_def table)
qed

lemma kept_detach: "table_ok m X s0 (sessions c) s \<Longrightarrow> kept3 m X s0 (detach t c s)"
  by (simp add: detach_def table)

lemma kept_erase: "table_ok m X s0 (sessions c) s \<Longrightarrow> kept3 m X s0 (attached_erase k ch t c s)"
  using kept_type_out [of m X s0 c s k "[ch]"]
  by (simp add: attached_erase_def Let_def case_prod_unfold table kept3_def kept_def)

lemma kept_enter:
  assumes "table_ok m X s0 (sessions c) s"
  shows "kept3 m X s0 (attached_enter k t c s)"
proof -
  obtain t1 c1 s1 where 1: "(if ty_held t \<and> ty_line t \<noteq> [] then type_out k (ty_line t) t c s else (t, c, s)) = (t1, c1, s1)"
    using prod_cases3 by blast
  have a: "table_ok m X s0 (sessions c1) s1"
    using 1 kept_type_out [OF assms, of k "ty_line t" t] assms by (simp add: table split: if_splits)
  obtain t2 c2 s2 where 2: "type_out k nl (t1\<lparr>ty_line := [], ty_held := True\<rparr>) c1 s1 = (t2, c2, s2)"
    using prod_cases3 by blast
  have "table_ok m X s0 (sessions c2) s2"
    using kept_type_out [OF a, of k nl "t1\<lparr>ty_line := [], ty_held := True\<rparr>"] by (simp add: 2 table)
  then show ?thesis using assms by (simp add: attached_enter_def 1 2 table kept_detach)
qed

lemma kept_char:
  assumes "table_ok m X s0 (sessions c) s"
  shows "kept3 m X s0 (attached_char k ch t c s)"
proof -
  have o: "table_ok m X s0 (sessions (fst (snd (type_out k b tt c s)))) (snd (snd (type_out k b tt c s)))" for b tt
    using kept_type_out [OF assms, of k b tt] by (simp add: kept3_def kept_def)
  show ?thesis using assms o by (simp add: attached_char_def Let_def case_prod_unfold table)
qed

lemma kept_attached_bytes: "table_ok m X s0 (sessions c) s \<Longrightarrow> kept3 m X s0 (attached_bytes k b t c s)"
proof (induction b arbitrary: t c s)
  case (Cons ch b)
  obtain t1 c1 s1 where h: "attached_byte k ch t c s = (t1, c1, s1)" using prod_cases3 by blast
  have "kept3 m X s0 (attached_byte k ch t c s)"
    using Cons.prems by (simp add: attached_byte_def kept_detach kept_erase kept_enter kept_char)
  with h Cons.IH show ?case by (simp add: table)
qed (simp add: table)

lemma kept_attached: "table_ok m X s0 (sessions c) s \<Longrightarrow> kept3 m X s0 (multi_handle_attached_stdin m t c s)"
proof -
  assume t: "table_ok m X s0 (sessions c) s"
  obtain r s1 where r: "read_retry 0 512 s = (r, s1)" by force
  have "table_ok m X s0 (sessions c) s1" using t table_read [OF r] by simp
  then show ?thesis using t
    by (cases r)
      (simp_all add: multi_handle_attached_stdin_def r table Let_def kept_attached_bytes split: option.split)
qed

section \<open>Events\<close>

definition multi_kept :: "nat \<Rightarrow> fd set \<Rightarrow> sys \<Rightarrow> multi \<times> sys \<Rightarrow> bool" where
  "multi_kept m X s0 r = table_ok m X s0 (multi_sessions (fst r)) (snd r)"

lemma multi_kept_pair [table]: "multi_kept m X s0 (x, s) = table_ok m X s0 (multi_sessions x) s"
  by (simp add: multi_kept_def)

lemma multi_sessions_simps [simp]:
  "multi_sessions (x\<lparr>mu_console := c\<rparr>) = sessions c" "multi_sessions (x\<lparr>mu_typing := t\<rparr>) = multi_sessions x"
  "multi_sessions (x\<lparr>mu_editor := e\<rparr>) = multi_sessions x" "multi_sessions (x\<lparr>mu_line := l\<rparr>) = multi_sessions x"
  "multi_sessions (x\<lparr>next_id := i\<rparr>) = multi_sessions x" "multi_sessions (x\<lparr>mu_result := r\<rparr>) = multi_sessions x"
  by (simp_all add: multi_sessions_def)

lemma kept_multi_input: "table_ok m X s0 (multi_sessions x) s \<Longrightarrow> multi_kept m X s0 (multi_input m x s)"
  using kept_attached [of m X s0 "mu_console x" s "mu_typing x"] kept_interactive [of m X s0 "mu_console x" s "mu_editor x"]
    kept_stdin [of m X s0 "mu_console x" s "mu_line x"]
  by (simp add: multi_input_def Let_def case_prod_unfold table kept3_def kept_def multi_sessions_def)

text \<open>A connection is refused, or it goes to a free slot.\<close>

lemma kept_accept:
  assumes "table_ok m X s0 (multi_sessions x) s"
  shows "multi_kept m X s0 (multi_accept L cfg m l x s)"
proof -
  let ?ss = "multi_sessions x"
  obtain r s1 where a: "wcat_accept l s = (r, s1)" by force
  have o: "owns (X \<union> fds_of m ?ss) {#} s0 s" using assms by (simp add: table_ok_def)
  note o1 = owns_accept [OF o a]
  show ?thesis
  proof (cases r)
    case None
    with o1 assms wcat_accept_effect [OF a] wcat_accept_queue [OF a] show ?thesis by (simp add: multi_accept_def a table table_ok_def)
  next
    case (Some p)
    then obtain fd h q where x: "r = Some (fd, h, q)" by (cases p) auto
    have e: "fd \<notin> set (open_fds s)" "open_fds s1 = open_fds s @ [fd]" using wcat_accept_effect [OF a] by (simp_all add: x)
    obtain ok s2 where c: "wcat_access_check_fd L cfg fd s1 = (ok, s2)" by force
    have o2: "owns (insert fd (X \<union> fds_of m ?ss)) {#} s0 s2" using owns_access [OF o1 c] by (simp add: x)
    have opn: "open_fds s2 = open_fds s @ [fd]" using rest_open [OF rest_access [of "{}" L cfg fd s1]] e c by simp
    have tq: "term_q s2 = term_q s"
      using rest_fields(5) [OF rest_access [of "{}" L cfg fd s1]] c wcat_accept_queue [OF a] by simp
    have sub: "X \<union> fds_of m ?ss \<subseteq> set (open_fds s)" using assms by (simp add: table_ok_def)
    with e(1) have nw: "fd \<notin> X \<union> fds_of m ?ss" by blast
    have refuse: "table_ok m X s0 ?ss (close_quiet fd u)" if "rest_of {} u = rest_of {} s2" for u
    proof -
      have "owns (X \<union> fds_of m ?ss - {fd}) {#} s0 (close_quiet fd u)" by (rule owns_close [OF owns_io [OF o2 that]])
      then have "owns (X \<union> fds_of m ?ss) {#} s0 (close_quiet fd u)" using nw by simp
      moreover have "X \<union> fds_of m ?ss \<subseteq> set (open_fds (close_quiet fd u))"
        using sub nw opn rest_open [OF that] by auto
      ultimately show ?thesis using assms tq rest_fields(5) [OF that] by (simp add: table_ok_def)
    qed
    have "multi_kept m X s0 (join_session k fd h q x s2)" if k: "k < m" "\<not> live ?ss k" for k
    proof -
      have "table_ok m X s0 (?ss[k := y]) s2" if "ms_fd y = fd" for y
        using table_join [OF assms k, of y s2] nw o2 sub opn tq that by auto
      then show ?thesis by (simp add: join_session_def Let_def table multi_sessions_def)
    qed
    then show ?thesis
      using refuse [of s2] refuse [of "wcat_log WCAT_LOG_WARN ''multi_full'' ''multi session limit reached'' s2"]
      by (auto simp: multi_accept_def a x c table rest find_Some_iff split: option.split)
  qed
qed

text \<open>The events of one session.\<close>

lemma kept_drop:
  assumes "table_ok m X s0 (sessions c) s" and "k < m" and "live (sessions c) k"
  shows "kept m X s0 (drop_session m k c s)"
proof -
  have "table_ok m X s0 (sessions c) (wcat_log WCAT_LOG_INFO e t s)" for e t using assms(1) by (simp add: table)
  from table_close [OF this assms(2,3)] show ?thesis by (simp add: drop_session_def case_prod_unfold Let_def table)
qed

lemma kept_left:
  assumes "table_ok m X s0 (multi_sessions x) s" and "k < m" and "live (multi_sessions x) k"
  shows "multi_kept m X s0 (session_left m k x s)"
proof -
  let ?c = "if attached (mu_console x) = ms_id (sessions (mu_console x) ! k) then mu_console x\<lparr>attached := 0\<rparr> else mu_console x"
  have "kept m X s0 (drop_session m k ?c s)"
    using assms by (intro kept_drop) (simp_all add: multi_sessions_def)
  then show ?thesis by (simp add: session_left_def Let_def case_prod_unfold kept_def table)
qed

lemma rest_labelled: "rest_of K (snd (snd (write_labelled y b s))) = rest_of K s"
  and fd_labelled: "ms_fd (fst (snd (write_labelled y b s))) = ms_fd y"
proof (induction "length b" arbitrary: y b s rule: less_induct)
  case less
  let ?body = "takeWhile (\<lambda>c. c \<noteq> CHR 0x0A) b"
  have n: "drop (length ?body) b = []" if "\<not> length ?body < length b" using that by simp
  case 1
  show ?case
  proof (cases "b = []")
    case False
    then have d: "length (drop (length (?body @ nl)) b) < length b" by (simp add: nl_def)
    show ?thesis
      by (subst write_labelled.simps) (use less(1) [OF d] n in \<open>simp add: case_prod_unfold Let_def rest\<close>)
  qed simp
  case 2
  show ?case
  proof (cases "b = []")
    case False
    then have d: "length (drop (length (?body @ nl)) b) < length b" by (simp add: nl_def)
    show ?thesis
      by (subst write_labelled.simps) (use less(2) [OF d] n in \<open>simp add: case_prod_unfold Let_def\<close>)
  qed simp
qed

lemma rest_attached_output: "rest_of K (snd (snd (attached_output b p s))) = rest_of K s"
  by (induction b arbitrary: p s) (simp_all add: case_prod_unfold Let_def rest)

lemma kept_output:
  assumes "session_output k b x s = (rc, x1, s1)"
  shows "table_ok m X s0 (multi_sessions x1) s1 = table_ok m X s0 (multi_sessions x) s"
    and "live (multi_sessions x1) k = live (multi_sessions x) k"
proof -
  let ?y = "sessions (mu_console x) ! k"
  have a: "ms_fd (fst (snd (multi_write_attached_output y b p s))) = ms_fd y"
    "rest_of K (snd (snd (snd (multi_write_attached_output y b p s)))) = rest_of K s" for y p K
    by (simp_all add: multi_write_attached_output_def case_prod_unfold Let_def rest_attached_output)
  have l: "ms_fd (fst (snd (multi_write_output y b False s))) = ms_fd y"
    "rest_of K (snd (snd (multi_write_output y b False s))) = rest_of K s" for y K
    by (simp_all add: multi_write_output_def rest_labelled fd_labelled)
  obtain y where y: "multi_sessions x1 = (multi_sessions x)[k := y]" "ms_fd y = ms_fd ?y" "rest_of {} s1 = rest_of {} s"
    using assms a l by (auto simp: session_output_def Let_def case_prod_unfold multi_sessions_def split: if_splits)
  show "table_ok m X s0 (multi_sessions x1) s1 = table_ok m X s0 (multi_sessions x) s"
    using table_rest [OF y(3)] table_update [of y "multi_sessions x" k] y(1,2) by (simp add: multi_sessions_def)
  show "live (multi_sessions x1) k = live (multi_sessions x) k"
    using y(1,2) by (cases "k < length (multi_sessions x)") (simp_all add: live_def multi_sessions_def list_update_beyond not_less)
qed

lemma kept_count [table]:
  "table_ok m X s0 (multi_sessions (count_received k b x)) s = table_ok m X s0 (multi_sessions x) s"
  "live (multi_sessions (count_received k b x)) j = live (multi_sessions x) j"
proof -
  show "table_ok m X s0 (multi_sessions (count_received k b x)) s = table_ok m X s0 (multi_sessions x) s"
    by (simp add: count_received_def Let_def table_update multi_sessions_def)
  show "live (multi_sessions (count_received k b x)) j = live (multi_sessions x) j"
    by (cases "k < length (multi_sessions x)"; cases "j = k")
      (simp_all add: live_def count_received_def Let_def multi_sessions_def list_update_beyond not_less)
qed

lemma kept_http_closed:
  assumes "table_ok m X s0 (multi_sessions x) s" and "k < m" and "live (multi_sessions x) k"
  shows "multi_kept m X s0 (http_closed m k x s)"
proof -
  have "kept m X s0 (drop_session m k (mu_console x) s)" using assms by (intro kept_drop) (simp_all add: multi_sessions_def)
  then show ?thesis by (simp add: http_closed_def Let_def case_prod_unfold kept_def table)
qed

definition multi_kept3 :: "nat \<Rightarrow> fd set \<Rightarrow> sys \<Rightarrow> bool \<times> multi \<times> sys \<Rightarrow> bool" where
  "multi_kept3 m X s0 r = multi_kept m X s0 (snd r)"

lemma multi_kept3_pair [table]: "multi_kept3 m X s0 (b, r) = multi_kept m X s0 r"
  by (simp add: multi_kept3_def)

lemma kept_failed [table]: "multi_kept m X s0 (output_failed x s) = table_ok m X s0 (multi_sessions x) s"
  by (simp add: output_failed_def table)

lemma kept_readable:
  assumes "table_ok m X s0 (multi_sessions x) s" and "k < m" and "live (multi_sessions x) k"
  shows "multi_kept3 m X s0 (session_readable cfg m k x s)"
proof -
  obtain r s1 where r: "read_retry (ms_fd (multi_sessions x ! k)) 4096 s = (r, s1)" by force
  have t: "table_ok m X s0 (multi_sessions x) s1" using assms(1) table_read [OF r] by simp
  have d: "multi_kept3 m X s0 (session_data cfg k b x s1)" for b
  proof -
    let ?x = "count_received k b x"
    obtain rc x1 s3 where o: "session_output k b ?x
        (if interactive ?x \<and> attached (mu_console ?x) = 0 then eprint clear_line (hexdump_if cfg b s1) else hexdump_if cfg b s1)
        = (rc, x1, s3)" using prod_cases3 by blast
    have "table_ok m X s0 (multi_sessions x1) s3" using t kept_output(1) [OF o, of m X s0] by (simp add: table split: if_splits)
    then show ?thesis by (simp add: session_data_def o Let_def table)
  qed
  have h: "multi_kept3 m X s0 (http_session cfg m k b x s1)" for b
  proof -
    let ?x = "count_received k b x"
    obtain rc x1 s3 where o: "session_output k b ?x
        (hexdump_if cfg b (if interactive x \<and> attached (mu_console x) = 0 then eprint clear_line s1 else s1))
        = (rc, x1, s3)" using prod_cases3 by blast
    define x2 where "x2 = (if attached (mu_console x) = ms_id (multi_sessions x ! k)
      then x1\<lparr>mu_console := (mu_console x1)\<lparr>attached := 0\<rparr>\<rparr> else x1)"
    have e: "multi_sessions x2 = multi_sessions x1" by (simp add: x2_def multi_sessions_def)
    have "table_ok m X s0 (multi_sessions x2) s3" "live (multi_sessions x2) k"
      using t assms(3) kept_output(1) [OF o, of m X s0] kept_output(2) [OF o] unfolding e by (simp_all add: table split: if_splits)
    then have "multi_kept m X s0 (http_closed m k x2 s3)" "multi_kept m X s0 (output_failed x2 s3)"
      using assms(2) by (simp_all add: kept_http_closed table)
    then show ?thesis by (simp add: http_session_def o x2_def [symmetric] Let_def table)
  qed
  show ?thesis using d h kept_left [OF t assms(2,3)] by (simp add: session_readable_def r Let_def table)
qed

lemma kept_service:
  assumes "table_ok m X s0 (multi_sessions x) s" and "k < m"
  shows "multi_kept3 m X s0 (session_service cfg m revs k x s)"
  using assms by (simp add: session_service_def table kept_left kept_readable split: option.split)

lemma kept_services:
  "table_ok m X s0 (multi_sessions x) s \<Longrightarrow> set ks \<subseteq> {..<m} \<Longrightarrow> multi_kept m X s0 (session_services cfg m revs ks x s)"
proof (induction ks arbitrary: x s)
  case (Cons k ks)
  obtain go x1 s1 where h: "session_service cfg m revs k x s = (go, x1, s1)" using prod_cases3 by blast
  with kept_service [OF Cons.prems(1), of k cfg revs] Cons show ?case by (simp add: table)
qed (simp add: table)

lemma kept_pass:
  assumes "table_ok m X s0 (multi_sessions x) s"
  shows "multi_kept m X s0 (multi_pass L cfg m l revs x s)"
proof -
  obtain x1 s1 where 1: "(if POLLIN \<in> revs ! 0 then multi_accept L cfg m l x s else (x, s)) = (x1, s1)" by force
  have t1: "table_ok m X s0 (multi_sessions x1) s1"
    using kept_accept [OF assms, of L cfg l] assms 1 by (simp add: table split: if_splits)
  obtain x2 s2 where 2: "(if POLLIN \<in> revs ! 1 then multi_input m x1 s1 else (x1, s1)) = (x2, s2)" by force
  have "table_ok m X s0 (multi_sessions x2) s2" using kept_multi_input [OF t1] t1 2 by (simp add: table split: if_splits)
  then have "multi_kept m X s0 (session_services cfg m p [0..<m] x2 s2)" for p
    by (simp add: kept_services lessThan_atLeast0)
  then show ?thesis unfolding multi_pass_def Let_def 1 prod.case 2 .
qed

lemma kept_loop: "table_ok m X s0 (multi_sessions x) s \<Longrightarrow> multi_kept m X s0 (multi_loop L cfg m l x s)"
proof (induction L cfg m l x s rule: multi_loop.induct)
  case (1 L cfg m l x s)
  obtain stop u where o: "observe_stop s = (stop, u)" by force
  obtain rc revs s1 where p: "sys_poll (multi_pollfds m l (multi_sessions x)) u = (rc, revs, s1)" using prod_cases3 by blast
  obtain x1 s2 where ps: "multi_pass L cfg m l revs x s1 = (x1, s2)" by force
  have "rest_of {} u = rest_of {} s" "rest_of {} s1 = rest_of {} s" using rest_stop [OF o] rest_poll1 [OF p] by simp_all
  with 1(4) have tu: "table_ok m X s0 (multi_sessions x) u" and t1: "table_ok m X s0 (multi_sessions x) s1"
    using table_rest [of u s] table_rest [of s1 s] by simp_all
  have t2: "table_ok m X s0 (multi_sessions x1) s2" using kept_pass [OF t1, of L cfg l revs] ps by (simp add: table)
  have f: "table_ok m X s0 (multi_sessions (x\<lparr>mu_result := 1\<rparr>)) (wcat_log_errno e t s1)" for e t using t1 by (simp add: table)
  note run = multi_loop.simps [of L cfg m l x s, unfolded o p prod.case Let_def]
  note IH = "1.IH" [OF o [symmetric] refl _ p [symmetric] refl refl]
  consider (stop) stop | (intr) "\<not> stop" "rc < 0" "errno_of s1 = EINTR" | (err) "\<not> stop" "rc < 0" "errno_of s1 \<noteq> EINTR"
    | (idle) "\<not> stop" "rc = 0" | (pass) "\<not> stop" "\<not> rc < 0" "rc \<noteq> 0"
    by linarith
  then show ?case
  proof cases
    case stop
    then show ?thesis unfolding run using tu by (simp add: multi_kept_pair)
  next
    case intr
    then show ?thesis unfolding run using IH(1) t1 by simp
  next
    case err
    then show ?thesis unfolding run using f by (simp add: multi_kept_pair)
  next
    case idle
    then show ?thesis unfolding run using IH(2) t1 by simp
  next
    case pass
    then show ?thesis unfolding run ps prod.case using IH(3) ps t2 by simp
  qed
qed

section \<open>A run\<close>

lemma close_live_kept:
  "table_ok m X s0 (fst u) (snd u) \<Longrightarrow> k < m \<Longrightarrow>
     table_ok m X s0 (fst (close_live k u)) (snd (close_live k u)) \<and> \<not> live (fst (close_live k u)) k"
proof -
  assume t: "table_ok m X s0 (fst u) (snd u)" and k: "k < m"
  then have "k < length (fst u)" by (simp add: table_ok_def)
  with t k table_close [OF t k] show ?thesis
    by (auto simp: close_live_def live_def multi_session_close_def case_prod_unfold)
qed

lemma close_live_others: "\<not> live (fst u) j \<Longrightarrow> \<not> live (fst (close_live k u)) j"
  by (auto simp: close_live_def live_def multi_session_close_def case_prod_unfold nth_list_update)
    (metis list_update_beyond not_le nth_list_update_eq nth_list_update_neq multi_session.select_convs(1) wcat_close_quiet_result
      not_numeral_le_zero neg_0_le_iff_le zero_le_one not_one_le_zero)

lemma close_all:
  "table_ok m X s0 (fst u) (snd u) \<Longrightarrow> set ks \<subseteq> {..<m} \<Longrightarrow>
     table_ok m X s0 (fst (fold close_live ks u)) (snd (fold close_live ks u))
     \<and> (\<forall>k. k \<in> set ks \<or> \<not> live (fst u) k \<longrightarrow> \<not> live (fst (fold close_live ks u)) k)"
proof (induction ks arbitrary: u)
  case (Cons k ks)
  have k: "k < m" using Cons.prems by simp
  note c = close_live_kept [OF Cons.prems(1) k]
  from Cons.IH [of "close_live k u"] c Cons.prems(2) close_live_others [of u] show ?case by auto
qed simp

lemma terminal_effect:
  assumes "multi_terminal s = (raw, s1)"
  shows "open_fds s1 = open_fds s \<and> children s1 = children s \<and> (raw \<longrightarrow> term_raw s1) \<and> (\<not> raw \<longrightarrow> term_raw s1 = term_raw s)
    \<and> suffix (term_q s1) (term_q s)"
  using assms
  by (auto simp: multi_terminal_def sys_tcgetattr_def sys_tcsetattr_def suffix_def split: if_splits list.splits)

text \<open>The result of the loop is 0 until something fails, then 1.\<close>

lemma result_input [simp]: "mu_result (fst (multi_input m x s)) = mu_result x"
  by (simp add: multi_input_def case_prod_unfold Let_def)

lemma result_accept [simp]: "mu_result (fst (multi_accept L cfg m l x s)) = mu_result x"
  by (simp add: multi_accept_def join_session_def case_prod_unfold Let_def split: option.split)

lemma result_output: "session_output k b x s = (rc, x1, s1) \<Longrightarrow> mu_result x1 = mu_result x"
  by (auto simp: session_output_def case_prod_unfold Let_def split: if_splits)

lemma result_service: "mu_result (fst (snd (session_service cfg m revs k x s))) \<in> {1, mu_result x}"
proof -
  have l: "mu_result (fst (session_left m k x s)) = mu_result x" "mu_result (fst (http_closed m k x s)) = mu_result x"
    "mu_result (count_received k b x) = mu_result x" "mu_result (fst (output_failed x s)) = 1" for x s b
    by (simp_all add: session_left_def http_closed_def count_received_def output_failed_def case_prod_unfold Let_def)
  have d: "mu_result (fst (snd (session_data cfg k b x s))) \<in> {1, mu_result x}" for b s
  proof -
    let ?x = "count_received k b x"
    obtain rc x1 s3 where o: "session_output k b ?x
        (if interactive ?x \<and> attached (mu_console ?x) = 0 then eprint clear_line (hexdump_if cfg b s) else hexdump_if cfg b s)
        = (rc, x1, s3)" using prod_cases3 by blast
    show ?thesis using result_output [OF o] by (simp add: session_data_def o l Let_def)
  qed
  have h: "mu_result (fst (snd (http_session cfg m k b x s))) \<in> {1, mu_result x}" for b s
  proof -
    let ?x = "count_received k b x"
    obtain rc x1 s3 where o: "session_output k b ?x
        (hexdump_if cfg b (if interactive x \<and> attached (mu_console x) = 0 then eprint clear_line s else s))
        = (rc, x1, s3)" using prod_cases3 by blast
    show ?thesis using result_output [OF o] by (simp add: http_session_def o l Let_def)
  qed
  obtain r s1 where r: "read_retry (ms_fd (multi_sessions x ! k)) 4096 s = (r, s1)" by force
  have "mu_result (fst (snd (session_readable cfg m k x s))) \<in> {1, mu_result x}"
    using d h by (simp add: session_readable_def r l Let_def)
  then show ?thesis by (simp add: session_service_def l split: option.split)
qed

lemma result_services: "mu_result (fst (session_services cfg m revs ks x s)) \<in> {1, mu_result x}"
proof (induction ks arbitrary: x s)
  case (Cons k ks)
  obtain go x1 s1 where h: "session_service cfg m revs k x s = (go, x1, s1)" using prod_cases3 by blast
  have "mu_result x1 \<in> {1, mu_result x}" using result_service [of cfg m revs k x s] by (simp add: h)
  with Cons [of x1 s1] show ?case by (auto simp: h)
qed simp

lemma result_pass: "mu_result (fst (multi_pass L cfg m l revs x s)) \<in> {1, mu_result x}"
proof -
  obtain x1 s1 where 1: "(if POLLIN \<in> revs ! 0 then multi_accept L cfg m l x s else (x, s)) = (x1, s1)" by force
  obtain x2 s2 where 2: "(if POLLIN \<in> revs ! 1 then multi_input m x1 s1 else (x1, s1)) = (x2, s2)" by force
  have "mu_result x1 = mu_result x" using 1 result_accept [of L cfg m l x s] by (cases "POLLIN \<in> revs ! 0") (simp_all add: prod_eq_iff)
  moreover have "mu_result x2 = mu_result x1" using 2 result_input [of m x1 s1] by (metis fst_conv)
  ultimately have "mu_result (fst (session_services cfg m p [0..<m] x2 s2)) \<in> {1, mu_result x}" for p
    using result_services [of cfg m p "[0..<m]" x2 s2] by simp
  then show ?thesis unfolding multi_pass_def Let_def 1 prod.case 2 .
qed

lemma result_loop: "mu_result x \<in> {0, 1} \<Longrightarrow> mu_result (fst (multi_loop L cfg m l x s)) \<in> {0, 1}"
proof (induction L cfg m l x s rule: multi_loop.induct)
  case (1 L cfg m l x s)
  obtain stop u where o: "observe_stop s = (stop, u)" by force
  obtain rc revs s1 where p: "sys_poll (multi_pollfds m l (multi_sessions x)) u = (rc, revs, s1)" using prod_cases3 by blast
  obtain x1 s2 where ps: "multi_pass L cfg m l revs x s1 = (x1, s2)" by force
  have "mu_result x1 \<in> {0, 1}" using result_pass [of L cfg m l revs x s1] 1(4) ps by auto
  note IH = "1.IH" [OF o [symmetric] refl _ p [symmetric] refl refl] and r = this
  show ?case
    unfolding multi_loop.simps [of L cfg m l x s] o p prod.case Let_def ps
    using IH(1,2) IH(3) [OF _ _ _ ps [symmetric]] 1(4) r by simp
qed

lemma run_multi_listen_owns:
  assumes "run_multi_listen L cfg s = (rc, s')"
  shows "open_fds s' = open_fds s \<and> mset (children s') = mset (children s) \<and> rc \<in> {0, 1, 2}
    \<and> (\<not> term_raw s \<and> (\<forall>b \<in> set (term_q s). b) \<longrightarrow> \<not> term_raw s')"
proof (cases "broker_max_clients cfg < 1 \<or> broker_max_clients cfg > int WCAT_MULTI_LIMIT")
  case True
  with assms show ?thesis by (auto simp: run_multi_listen_def wcat_log_def Let_def)
next
  case False
  define m where "m = nat (broker_max_clients cfg)"
  obtain l s1 where 1: "main_listen_socket cfg s = (l, s1)" by force
  have mk: "makes_fd s l s1" by (rule new_socket_makes_fd [OF listening.make_new [OF 1]])
  note run = assms [unfolded run_multi_listen_def if_not_P [OF False] m_def [symmetric] 1 prod.case Let_def]
  show ?thesis
  proof (cases "l < 0")
    case True
    with mk have "rest_of {} s1 = rest_of {} s" by (cases rule: makes_fd_cases) auto
    with run True show ?thesis by (auto simp: rest_of_def wcat_log_errno_def wcat_log_def Let_def)
  next
    case f: False
    obtain raw s2 where 2: "multi_terminal s1 = (raw, s2)" by force
    let ?x = "multi_init raw" and ?s3 = "wcat_log WCAT_LOG_INFO ''multi_listen'' ''multi listener ready; use :help for commands'' s2"
    define s4 where "s4 = (if raw then multi_redraw ?x ?s3 else multi_print_prompt 0 ?s3)"
    obtain x1 s5 where 5: "multi_loop L cfg m l ?x s4 = (x1, s5)" by force
    obtain ss s6 where 6: "fold close_live [0..<m] (multi_sessions x1, s5) = (ss, s6)" by force
    define s7 where "s7 = (if raw then snd (sys_tcsetattr False s6) else s6)"
    have fin: "rc = mu_result x1" "s' = close_quiet l s7"
      using run f 2 5 6 by (simp_all add: s4_def [symmetric] s7_def)
    have l: "0 \<le> l" "owns {l} {#} s s1" using f owns_make [OF owns_refl mk] by simp_all
    note t = terminal_effect [OF 2]
    define b where "b = s2"
    have s4: "rest_of {} s4 = rest_of {} s2" by (simp add: s4_def rest)
    have "{l} \<subseteq> set (open_fds s1)" using mk f by (auto simp: makes_fd_def)
    then have "owns {l} {#} (s\<lparr>term_raw := term_raw s2, term_q := term_q s2\<rparr>) s4" "{l} \<subseteq> set (open_fds s4)"
      "term_q s4 = term_q s2"
      using l(2) t s4 by (simp_all add: owns_def rest_of_def)
    moreover have "fds_of m (multi_sessions ?x) = {}"
      using False by (auto simp: fds_of_def live_def multi_init_def multi_sessions_def multi_session_init_def m_def)
    ultimately have "table_ok m {l} (s\<lparr>term_raw := term_raw s2, term_q := term_q s2\<rparr>) (multi_sessions ?x) s4"
      using False by (auto simp: table_ok_def inj_on_def live_def multi_init_def multi_sessions_def multi_session_init_def m_def)
    from kept_loop [OF this, of L cfg l] have
      "table_ok m {l} (s\<lparr>term_raw := term_raw s2, term_q := term_q s2\<rparr>) (multi_sessions x1) s5" by (simp add: 5 table)
    from close_all [of m "{l}" _ "(multi_sessions x1, s5)" "[0..<m]"] this
    have e: "table_ok m {l} (s\<lparr>term_raw := term_raw s2, term_q := term_q s2\<rparr>) ss s6" "\<forall>k < m. \<not> live ss k"
      by (auto simp: 6 lessThan_atLeast0)
    then have "fds_of m ss = {}" by (auto simp: fds_of_def)
    with e(1) have o6: "owns (insert l {}) {#} (s\<lparr>term_raw := term_raw s2, term_q := term_q s2\<rparr>) s6" "term_q s6 = term_q s2"
      by (simp_all add: table_ok_def)
    have s7: "open_fds s7 = open_fds s6" "children s7 = children s6"
      by (auto simp: s7_def sys_tcsetattr_def split: list.splits)
    have "owns (insert l {}) {#} (s\<lparr>term_raw := term_raw s7\<rparr>) s7" using o6(1) s7 by (simp add: owns_def)
    from owns_close [OF this] have "owns {} {#} (s\<lparr>term_raw := term_raw s7\<rparr>) s'" by (simp add: fin)
    then have "open_fds s' = open_fds s" "mset (children s') = mset (children s)" "term_raw s' = term_raw s7"
      by (simp_all add: owns_def)
    moreover have "\<not> term_raw s7" if "\<not> term_raw s" "\<forall>b \<in> set (term_q s). b"
    proof -
      have r1: "term_raw s1 = term_raw s" "term_q s1 = term_q s" using mk by (auto simp: makes_fd_def rest_of_def)
      have "set (term_q s2) \<subseteq> set (term_q s1)" using t set_mono_suffix by blast
      then have "\<forall>b \<in> set (term_q s6). b" unfolding o6(2) r1(2) using that(2) by blast
      moreover have "term_raw s6 = term_raw s2" using o6(1) by (simp add: owns_def)
      ultimately show ?thesis using t r1(1) that(1) by (cases "term_q s6") (simp_all add: s7_def sys_tcsetattr_def)
    qed
    moreover have "mu_result ?x \<in> {0, 1}" by (simp add: multi_init_def)
    with result_loop [of ?x L cfg m l s4] have "rc \<in> {0, 1, 2}" unfolding 5 fst_conv fin(1) by blast
    ultimately show ?thesis by (simp, blast)
  qed
qed

end
