(* ===== verification/Wcat_Broker.thy ===== *)
theory Wcat_Broker
  imports Wcat_Socketx
begin

text \<open>
  src/broker.c: the fan-out server. Every byte a client sends goes to the output queue of every
  other client (raw, or as chat lines with the sender's name); the queues are flushed when their
  descriptors are writable, and a client whose queue would exceed the configured size is dropped.

  The client table is a list of \<open>WCAT_BROKER_LIMIT\<close> records; \<open>out\<close> is the contents of the
  allocated output buffer, so \<open>length (out c)\<close> is the size of the allocation. A pass of the main
  loop uses one answer of \<open>poll\<close>, which makes the loop terminate on every finite script.
\<close>

section \<open>Clients and their output queues\<close>

definition WCAT_BROKER_LIMIT :: nat where "WCAT_BROKER_LIMIT = 256"
definition WCAT_BROKER_BUF :: nat where "WCAT_BROKER_BUF = 4096"

record broker_client =
  cfd :: fd
  cid :: u32
  line_start :: bool
  out :: bytes
  out_len :: nat
  out_off :: nat

definition client_init :: broker_client where
  "client_init = \<lparr>cfd = - 1, cid = 0, line_start = True, out = [], out_len = 0, out_off = 0\<rparr>"

definition drop_client :: "broker_client list \<Rightarrow> nat \<Rightarrow> sys \<Rightarrow> broker_client list \<times> sys" where
  "drop_client clients idx s =
     (let (r, s') = wcat_close_quiet (cfd (clients ! idx)) s
      in (clients[idx := (clients ! idx)\<lparr>cfd := r, cid := 0, line_start := True, out := [],
                                        out_len := 0, out_off := 0\<rparr>], s'))"

text \<open>
  A growing buffer: its contents and its capacity. The loop that doubles the capacity is only
  entered with a capacity that is not 0; the guard \<open>0 < next_cap\<close> makes the recursion total.
\<close>

function grow_cap :: "nat \<Rightarrow> nat \<Rightarrow> nat" where
  "grow_cap next_cap need =
     (if 0 < next_cap \<and> next_cap < need
      then (if next_cap > SIZE_MAX div 2 then need else grow_cap (next_cap * 2) need)
      else next_cap)"
  by pat_completeness auto
termination
  by (relation "measure (\<lambda>(c, n). n - c)") auto

declare grow_cap.simps [simp del]

definition append_bytes :: "bytes \<times> nat \<Rightarrow> bytes \<Rightarrow> sys \<Rightarrow> (bytes \<times> nat) option \<times> sys" where
  "append_bytes b buf s =
     (let len = length (fst b); cap = snd b; n = length buf
      in if n = 0 then (Some b, s)
         else if n > SIZE_MAX - len then (None, s)
         else if len + n \<le> cap then (Some (fst b @ buf, cap), s)
         else let (ok, s') = sys_alloc s
              in if \<not> ok then (None, s')
                 else (Some (fst b @ buf, grow_cap (if cap = 0 then 128 else cap) (len + n)), s'))"

definition append_cstr :: "bytes \<times> nat \<Rightarrow> string \<Rightarrow> sys \<Rightarrow> (bytes \<times> nat) option \<times> sys" where
  "append_cstr b t s = append_bytes b t s"

definition chat_prefix :: "u32 \<Rightarrow> string" where
  "chat_prefix i = ''<client'' @ dec_string (unat i) @ ''> ''"

text \<open>What the loop body appends for one byte.\<close>

definition chat_char :: "char \<Rightarrow> string" where
  "chat_char c =
     (if c = CHR 0x0A then [c]
      else if c = CHR 0x09 then [c]
      else if c = CHR 0x0D then [CHR 0x5C, CHR ''r'']
      else if code c < 32 \<or> code c = 127 then [CHR 0x5C, CHR ''x''] @ hex_pad 2 (code c)
      else [c])"

fun format_chat_loop ::
  "broker_client \<Rightarrow> bytes \<Rightarrow> bytes \<times> nat \<Rightarrow> sys \<Rightarrow> bytes option \<times> broker_client \<times> sys" where
  "format_chat_loop sender [] b s = (Some (fst b), sender, s)"
| "format_chat_loop sender (c # cs) b s =
     (let (ob, s1) = (if line_start sender
                      then (if length (chat_prefix (cid sender)) \<ge> 32 then (None, s)
                            else append_bytes b (chat_prefix (cid sender)) s)
                      else (Some b, s))
      in case ob of
           None \<Rightarrow> (None, sender, s1)
         | Some b1 \<Rightarrow>
             (let sender1 = (if line_start sender then sender\<lparr>line_start := False\<rparr> else sender);
                  (ob2, s2) = (if c = CHR 0x0A \<or> c = CHR 0x09 then append_bytes b1 [c] s1
                               else if c = CHR 0x0D \<or> code c < 32 \<or> code c = 127
                               then append_cstr b1 (chat_char c) s1
                               else append_bytes b1 [c] s1)
              in case ob2 of
                   None \<Rightarrow> (None, sender1, s2)
                 | Some b2 \<Rightarrow>
                     format_chat_loop (if c = CHR 0x0A then sender1\<lparr>line_start := True\<rparr> else sender1)
                       cs b2 s2))"

text \<open>Nothing is allocated for no bytes: the result is then \<open>NULL\<close>, as for a failure.\<close>

definition format_chat_message ::
  "broker_client \<Rightarrow> bytes \<Rightarrow> sys \<Rightarrow> bytes option \<times> broker_client \<times> sys" where
  "format_chat_message sender buf s =
     (if buf = [] then (None, sender, s) else format_chat_loop sender buf ([], 0) s)"

definition pending :: "broker_client \<Rightarrow> bytes" where
  "pending c = drop (out_off c) (take (out_len c) (out c))"

text \<open>
  \<open>size_t pending = out_len - out_off\<close> is a natural number because \<open>out_off \<le> out_len\<close> (part of
  the invariant below). \<open>realloc\<close> keeps the first bytes and \<open>memcpy\<close> fills the rest.
\<close>

definition queue_bytes :: "broker_client \<Rightarrow> bytes \<Rightarrow> nat \<Rightarrow> sys \<Rightarrow> int \<times> broker_client \<times> sys" where
  "queue_bytes client buf max_buffer s =
     (let len = length buf; pend = out_len client - out_off client
      in if len > max_buffer \<or> pend > max_buffer - len then (- 1, client, s)
         else let client1 =
                (if out_off client > 0 \<and> pend > 0
                 then client\<lparr>out := take pend (drop (out_off client) (out client)) @ drop pend (out client),
                             out_len := pend, out_off := 0\<rparr>
                 else if pend = 0 then client\<lparr>out_len := 0, out_off := 0\<rparr>
                 else client);
                (ok, s') = sys_alloc s
              in if \<not> ok then (- 1, client1, s')
                 else (0, client1\<lparr>out := take (out_len client1) (out client1) @ buf,
                                  out_len := out_len client1 + len\<rparr>, s'))"

function flush_client :: "broker_client \<Rightarrow> sys \<Rightarrow> int \<times> broker_client \<times> sys" where
  "flush_client client s =
     (if out_off client < out_len client
      then let (n, s') = sys_write (cfd client) (drop (out_off client) (take (out_len client) (out client))) s
           in if n < 0
              then (if errno_of s' = EINTR then flush_client client s'
                    else if errno_of s' = EAGAIN then (0, client, s')
                    else (- 1, client, s'))
              else if n = 0 then (0, client, s')
              else flush_client (client\<lparr>out_off := out_off client + nat n\<rparr>) s'
      else (0, client\<lparr>out_len := 0, out_off := 0\<rparr>, s))"
  by pat_completeness auto
termination
proof (relation "measure (\<lambda>(c, s). out_len c - out_off c + length (wr_q s (cfd c)))", goal_cases)
  case 1
  show ?case by simp
next
  case (2 c s x n s')
  with sys_write_queue [of "cfd c" "drop (out_off c) (take (out_len c) (out c))" s n s'] show ?case by auto
next
  case (3 c s x n s')
  with sys_write_queue [of "cfd c" "drop (out_off c) (take (out_len c) (out c))" s n s'] show ?case by auto
qed

declare flush_client.simps [simp del]

section \<open>The main loop\<close>

record broker =
  clients :: "broker_client list"
  next_client_id :: u32

text \<open>The descriptors handed to \<open>poll\<close>: the listener, then the connected clients in order.\<close>

definition client_pollfd :: "broker_client \<Rightarrow> fd \<times> pflag set" where
  "client_pollfd c = (cfd c, if out_len c > out_off c then {POLLIN, POLLOUT} else {POLLIN})"

definition broker_pollfds :: "fd \<Rightarrow> nat \<Rightarrow> broker_client list \<Rightarrow> (fd \<times> pflag set) list" where
  "broker_pollfds listener max_clients cs =
     (listener, {POLLIN}) # map client_pollfd (filter (\<lambda>c. cfd c \<ge> 0) (take max_clients cs))"

text \<open>The first free slot; \<open>max_clients\<close> when there is none.\<close>

fun free_slot :: "broker_client list \<Rightarrow> nat \<Rightarrow> nat" where
  "free_slot [] m = 0"
| "free_slot (c # cs) 0 = 0"
| "free_slot (c # cs) (Suc m) = (if cfd c \<ge> 0 then Suc (free_slot cs m) else 0)"

text \<open>
  The listener is readable. The result says whether the pass goes on with the clients: a peer the
  access lists refuse ends it (\<open>continue\<close>).
\<close>

definition broker_accept ::
  "inet \<Rightarrow> wcat_config \<Rightarrow> fd \<Rightarrow> nat \<Rightarrow> broker \<Rightarrow> sys \<Rightarrow> bool \<times> broker \<times> sys" where
  "broker_accept L cfg listener max_clients b s =
     (case wcat_accept listener s of
        (None, s1) \<Rightarrow> (True, b, s1)
      | (Some (fd, h, p), s1) \<Rightarrow>
          (let (allowed, s2) = wcat_access_check_fd L cfg fd s1
           in if \<not> allowed then (False, b, close_quiet fd s2)
              else let i = free_slot (clients b) max_clients
                   in if i = max_clients
                      then (True, b, close_quiet fd
                              (wcat_log WCAT_LOG_WARN ''broker_full'' ''broker client limit reached'' s2))
                      else let s3 = snd (wcat_set_nonblock fd True s2);
                               c = ((clients b) ! i)\<lparr>cfd := fd, cid := next_client_id b, line_start := True\<rparr>
                           in (True,
                               b\<lparr>clients := (clients b)[i := c], next_client_id := next_client_id b + 1\<rparr>,
                               wcat_log WCAT_LOG_INFO ''broker_join''
                                 (''client '' @ h @ '':'' @ p @ '' joined'') s3)))"

text \<open>The loop that queues a message for every connected client but the sender.\<close>

fun broadcast ::
  "nat list \<Rightarrow> nat \<Rightarrow> bytes \<Rightarrow> nat \<Rightarrow> broker_client list \<Rightarrow> sys \<Rightarrow> broker_client list \<times> sys" where
  "broadcast [] i msg max_buffer cs s = (cs, s)"
| "broadcast (j # js) i msg max_buffer cs s =
     (if cfd (cs ! j) \<ge> 0 \<and> j \<noteq> i
      then let (rc, c, s1) = queue_bytes (cs ! j) msg max_buffer s
           in if rc < 0
              then let (cs2, s2) = drop_client (cs[j := c]) j
                         (wcat_log WCAT_LOG_WARN ''broker_drop'' ''dropping slow broker client'' s1)
                   in broadcast js i msg max_buffer cs2 s2
              else broadcast js i msg max_buffer (cs[j := c]) s1
      else broadcast js i msg max_buffer cs s)"

text \<open>A readable client: the message is read, formatted and queued.\<close>

definition broker_receive ::
  "wcat_config \<Rightarrow> nat \<Rightarrow> nat \<Rightarrow> nat \<Rightarrow> broker_client list \<Rightarrow> sys \<Rightarrow> broker_client list \<times> sys" where
  "broker_receive cfg max_clients max_buffer i cs s =
     (case read_retry (cfd (cs ! i)) WCAT_BROKER_BUF s of
        (None, s1) \<Rightarrow> if errno_of s1 = EAGAIN then (cs, s1) else drop_client cs i s1
      | (Some buf, s1) \<Rightarrow>
          if buf = [] then drop_client cs i s1
          else let s2 = (if hex cfg then wcat_hexdump ''broker'' buf s1 else s1)
               in if chat cfg
                  then (case format_chat_message (cs ! i) buf s2 of
                          (None, c, s3) \<Rightarrow>
                            drop_client (cs[i := c]) i
                              (wcat_log WCAT_LOG_WARN ''broker_drop''
                                 ''dropping broker client after chat format failure'' s3)
                        | (Some msg, c, s3) \<Rightarrow> broadcast [0..<max_clients] i msg max_buffer (cs[i := c]) s3)
                  else broadcast [0..<max_clients] i buf max_buffer cs s2)"

text \<open>The events of a descriptor, or nothing when it was not polled.\<close>

definition revents_of :: "(fd \<times> pflag set) list \<Rightarrow> fd \<Rightarrow> pflag set option" where
  "revents_of polled fd = map_of polled fd"

definition broker_service ::
  "wcat_config \<Rightarrow> nat \<Rightarrow> nat \<Rightarrow> (fd \<times> pflag set) list \<Rightarrow> nat \<Rightarrow> broker_client list \<Rightarrow> sys
     \<Rightarrow> broker_client list \<times> sys" where
  "broker_service cfg max_clients max_buffer polled i cs s =
     (if cfd (cs ! i) < 0 then (cs, s)
      else case revents_of polled (cfd (cs ! i)) of
             None \<Rightarrow> (cs, s)
           | Some revents \<Rightarrow>
               if POLLERR \<in> revents \<or> POLLNVAL \<in> revents then drop_client cs i s
               else let (rc, c, s1) = (if POLLOUT \<in> revents then flush_client (cs ! i) s
                                       else (0, cs ! i, s))
                    in if rc < 0 then drop_client (cs[i := c]) i s1
                       else if POLLIN \<in> revents \<or> POLLHUP \<in> revents
                       then broker_receive cfg max_clients max_buffer i (cs[i := c]) s1
                       else (cs[i := c], s1))"

fun broker_services ::
  "wcat_config \<Rightarrow> nat \<Rightarrow> nat \<Rightarrow> (fd \<times> pflag set) list \<Rightarrow> nat list \<Rightarrow> broker_client list \<Rightarrow> sys
     \<Rightarrow> broker_client list \<times> sys" where
  "broker_services cfg mc mb polled [] cs s = (cs, s)"
| "broker_services cfg mc mb polled (i # is) cs s =
     (let (cs', s') = broker_service cfg mc mb polled i cs s
      in broker_services cfg mc mb polled is cs' s')"

text \<open>One pass of the main loop after the test of \<open>wcat_stop\<close>; \<open>True\<close> says \<open>break\<close>.\<close>

definition broker_pass ::
  "inet \<Rightarrow> wcat_config \<Rightarrow> fd \<Rightarrow> nat \<Rightarrow> nat \<Rightarrow> broker \<Rightarrow> sys \<Rightarrow> bool \<times> broker \<times> sys" where
  "broker_pass L cfg listener mc mb b s =
     (let pfds = broker_pollfds listener mc (clients b);
          (rc, rev, s1) = sys_poll pfds s
      in if rc < 0
         then (if errno_of s1 = EINTR then (False, b, s1)
               else (True, b, wcat_log_errno ''broker_poll'' ''broker poll failed'' s1))
         else if rc = 0 then (False, b, s1)
         else let (go, b2, s2) = (if POLLIN \<in> hd rev then broker_accept L cfg listener mc b s1
                                  else (True, b, s1))
              in if \<not> go then (False, b2, s2)
                 else let (cs, s3) = broker_services cfg mc mb (zip (map fst (tl pfds)) (tl rev))
                                       [0..<mc] (clients b2) s2
                      in (False, b2\<lparr>clients := cs\<rparr>, s3))"

section \<open>The output queue of a client\<close>

text \<open>Every buffer operation leaves the scripts of the main loop and the other descriptors alone.\<close>

definition loop_frame :: "sys \<Rightarrow> sys \<Rightarrow> bool" where
  "loop_frame s s' \<longleftrightarrow> poll_q s' = poll_q s \<and> wcat_stop s' = wcat_stop s \<and> sig_q s' = sig_q s
     \<and> set (alloc_q s') \<subseteq> set (alloc_q s)"

lemma loop_frame_refl [simp]: "loop_frame s s"
  by (simp add: loop_frame_def)

lemma loop_frame_trans: "loop_frame s s1 \<Longrightarrow> loop_frame s1 s2 \<Longrightarrow> loop_frame s s2"
  by (auto simp: loop_frame_def)

definition quiet :: "sys \<Rightarrow> sys \<Rightarrow> bool" where
  "quiet s s' \<longleftrightarrow> loop_frame s s' \<and> sent s' = sent s \<and> got s' = got s \<and> open_fds s' = open_fds s
     \<and> rd_q s' = rd_q s \<and> wr_q s' = wr_q s \<and> peer_of s' = peer_of s"

lemma quiet_refl [simp]: "quiet s s"
  by (simp add: quiet_def)

lemma quiet_trans: "quiet s s1 \<Longrightarrow> quiet s1 s2 \<Longrightarrow> quiet s s2"
  by (auto simp: quiet_def intro: loop_frame_trans)

lemma quiet_log [simp]: "quiet s (wcat_log lv ev msg s)"
  by (simp add: quiet_def loop_frame_def wcat_log_def Let_def)

lemma quiet_log_errno [simp]: "quiet s (wcat_log_errno ev msg s)"
  by (simp add: wcat_log_errno_def)

lemma quiet_hexdump [simp]: "quiet s (wcat_hexdump lb b s)"
  by (simp add: quiet_def loop_frame_def wcat_hexdump_def)

lemma quiet_alloc: "sys_alloc s = (ok, s') \<Longrightarrow> quiet s s'"
  by (auto simp: sys_alloc_def quiet_def loop_frame_def split: list.splits)

lemma quiet_set_nonblock [simp]: "quiet s (snd (wcat_set_nonblock fd b s))"
  by (simp add: wcat_set_nonblock_def quiet_def loop_frame_def)

lemma quiet_access [simp]: "quiet s (snd (wcat_access_check_fd L cfg fd s))"
  by (auto simp: quiet_def loop_frame_def wcat_access_check_fd_def fd_peer_addr_def wcat_log_errno_def
      wcat_log_def Let_def split: option.splits prod.splits peer.splits)

lemma grow_cap_enough [wcat_bounds]: "0 < c \<Longrightarrow> need \<le> grow_cap c need"
proof (induction c need rule: grow_cap.induct)
  case (1 c need)
  then show ?case by (auto simp: grow_cap.simps [of c need])
qed

text \<open>The copy of \<open>append_bytes\<close> stays inside the allocation.\<close>

lemma append_bytes_effect:
  assumes "append_bytes b buf s = (r, s')"
  shows "quiet s s'"
    and "r = Some b' \<Longrightarrow> fst b' = fst b @ buf"
    and "r = Some b' \<Longrightarrow> length (fst b) \<le> snd b \<Longrightarrow> length (fst b') \<le> snd b'"
proof -
  show "quiet s s'"
    using assms quiet_alloc
    by (auto simp: append_bytes_def Let_def split: if_splits prod.splits)
  assume r: "r = Some b'"
  then show "fst b' = fst b @ buf"
    using assms by (auto simp: append_bytes_def Let_def split: if_splits prod.splits)
  have "length (fst b) + length buf \<le> grow_cap (if snd b = 0 then 128 else snd b) (length (fst b) + length buf)"
    by (rule grow_cap_enough) simp
  then show "length (fst b) \<le> snd b \<Longrightarrow> length (fst b') \<le> snd b'"
    using assms r by (auto simp: append_bytes_def Let_def split: if_splits prod.splits)
qed

text \<open>Without a shortage of memory or of address space it succeeds.\<close>

lemma append_bytes_total:
  assumes "alloc_q s = []" and "length (fst b) + length buf \<le> SIZE_MAX"
  shows "\<exists>b'. append_bytes b buf s = (Some b', s) \<and> fst b' = fst b @ buf"
  using assms by (cases b) (auto simp: append_bytes_def Let_def sys_alloc_def)

definition client_ok :: "nat \<Rightarrow> broker_client \<Rightarrow> bool" where
  "client_ok mb c \<longleftrightarrow> out_off c \<le> out_len c \<and> out_len c \<le> length (out c) \<and> out_len c - out_off c \<le> mb
     \<and> (cfd c < 0 \<longrightarrow> cfd c = - 1 \<and> out_len c = 0)"

lemma length_pending: "client_ok mb c \<Longrightarrow> length (pending c) = out_len c - out_off c"
  by (simp add: client_ok_def pending_def)

lemma pending_bound [wcat_bounds]: "client_ok mb c \<Longrightarrow> length (pending c) \<le> mb"
  by (simp add: length_pending) (simp add: client_ok_def)

lemma client_ok_init [simp]: "client_ok mb client_init" "pending client_init = []"
  by (simp_all add: client_ok_def client_init_def pending_def)

lemma queue_bytes_effect:
  assumes "client_ok mb c" and "queue_bytes c buf mb s = (rc, c', s')" and "0 \<le> cfd c"
  shows "quiet s s'" and "cfd c' = cfd c \<and> cid c' = cid c \<and> line_start c' = line_start c"
    and "client_ok mb c'"
    and "rc = 0 \<and> pending c' = pending c @ buf \<and> length (pending c) + length buf \<le> mb
         \<or> rc = - 1 \<and> pending c' = pending c \<and>
           (mb < length (pending c) + length buf \<or> False \<in> set (alloc_q s))"
proof -
  have len: "length (pending c) = out_len c - out_off c" using assms(1) by (rule length_pending)
  show "quiet s s'"
    using assms(2) quiet_alloc by (auto simp: queue_bytes_def Let_def split: if_splits prod.splits)
  show "cfd c' = cfd c \<and> cid c' = cid c \<and> line_start c' = line_start c"
    using assms(2) by (auto simp: queue_bytes_def Let_def split: if_splits prod.splits)
  show "client_ok mb c'"
    using assms by (auto simp: queue_bytes_def client_ok_def Let_def split: if_splits prod.splits)
  have al: "\<not> fst (sys_alloc s) \<Longrightarrow> False \<in> set (alloc_q s)"
    by (auto simp: sys_alloc_def split: list.splits)
  show "rc = 0 \<and> pending c' = pending c @ buf \<and> length (pending c) + length buf \<le> mb
         \<or> rc = - 1 \<and> pending c' = pending c \<and>
           (mb < length (pending c) + length buf \<or> False \<in> set (alloc_q s))"
    using assms len al
    by (auto simp: queue_bytes_def client_ok_def pending_def Let_def drop_take
        split: if_splits prod.splits)
qed

text \<open>Flushing moves bytes from the queue to the descriptor, in order.\<close>

definition flush_frame :: "fd \<Rightarrow> sys \<Rightarrow> sys \<Rightarrow> bool" where
  "flush_frame fd s s' \<longleftrightarrow> loop_frame s s' \<and> got s' = got s \<and> open_fds s' = open_fds s \<and> rd_q s' = rd_q s
     \<and> peer_of s' = peer_of s \<and> (\<forall>f. f \<noteq> fd \<longrightarrow> sent s' f = sent s f \<and> wr_q s' f = wr_q s f)"

lemma flush_frame_trans: "flush_frame fd s s1 \<Longrightarrow> flush_frame fd s1 s2 \<Longrightarrow> flush_frame fd s s2"
  by (auto simp: flush_frame_def intro: loop_frame_trans)

lemma sys_write_flush_frame: "sys_write fd buf s = (n, s') \<Longrightarrow> flush_frame fd s s'"
  using sys_write_frame [of fd buf s n s']
  by (auto simp: flush_frame_def loop_frame_def sys_write_def split: list.splits wr_ans.splits)

lemma flush_client_effect:
  assumes "flush_client c s = (rc, c', s')" and "client_ok mb c" and "0 \<le> cfd c"
  shows "flush_frame (cfd c) s s'
    \<and> cfd c' = cfd c \<and> cid c' = cid c \<and> line_start c' = line_start c \<and> client_ok mb c'
    \<and> sent s' (cfd c) @ pending c' = sent s (cfd c) @ pending c \<and> rc \<in> {0, - 1}"
  using assms
proof (induction c s rule: flush_client.induct)
  case (1 c s)
  show ?case
  proof (cases "out_off c < out_len c")
    case False
    with "1.prems" show ?thesis
      by (auto simp: flush_client.simps [of c s] client_ok_def pending_def flush_frame_def)
  next
    case True
    have pc: "drop (out_off c) (take (out_len c) (out c)) = pending c" by (simp add: pending_def)
    obtain n s1 where w: "sys_write (cfd c) (pending c) s = (n, s1)" by force
    note fr = sys_write_flush_frame [OF w] and eff = sys_write_frame [OF w]
    have n: "n \<le> int (length (pending c))" using eff by simp
    note unfold = flush_client.simps [of c s, unfolded pc w prod.case Let_def if_P [OF True]]
    consider (intr) "n < 0" "errno_of s1 = EINTR" | (stop) "n < 0" "errno_of s1 \<noteq> EINTR" | (zero) "n = 0"
      | (pos) "0 < n" by linarith
    then show ?thesis
    proof cases
      case intr
      with "1.prems"(1) unfold have "flush_client c s1 = (rc, c', s')" by simp
      from "1.IH"(1) [OF True w [symmetric, folded pc] refl intr this "1.prems"(2,3)] fr eff intr
      show ?thesis by (auto intro: flush_frame_trans)
    next
      case stop
      with "1.prems" unfold fr eff show ?thesis by (auto split: if_splits)
    next
      case zero
      with "1.prems" unfold fr eff show ?thesis by auto
    next
      case pos
      let ?c = "c\<lparr>out_off := out_off c + nat n\<rparr>"
      from pos "1.prems"(1) unfold have rec: "flush_client ?c s1 = (rc, c', s')" by simp
      have ok: "client_ok mb ?c"
        using "1.prems"(2) n pos length_pending [OF "1.prems"(2)] by (auto simp: client_ok_def)
      have pd: "pending ?c = drop (nat n) (pending c)" by (simp add: pending_def add.commute)
      have "take (nat n) (pending c) @ pending ?c = pending c" by (simp add: pd)
      moreover have "0 \<le> cfd ?c" using "1.prems"(3) by simp
      note "1.IH"(2) [OF True w [symmetric, folded pc] refl _ _ rec ok this]
      ultimately show ?thesis using pos fr eff by (auto intro: flush_frame_trans)
    qed
  qed
qed

text \<open>A client is dropped only on a real error, and a descriptor that takes everything is emptied.\<close>

lemma flush_client_error:
  "flush_client c s = (- 1, c', s') \<Longrightarrow> errno_of s' \<noteq> EINTR \<and> errno_of s' \<noteq> EAGAIN"
proof (induction c s rule: flush_client.induct)
  case (1 c s)
  then show ?case
    by (subst (asm) (3) flush_client.simps) (auto split: prod.splits if_splits)
qed

subsection \<open>The queue as an interface\<close>

text \<open>
  What the main loop relies on: a message that is accepted goes to the end of the queue, flushing
  sends the front of the queue, and nothing is lost, repeated or reordered in between. A run is
  any sequence of the two operations that does not fail.
\<close>

datatype queue_op = Enqueue bytes | Flush

fun run_ops ::
  "('c \<Rightarrow> bytes \<Rightarrow> sys \<Rightarrow> int \<times> 'c \<times> sys) \<Rightarrow> ('c \<Rightarrow> sys \<Rightarrow> int \<times> 'c \<times> sys) \<Rightarrow> queue_op list \<Rightarrow> 'c \<Rightarrow> sys
     \<Rightarrow> ('c \<times> sys) option" where
  "run_ops enq fl [] c s = Some (c, s)"
| "run_ops enq fl (Enqueue m # ops) c s =
     (let (rc, c', s') = enq c m s in if rc < 0 then None else run_ops enq fl ops c' s')"
| "run_ops enq fl (Flush # ops) c s =
     (let (rc, c', s') = fl c s in if rc < 0 then None else run_ops enq fl ops c' s')"

fun enqueued :: "queue_op list \<Rightarrow> bytes" where
  "enqueued [] = []"
| "enqueued (Enqueue m # ops) = m @ enqueued ops"
| "enqueued (Flush # ops) = enqueued ops"

locale out_queue =
  fixes ok :: "'c \<Rightarrow> bool" and pend :: "'c \<Rightarrow> bytes" and dest :: "'c \<Rightarrow> fd"
    and enq :: "'c \<Rightarrow> bytes \<Rightarrow> sys \<Rightarrow> int \<times> 'c \<times> sys" and fl :: "'c \<Rightarrow> sys \<Rightarrow> int \<times> 'c \<times> sys"
  assumes enq_law: "ok c \<Longrightarrow> enq c m s = (rc, c', s') \<Longrightarrow> 0 \<le> rc \<Longrightarrow>
      ok c' \<and> dest c' = dest c \<and> sent s' = sent s \<and> pend c' = pend c @ m"
    and fl_law: "ok c \<Longrightarrow> fl c s = (rc, c', s') \<Longrightarrow>
      ok c' \<and> dest c' = dest c \<and> sent s' (dest c) @ pend c' = sent s (dest c) @ pend c"
begin

lemma run_ops_ok: "ok c \<Longrightarrow> run_ops enq fl ops c s = Some (c', s') \<Longrightarrow> ok c' \<and> dest c' = dest c"
proof (induction ops arbitrary: c s)
  case Nil
  then show ?case by simp
next
  case (Cons op ops)
  then show ?case
    by (cases op) (auto simp: Let_def split: prod.splits if_splits dest: enq_law fl_law)
qed

lemma run_ops_fifo:
  "ok c \<Longrightarrow> run_ops enq fl ops c s = Some (c', s') \<Longrightarrow>
     sent s' (dest c) @ pend c' = sent s (dest c) @ pend c @ enqueued ops"
proof (induction ops arbitrary: c s)
  case Nil
  then show ?case by simp
next
  case (Cons op ops)
  show ?case
  proof (cases op)
    case (Enqueue m)
    obtain rc c1 s1 where e: "enq c m s = (rc, c1, s1)" using prod_cases3 by blast
    with Cons.prems Enqueue have "0 \<le> rc" "run_ops enq fl ops c1 s1 = Some (c', s')"
      by (auto split: if_splits)
    with Cons.IH [of c1 s1] enq_law [OF Cons.prems(1) e] Enqueue show ?thesis by simp
  next
    case Flush
    obtain rc c1 s1 where e: "fl c s = (rc, c1, s1)" using prod_cases3 by blast
    with Cons.prems Flush have "run_ops enq fl ops c1 s1 = Some (c', s')"
      by (auto split: if_splits)
    with Cons.IH [of c1 s1] fl_law [OF Cons.prems(1) e] Flush show ?thesis by simp
  qed
qed

end

interpretation client_queue: out_queue "\<lambda>c. client_ok mb c \<and> 0 \<le> cfd c" pending cfd
  "\<lambda>c m. queue_bytes c m mb" flush_client
proof (unfold_locales, goal_cases)
  case (1 c m s rc c' s')
  then show ?case
    using queue_bytes_effect [of mb c m s rc c' s'] by (auto simp: quiet_def)
next
  case (2 c s rc c' s')
  then show ?case
    using flush_client_effect [of c s rc c' s' mb] by auto
qed

section \<open>Chat messages\<close>

text \<open>What a message should become: line by line, with the name in front of each line.\<close>

fun chat_text :: "u32 \<Rightarrow> bool \<Rightarrow> bytes \<Rightarrow> bytes" where
  "chat_text i bol [] = []"
| "chat_text i bol (c # cs) =
     (if bol then chat_prefix i else []) @ chat_char c @ chat_text i (c = CHR 0x0A) cs"

definition chat_bol :: "bool \<Rightarrow> bytes \<Rightarrow> bool" where
  "chat_bol bol m = (if m = [] then bol else last m = CHR 0x0A)"

lemma chat_bol_Cons: "chat_bol bol (c # cs) = chat_bol (c = CHR 0x0A) cs"
  by (simp add: chat_bol_def)

text \<open>Where the messages are split does not matter.\<close>

lemma chat_text_append:
  "chat_text i bol (a @ b) = chat_text i bol a @ chat_text i (chat_bol bol a) b"
proof (induction a arbitrary: bol)
  case Nil
  then show ?case by (simp add: chat_bol_def)
next
  case (Cons c cs)
  then show ?case by (simp add: chat_bol_Cons)
qed

lemma chat_char_not_Nil [simp]: "chat_char c \<noteq> []"
  by (simp add: chat_char_def)

lemma chat_text_not_Nil: "m \<noteq> [] \<Longrightarrow> chat_text i bol m \<noteq> []"
  by (cases m) auto

lemma hex_char_visible: "d < 16 \<Longrightarrow> 48 \<le> code (hex_char d) \<and> code (hex_char d) \<le> 102"
  by (simp add: hex_char_def)

definition chat_clean :: "char \<Rightarrow> bool" where
  "chat_clean c \<longleftrightarrow> c = CHR 0x0A \<or> c = CHR 0x09 \<or> \<not> iscntrl c"

lemma chat_clean_digit: "isdigit c \<Longrightarrow> chat_clean c"
  by (auto simp: chat_clean_def isdigit_def iscntrl_def)

lemma chat_prefix_clean: "list_all chat_clean (chat_prefix i)"
proof -
  have "list_all chat_clean (dec_string (unat i))"
    using dec_string_digits [of "unat i"] by (rule list.pred_mono_strong) (simp add: chat_clean_digit)
  then show ?thesis by (simp add: chat_prefix_def chat_clean_def iscntrl_def)
qed

lemma chat_char_clean: "list_all chat_clean (chat_char c)"
proof -
  have "code c < 256" by simp
  then have "list_all chat_clean (hex_pad 2 (code c))"
    using hex_char_visible [of "code c div 16"] hex_char_visible [of "code c mod 16"]
    by (simp add: hex_pad_2_byte chat_clean_def iscntrl_def less_mult_imp_div_less)
  then show ?thesis by (auto simp: chat_char_def chat_clean_def iscntrl_def)
qed

lemma chat_text_clean: "list_all chat_clean (chat_text i bol m)"
  by (induction m arbitrary: bol) (simp_all add: chat_prefix_clean chat_char_clean)

lemma chat_prefix_fits: "length (chat_prefix i) < 32"
proof -
  have "unat i < 2 ^ 32" using unsigned_less [of i, where ?'a = nat] by simp
  then have "unat i < 10 ^ 10" by simp
  then have "length (dec_string (unat i)) \<le> 10" by (rule length_dec_string_le) simp
  then show ?thesis by (simp add: chat_prefix_def)
qed

lemma chat_append: "(if c = CHR 0x0A \<or> c = CHR 0x09 then append_bytes b [c] s
    else if c = CHR 0x0D \<or> code c < 32 \<or> code c = 127 then append_cstr b (chat_char c) s
    else append_bytes b [c] s) = append_bytes b (chat_char c) s"
  by (auto simp: append_cstr_def chat_char_def)

lemma format_chat_loop_effect:
  "format_chat_loop c m b s = (r, c', s') \<Longrightarrow>
     quiet s s' \<and> (\<exists>bol. c' = c\<lparr>line_start := bol\<rparr>)
     \<and> (r = None \<or> r = Some (fst b @ chat_text (cid c) (line_start c) m)
          \<and> c' = c\<lparr>line_start := chat_bol (line_start c) m\<rparr>)"
proof (induction m arbitrary: c b s)
  case Nil
  then show ?case by (cases c) (auto simp: chat_bol_def)
next
  case (Cons ch m)
  define pre where "pre = (if line_start c then chat_prefix (cid c) else [])"
  define c1 where "c1 = c\<lparr>line_start := False\<rparr>"
  have c1: "(if line_start c then c\<lparr>line_start := False\<rparr> else c) = c1"
    by (cases c) (simp add: c1_def)
  obtain ob s1 where p: "(if line_start c then (if length (chat_prefix (cid c)) \<ge> 32 then (None, s)
      else append_bytes b (chat_prefix (cid c)) s) else (Some b, s)) = (ob, s1)" by force
  have q1: "quiet s s1" and b1: "\<And>b1. ob = Some b1 \<Longrightarrow> fst b1 = fst b @ pre"
    using p append_bytes_effect(1,2) chat_prefix_fits [of "cid c"]
    by (auto simp: pre_def split: if_splits)
  show ?case
  proof (cases ob)
    case None
    with Cons.prems p q1 show ?thesis by (cases c) auto
  next
    case (Some b1)
    obtain ob2 s2 where a: "append_bytes b1 (chat_char ch) s1 = (ob2, s2)" by force
    have q2: "quiet s s2" using quiet_trans [OF q1 append_bytes_effect(1) [OF a]] .
    have unf: "format_chat_loop c (ch # m) b s = (case ob2 of None \<Rightarrow> (None, c1, s2)
        | Some b2 \<Rightarrow> format_chat_loop (c\<lparr>line_start := (ch = CHR 0x0A)\<rparr>) m b2 s2)"
      using p a Some by (auto simp: c1 chat_append c1_def Let_def split: option.splits)
    show ?thesis
    proof (cases ob2)
      case None
      with Cons.prems unf q2 show ?thesis by (auto simp: c1_def)
    next
      case b2: (Some b2)
      with Cons.prems unf have "format_chat_loop (c\<lparr>line_start := (ch = CHR 0x0A)\<rparr>) m b2 s2 = (r, c', s')"
        by simp
      from Cons.IH [OF this] q2 append_bytes_effect(2) [OF a b2] b1 [OF Some] show ?thesis
        by (auto simp: chat_bol_Cons pre_def intro: quiet_trans)
    qed
  qed
qed

lemma format_chat_message_effect:
  assumes "format_chat_message c m s = (r, c', s')"
  shows "quiet s s'" and "\<exists>bol. c' = c\<lparr>line_start := bol\<rparr>"
    and "r = Some msg \<Longrightarrow> msg = chat_text (cid c) (line_start c) m
           \<and> c' = c\<lparr>line_start := chat_bol (line_start c) m\<rparr>"
proof -
  note l = format_chat_loop_effect [of c m "([], 0)" s r c' s']
  have "\<exists>bol. c = c\<lparr>line_start := bol\<rparr>" by (rule exI [of _ "line_start c"]) simp
  with l assms show "\<exists>bol. c' = c\<lparr>line_start := bol\<rparr>" by (cases "m = []") (auto simp: format_chat_message_def)
  show "quiet s s'" using l assms by (cases "m = []") (auto simp: format_chat_message_def)
  show "r = Some msg \<Longrightarrow> msg = chat_text (cid c) (line_start c) m \<and> c' = c\<lparr>line_start := chat_bol (line_start c) m\<rparr>"
    using l assms by (cases "m = []") (auto simp: format_chat_message_def)
qed

section \<open>The main loop, continued\<close>

text \<open>No part of a pass but \<open>poll\<close> itself uses the answers of \<open>poll\<close>.\<close>

lemma close_loop_alloc: "alloc_q (close_loop fd s) = alloc_q s"
proof (induction fd s rule: close_loop.induct)
  case (1 fd s)
  obtain n s1 where c: "sys_close fd s = (n, s1)" by force
  then have "alloc_q s1 = alloc_q s"
    by (auto simp: sys_close_def Let_def split: list.splits option.splits if_splits)
  with c "1.IH" [OF c [symmetric] refl] show ?case by (auto simp: close_loop.simps [of fd s])
qed

lemma loop_frame_close [simp]: "loop_frame s (close_quiet fd s)"
  by (simp add: loop_frame_def wcat_close_quiet_def close_loop_alloc close_loop_frame)

lemma loop_frame_drop [simp]: "loop_frame s (snd (drop_client cs i s))"
  using loop_frame_close [of s "cfd (cs ! i)"] by (simp add: drop_client_def case_prod_unfold)

lemma loop_frame_quiet: "quiet s s' \<Longrightarrow> loop_frame s s'"
  by (simp add: quiet_def)

lemma loop_frame_queue [simp]: "loop_frame s (snd (snd (queue_bytes c m mb s)))"
proof -
  have "loop_frame s (snd (sys_alloc s))" by (rule loop_frame_quiet, rule quiet_alloc) (rule surjective_pairing)
  moreover have "snd (snd (queue_bytes c m mb s)) \<in> {s, snd (sys_alloc s)}"
    by (simp add: queue_bytes_def Let_def case_prod_unfold)
  ultimately show ?thesis by auto
qed

lemma loop_frame_flush [simp]: "loop_frame s (snd (snd (flush_client c s)))"
proof (induction c s rule: flush_client.induct)
  case (1 c s)
  obtain n s1 where w: "sys_write (cfd c) (drop (out_off c) (take (out_len c) (out c))) s = (n, s1)" by force
  have "loop_frame s s1" using sys_write_flush_frame [OF w] by (simp add: flush_frame_def)
  with "1.IH" [OF _ w [symmetric] refl] w show ?case
    by (auto simp: flush_client.simps [of c s] intro: loop_frame_trans)
qed

lemma loop_frame_broadcast [simp]: "loop_frame s (snd (broadcast js i m mb cs s))"
proof (induction js i m mb cs s rule: broadcast.induct)
  case (2 j js i m mb cs s)
  obtain rc c s1 where q: "queue_bytes (cs ! j) m mb s = (rc, c, s1)" using prod_cases3 by blast
  let ?l = "wcat_log WCAT_LOG_WARN ''broker_drop'' ''dropping slow broker client'' s1"
  obtain cs2 s2 where d: "drop_client (cs[j := c]) j ?l = (cs2, s2)" by force
  have 1: "loop_frame s s1" using loop_frame_queue [of s "cs ! j" m mb] q by simp
  have 2: "loop_frame s s2"
    using loop_frame_drop [of ?l "cs[j := c]" j] d loop_frame_trans [OF 1 loop_frame_quiet [OF quiet_log]]
      loop_frame_trans by fastforce
  show ?case
    using "2.IH" q d 1 2 by (auto intro: loop_frame_trans)
qed simp

lemma loop_frame_read: "read_retry fd n s = (r, s') \<Longrightarrow> loop_frame s s'"
proof -
  assume r: "read_retry fd n s = (r, s')"
  have "alloc_q (snd (read_retry fd n s)) = alloc_q s"
  proof (induction fd n s rule: read_retry.induct)
    case (1 fd n s)
    obtain r1 s1 where r1: "sys_read fd n s = (r1, s1)" by force
    then have "alloc_q s1 = alloc_q s" by (auto simp: sys_read_def split: list.splits rd_ans.splits)
    with r1 "1.IH" [OF r1 [symmetric]] show ?case
      by (auto simp: read_retry.simps [of fd n s] split: option.splits)
  qed
  with r read_retry_frame [OF r] show ?thesis by (simp add: loop_frame_def)
qed

lemma loop_frame_receive [simp]: "loop_frame s (snd (broker_receive cfg mc mb i cs s))"
proof -
  obtain r s1 where r: "read_retry (cfd (cs ! i)) WCAT_BROKER_BUF s = (r, s1)" by force
  note f1 = loop_frame_read [OF r]
  show ?thesis
  proof (cases r)
    case None
    with r f1 show ?thesis by (auto simp: broker_receive_def intro: loop_frame_trans)
  next
    case (Some buf)
    define s2 where "s2 = (if hex cfg then wcat_hexdump ''broker'' buf s1 else s1)"
    have f2: "loop_frame s s2"
      using f1 loop_frame_trans [OF f1 loop_frame_quiet [OF quiet_hexdump]] by (simp add: s2_def)
    obtain m c s3 where ch: "format_chat_message (cs ! i) buf s2 = (m, c, s3)" using prod_cases3 by blast
    have f3: "loop_frame s s3"
      using loop_frame_trans [OF f2 loop_frame_quiet [OF format_chat_message_effect(1) [OF ch]]] .
    have f4: "loop_frame s (wcat_log lv ev msg s3)" for lv ev msg
      using loop_frame_trans [OF f3 loop_frame_quiet [OF quiet_log]] .
    show ?thesis
      using r Some ch f1 f2 f3 f4 loop_frame_trans [OF f4 loop_frame_drop] loop_frame_trans [OF f1 loop_frame_drop]
        loop_frame_trans [OF f2 loop_frame_broadcast] loop_frame_trans [OF f3 loop_frame_broadcast]
      by (auto simp: broker_receive_def s2_def [symmetric] Let_def split: option.splits)
  qed
qed

lemma loop_frame_service [simp]: "loop_frame s (snd (broker_service cfg mc mb polled i cs s))"
proof -
  obtain rc c s1 where fl: "flush_client (cs ! i) s = (rc, c, s1)" using prod_cases3 by blast
  have f: "loop_frame s s1" using loop_frame_flush [of s "cs ! i"] fl by simp
  show ?thesis
    using fl f loop_frame_trans [OF f loop_frame_drop] loop_frame_trans [OF f loop_frame_receive]
    by (auto simp: broker_service_def split: option.splits)
qed

lemma loop_frame_services [simp]: "loop_frame s (snd (broker_services cfg mc mb polled is cs s))"
proof (induction "is" arbitrary: cs s)
  case (Cons i "is")
  obtain cs1 s1 where v: "broker_service cfg mc mb polled i cs s = (cs1, s1)" by force
  then have "loop_frame s s1" using loop_frame_service [of s cfg mc mb polled i cs] by simp
  with Cons.IH [of s1 cs1] v show ?case by (auto intro: loop_frame_trans)
qed simp

lemma loop_frame_accept_call: "wcat_accept l s = (r, s') \<Longrightarrow> loop_frame s s'"
proof -
  assume a: "wcat_accept l s = (r, s')"
  have "alloc_q (snd (wcat_accept l s)) = alloc_q s"
  proof (induction l s rule: wcat_accept.induct)
    case (1 l s)
    obtain r1 s1 where r1: "sys_accept l s = (r1, s1)" by force
    then have "alloc_q s1 = alloc_q s"
      by (auto simp: sys_accept_def Let_def add_fd_def split: list.splits acc_ans.splits)
    with r1 "1.IH" [OF r1 [symmetric]] show ?case
      by (auto simp: wcat_accept.simps [of l s] wcat_set_cloexec_def split: option.splits)
  qed
  with a wcat_accept_effect [OF a] show ?thesis by (simp add: loop_frame_def)
qed

lemma loop_frame_accept [simp]: "loop_frame s (snd (snd (broker_accept L cfg l mc b s)))"
proof -
  obtain r s1 where a: "wcat_accept l s = (r, s1)" by force
  note f1 = loop_frame_accept_call [OF a]
  have f2: "loop_frame s (snd (wcat_access_check_fd L cfg fd s1))" for fd
    using loop_frame_trans [OF f1 loop_frame_quiet [OF quiet_access]] .
  note more = loop_frame_trans [OF f2 loop_frame_quiet [OF quiet_log]]
    loop_frame_trans [OF f2 loop_frame_quiet [OF quiet_set_nonblock]]
  show ?thesis
    using a f1 f2 more loop_frame_trans [OF f2 loop_frame_close] loop_frame_trans [OF more(1) loop_frame_close]
      loop_frame_trans [OF more(2) loop_frame_quiet [OF quiet_log]]
    by (auto simp: broker_accept_def case_prod_unfold Let_def split: option.splits)
qed

lemma broker_pass_poll:
  assumes "broker_pass L cfg l mc mb b s = (False, b', s')"
  shows "length (poll_q s') < length (poll_q s)"
proof -
  define pfds where "pfds = broker_pollfds l mc (clients b)"
  obtain rc rev s1 where p: "sys_poll pfds s = (rc, rev, s1)" using prod_cases3 by blast
  obtain go b2 s2 where a: "(if POLLIN \<in> hd rev then broker_accept L cfg l mc b s1 else (True, b, s1)) = (go, b2, s2)"
    using prod_cases3 by blast
  obtain cs s3 where v: "broker_services cfg mc mb (zip (map fst (tl pfds)) (tl rev)) [0..<mc] (clients b2) s2
      = (cs, s3)" by force
  have f2: "loop_frame s1 s2"
  proof (cases "POLLIN \<in> hd rev")
    case True
    with a show ?thesis using loop_frame_accept [of s1 L cfg l mc b] by simp
  next
    case False
    with a show ?thesis by simp
  qed
  have f3: "loop_frame s2 s3" using v loop_frame_services [of s2] by (metis snd_conv)
  have "poll_q s' = poll_q s1"
    using assms p a v f2 f3
    by (auto simp: broker_pass_def pfds_def [symmetric] loop_frame_def Let_def split: if_splits)
  moreover have "rc < 0 \<Longrightarrow> errno_of s1 = EINTR"
    using assms p by (auto simp: broker_pass_def pfds_def [symmetric] split: if_splits)
  ultimately show ?thesis
    using sys_poll_queue [OF p] p by (cases "poll_q s = []") (auto simp: sys_poll_def)
qed

lemma observe_stop_frame:
  "observe_stop s = (b, s') \<Longrightarrow> open_fds s' = open_fds s \<and> sent s' = sent s \<and> got s' = got s
     \<and> poll_q s' = poll_q s \<and> b = wcat_stop s' \<and> (wcat_stop s \<longrightarrow> b) \<and> alloc_q s' = alloc_q s"
  by (auto simp: observe_stop_def Let_def on_signal_def split: list.splits if_splits)

function broker_loop ::
  "inet \<Rightarrow> wcat_config \<Rightarrow> fd \<Rightarrow> nat \<Rightarrow> nat \<Rightarrow> broker \<Rightarrow> sys \<Rightarrow> int \<times> broker \<times> sys" where
  "broker_loop L cfg listener mc mb b s =
     (let (stop, s0) = observe_stop s
      in if stop then (0, b, s0)
         else let (brk, b', s') = broker_pass L cfg listener mc mb b s0
              in if brk then (1, b', s') else broker_loop L cfg listener mc mb b' s')"
  by pat_completeness auto
termination
proof (relation "measure (\<lambda>(L, cfg, l, mc, mb, b, s). length (poll_q s))", goal_cases)
  case 1
  show ?case by simp
next
  case (2 L cfg l mc mb b s x stop s0 y brk z b' s')
  have "broker_pass L cfg l mc mb b s0 = (False, b', s')" using 2 by simp
  from broker_pass_poll [OF this] observe_stop_frame [of s stop s0] 2(1,2) show ?case by simp
qed

declare broker_loop.simps [simp del]

fun drop_all :: "nat list \<Rightarrow> broker_client list \<Rightarrow> sys \<Rightarrow> broker_client list \<times> sys" where
  "drop_all [] cs s = (cs, s)"
| "drop_all (i # is) cs s =
     (if cfd (cs ! i) \<ge> 0 then let (cs', s') = drop_client cs i s in drop_all is cs' s' else drop_all is cs s)"

definition broker_listen :: "wcat_config \<Rightarrow> sys \<Rightarrow> int \<times> sys" where
  "broker_listen cfg s =
     (if unix_socket cfg then wcat_unix_listen (host cfg) 16 s
      else if vsock cfg then wcat_vsock_listen (host cfg) (port cfg) 16 s
      else if sctp cfg then wcat_sctp_listen (host cfg) (port cfg) (family cfg) 16 s
      else wcat_tcp_listen (host cfg) (port cfg) (family cfg) 16 s)"

definition broker_init :: broker where
  "broker_init = \<lparr>clients = replicate WCAT_BROKER_LIMIT client_init, next_client_id = 1\<rparr>"

definition wcat_broker_run :: "inet \<Rightarrow> wcat_config \<Rightarrow> sys \<Rightarrow> int \<times> sys" where
  "wcat_broker_run L cfg s =
     (let max_clients = broker_max_clients cfg; max_buffer = nat (broker_buffer_bytes cfg)
      in if max_clients < 1 \<or> max_clients > int WCAT_BROKER_LIMIT
         then (2, wcat_log WCAT_LOG_ERROR ''broker_config'' ''invalid broker client limit'' s)
         else let (listener, s1) = broker_listen cfg s
              in if listener < 0 then (1, wcat_log_errno ''listen'' ''broker listen failed'' s1)
                 else let s2 = wcat_log WCAT_LOG_INFO ''broker_listen''
                           (if unix_socket cfg then ''broker listening on unix:'' @ text_of (host cfg)
                            else ''broker listening on '' @ text_of (host cfg) @ '':'' @ text_of (port cfg)) s1;
                          (result, b, s3) = broker_loop L cfg listener (nat max_clients) max_buffer broker_init s2;
                          (_, s4) = drop_all [0..<nat max_clients] (clients b) s3
                      in (result, close_quiet listener s4))"

interpretation broker_listener: socket_maker "broker_listen cfg"
  by unfold_locales
    (auto simp: broker_listen_def split: if_splits
      dest: tcp_listen.make_new sctp_listen.make_new unix_listen.make_new vsock_listen.make_new)

end
