(* ===== verification/Wcat_App.thy ===== *)
theory Wcat_App
  imports Wcat_Multi Wcat_Cli Wcat_Broker
begin

text \<open>
  The program as a whole: \<open>main\<close> of src/main.c with the usage text of src/cli.c, the signal set-up
  of src/signalx.c and the initialisation of the TLS library. \<open>printf\<close> is buffered; what it prints
  is part of the result of \<open>main\<close>.
\<close>

section \<open>The usage text\<close>

definition help_lines :: "string \<Rightarrow> string list" where
  "help_lines a = [
      ''Usage:'' @ nl,
      ''  '' @ a @ '' connect [options] HOST PORT'' @ nl,
      ''  '' @ a @ '' listen  [options] HOST PORT'' @ nl,
      ''  '' @ a @ '' send    [options] FILE HOST PORT'' @ nl,
      ''  '' @ a @ '' recv    [options] FILE HOST PORT'' @ nl,
      ''  '' @ a @ '' relay   [options] LEFT RIGHT'' @ nl,
      ''  '' @ a @ '' broker  [options] HOST PORT'' @ nl,
      ''  '' @ a @ '' proxy   [options] HOST PORT'' @ nl @ nl,
      ''Options:'' @ nl,
      ''      --version         print version information'' @ nl,
      ''  -u, --udp             use UDP'' @ nl,
      ''  -4                    force IPv4'' @ nl,
      ''  -6                    force IPv6'' @ nl,
      ''  -k, --keep-open       accept sequential clients'' @ nl,
      ''      --multi           listen for concurrent raw stream sessions'' @ nl,
      ''  -v, --verbose         verbose logs'' @ nl,
      ''      --json            JSON logs'' @ nl,
      ''      --hex             hex dump traffic'' @ nl,
      ''      --chat            broker chat labels and control-byte escaping'' @ nl,
      ''  -U, --unix            use Unix domain sockets; HOST is socket path'' @ nl,
      ''      --sctp            use SCTP stream sockets'' @ nl,
      ''      --vsock           use Linux AF_VSOCK; HOST is CID or '' @ [CHR 0x27] @ ''any'' @ [CHR 0x27] @ '' for listen'' @ nl,
      ''      --timeout SEC     timeout in seconds'' @ nl,
      ''      --tls             enable TLS'' @ nl,
      ''      --quic            use QUIC single-stream transport'' @ nl,
      ''      --tls-verify      verify TLS peer certificate (client default)'' @ nl,
      ''      --tls-insecure    disable TLS peer verification'' @ nl,
      ''      --ca-file FILE    TLS CA bundle for verification'' @ nl,
      ''      --sni NAME        TLS SNI and hostname verification name'' @ nl,
      ''      --alpn NAME       TLS/QUIC ALPN value (default wcat/1)'' @ nl,
      ''      --cert FILE       TLS server certificate'' @ nl,
      ''      --key FILE        TLS server key'' @ nl,
      ''      --client-cert FILE TLS client certificate'' @ nl,
      ''      --client-key FILE TLS client private key'' @ nl,
      ''      --require-client-cert require verified TLS client certificate'' @ nl,
      ''      --proxy URL       socks5://host:port or http://host:port'' @ nl,
      ''      --exec PATH       bridge connection to process'' @ nl,
      ''      --pty             use POSIX PTY for --exec'' @ nl,
      ''      --max-clients N   broker/multi client limit, 1-256 (default 64)'' @ nl,
      ''      --broker-buffer N broker per-client output buffer bytes'' @ nl,
      ''      --allow LIST      accept only IP/CIDR peers in comma list'' @ nl,
      ''      --deny LIST       reject IP/CIDR peers in comma list'' @ nl,
      nl @ ''Relay endpoints:'' @ nl,
      ''  - | stdio             standard input/output'' @ nl,
      ''  tcp:HOST:PORT         outbound TCP connection'' @ nl,
      ''  listen:HOST:PORT      inbound TCP listener, accepts one peer'' @ nl,
      ''  unix:PATH             outbound Unix domain socket connection'' @ nl,
      ''  unix-listen:PATH      inbound Unix domain socket listener'' @ nl,
      ''  file:PATH             read/write file endpoint'' @ nl,
      ''  exec:PATH             process endpoint using pipes'' @ nl,
      ''  pty:PATH              process endpoint using a POSIX PTY'' @ nl,
      nl @ ''Examples:'' @ nl,
      ''  '' @ a @ '' connect example.com 80'' @ nl,
      ''  '' @ a @ '' listen --keep-open 0.0.0.0 4444'' @ nl,
      ''  '' @ a @ '' listen --multi 0.0.0.0 4444'' @ nl,
      ''  '' @ a @ '' connect --tls example.com 443'' @ nl,
      ''  '' @ a @ '' connect --quic --alpn h3 example.com 443'' @ nl,
      ''  '' @ a @ '' connect --tls-insecure 127.0.0.1 8443'' @ nl,
      ''  '' @ a @ '' listen --tls --cert server.crt --key server.key 0.0.0.0 8443'' @ nl,
      ''  '' @ a @ '' listen --allow 127.0.0.1/32 127.0.0.1 4444'' @ nl,
      ''  '' @ a @ '' connect --proxy socks5://127.0.0.1:9050 example.com 80'' @ nl,
      ''  '' @ a @ '' connect --proxy http://127.0.0.1:8080 example.com 443'' @ nl,
      ''  '' @ a @ '' listen --pty --exec /bin/sh 127.0.0.1 4444'' @ nl,
      ''  '' @ a @ '' send ./archive.tar 192.0.2.10 9000'' @ nl,
      ''  '' @ a @ '' recv ./archive.tar 0.0.0.0 9000'' @ nl,
      ''  '' @ a @ '' relay - exec:/usr/bin/tee'' @ nl,
      ''  '' @ a @ '' relay listen:127.0.0.1:9000 tcp:10.0.0.5:22'' @ nl,
      ''  '' @ a @ '' relay listen:0.0.0.0:4444 pty:/bin/sh'' @ nl,
      ''  '' @ a @ '' broker --json 0.0.0.0 5555'' @ nl,
      ''  '' @ a @ '' broker --unix --chat /tmp/wcat-chat.sock'' @ nl,
      ''  '' @ a @ '' broker --chat --max-clients 16 --broker-buffer 131072 0.0.0.0 5555'' @ nl,
      ''  '' @ a @ '' proxy 127.0.0.1 3128'' @ nl,
      ''  '' @ a @ '' connect --json --hex example.com 80'' @ nl]"

definition wcat_print_help :: "string \<Rightarrow> string" where
  "wcat_print_help argv0 = concat (help_lines argv0)"

section \<open>The program\<close>

definition WCAT_VERSION :: string where "WCAT_VERSION = ''0.2.0''"
definition WCAT_AUTHOR :: string where "WCAT_AUTHOR = ''Chokri Hammedi (blue0x1)''"

text \<open>\<open>sig\<close> says whether \<open>sigaction\<close> accepts the handler for SIGINT and for SIGTERM.\<close>

definition wcat_signal_setup :: "bool \<times> bool \<Rightarrow> int" where
  "wcat_signal_setup sig = (if \<not> fst sig then - 1 else if \<not> snd sig then - 1 else 0)"

definition wcat_tls_global_init :: "sys \<Rightarrow> int \<times> sys" where
  "wcat_tls_global_init s = (let (ok, s1) = ssl_call s in (if ok then 0 else - 1, s1))"

definition run_plain :: "int \<times> sys \<Rightarrow> int run \<times> sys" where
  "run_plain r = (Ret (fst r), snd r)"

definition run_mode :: "inet \<Rightarrow> wcat_config \<Rightarrow> sys \<Rightarrow> int run \<times> sys" where
  "run_mode L cfg s =
     (case mode cfg of
        WCAT_MODE_CONNECT \<Rightarrow> if quic cfg then run_plain (run_quic_connect cfg s) else run_connect cfg s
      | WCAT_MODE_LISTEN \<Rightarrow> run_plain (if quic cfg then run_quic_listen cfg s else run_listen L cfg s)
      | WCAT_MODE_SEND \<Rightarrow> wcat_send_file cfg s
      | WCAT_MODE_RECV \<Rightarrow> run_plain (wcat_recv_file L cfg s)
      | WCAT_MODE_RELAY \<Rightarrow> run_plain (run_relay cfg s)
      | WCAT_MODE_BROKER \<Rightarrow> run_plain (wcat_broker_run L cfg s)
      | WCAT_MODE_PROXY \<Rightarrow> run_plain (wcat_proxy_server_run L cfg s)
      | WCAT_MODE_NONE \<Rightarrow> (Ret 2, s))"

definition wcat_main :: "inet \<Rightarrow> bool \<times> bool \<Rightarrow> string list \<Rightarrow> sys \<Rightarrow> int run \<times> string \<times> sys" where
  "wcat_main L sig argv s =
     (if length argv = 2 \<and> argv ! 1 = ''--version''
      then (Ret 0, ''wcat '' @ WCAT_VERSION @ nl @ ''Author: '' @ WCAT_AUTHOR @ nl, s)
      else let (parsed, cfg) = wcat_parse_args L argv
           in if parsed \<noteq> 0 then (Ret (if parsed > 0 then 0 else 2), wcat_print_help (hd argv), s)
              else let s1 = wcat_log_init (json cfg) (verbose cfg) s
                   in if wcat_signal_setup sig < 0
                      then (Ret 1, [], wcat_log_errno ''signal'' ''signal setup failed'' s1)
                      else let (rc, s2) = wcat_tls_global_init s1
                           in if rc < 0
                              then (Ret 1, [], wcat_log WCAT_LOG_ERROR ''tls_init'' ''OpenSSL initialization failed'' s2)
                              else let (r, s3) = run_mode L cfg s2 in (r, [], s3))"

end
