(* ===== verification/Wcat_Fanout.thy ===== *)
theory Wcat_Fanout
  imports Wcat_Broker
begin

text \<open>
  What the broker promises, and that src/broker.c keeps it. The specification is an event system
  over the table of connected clients: a client joins, leaves or says something. For every client
  it has what was received from it and its stream: what it has been sent together with what is
  still queued. The refinement lemma says that a pass of the main loop is a sequence of these
  events, whatever the operating system answers; the invariant covers the descriptors.
\<close>

section \<open>The specification\<close>

record slot =
  s_fd :: fd
  s_id :: u32
  s_peer :: peer
  s_bol :: bool
  s_got :: bytes
  s_stream :: bytes

type_synonym table = "nat \<Rightarrow> slot option"

datatype event = Join nat fd u32 peer | Leave nat | Say nat bytes

definition said :: "bool \<Rightarrow> slot \<Rightarrow> bytes \<Rightarrow> bytes" where
  "said ch a m = (if ch then chat_text (s_id a) (s_bol a) m else m)"

fun fanout :: "bool \<Rightarrow> event \<Rightarrow> table \<Rightarrow> table" where
  "fanout ch (Join i fd k p) A =
     A(i \<mapsto> \<lparr>s_fd = fd, s_id = k, s_peer = p, s_bol = True, s_got = [], s_stream = []\<rparr>)"
| "fanout ch (Leave i) A = A(i := None)"
| "fanout ch (Say i m) A =
     (case A i of
        None \<Rightarrow> A
      | Some a \<Rightarrow> (\<lambda>j. if j = i
                       then Some (a\<lparr>s_got := s_got a @ m, s_bol := (if ch then chat_bol (s_bol a) m else s_bol a)\<rparr>)
                       else map_option (\<lambda>b. b\<lparr>s_stream := s_stream b @ said ch a m\<rparr>) (A j)))"

definition event_ok :: "(peer \<Rightarrow> bool) \<Rightarrow> event \<Rightarrow> table \<Rightarrow> bool" where
  "event_ok adm e A = (case e of Join i _ _ p \<Rightarrow> A i = None \<and> adm p | Leave i \<Rightarrow> A i \<noteq> None | Say i m \<Rightarrow> A i \<noteq> None \<and> m \<noteq> [])"

fun fanouts :: "bool \<Rightarrow> event list \<Rightarrow> table \<Rightarrow> table" where
  "fanouts ch [] A = A"
| "fanouts ch (e # es) A = fanouts ch es (fanout ch e A)"

fun events_ok :: "(peer \<Rightarrow> bool) \<Rightarrow> bool \<Rightarrow> event list \<Rightarrow> table \<Rightarrow> bool" where
  "events_ok adm ch [] A = True"
| "events_ok adm ch (e # es) A = (event_ok adm e A \<and> events_ok adm ch es (fanout ch e A))"

text \<open>A table follows from another by events that are possible in it.\<close>

definition follows :: "(peer \<Rightarrow> bool) \<Rightarrow> bool \<Rightarrow> table \<Rightarrow> table \<Rightarrow> bool" where
  "follows adm ch A B \<longleftrightarrow> (\<exists>es. events_ok adm ch es A \<and> fanouts ch es A = B)"

lemma fanouts_append: "fanouts ch (es @ fs) A = fanouts ch fs (fanouts ch es A)"
  by (induction es arbitrary: A) simp_all

lemma events_ok_append: "events_ok adm ch (es @ fs) A = (events_ok adm ch es A \<and> events_ok adm ch fs (fanouts ch es A))"
  by (induction es arbitrary: A) simp_all

lemma follows_refl [simp]: "follows adm ch A A"
  unfolding follows_def by (rule exI [of _ "[]"]) simp

lemma follows_trans: "follows adm ch A B \<Longrightarrow> follows adm ch B C \<Longrightarrow> follows adm ch A C"
  unfolding follows_def by (metis events_ok_append fanouts_append)

lemma follows_event: "event_ok adm e A \<Longrightarrow> follows adm ch A (fanout ch e A)"
  unfolding follows_def by (rule exI [of _ "[e]"]) simp

lemma follows_leaves:
  "finite D \<Longrightarrow> follows adm ch A (\<lambda>k. if k \<in> D then None else A k)"
proof (induction D rule: finite_induct)
  case (insert x D)
  let ?B = "\<lambda>k. if k \<in> D then None else A k"
  show ?case
  proof (cases "?B x")
    case None
    then have "(\<lambda>k. if k \<in> insert x D then None else A k) = ?B" by (auto simp: fun_eq_iff)
    with insert.IH show ?thesis by simp
  next
    case (Some a)
    then have "follows adm ch ?B (?B(x := None))" using follows_event [of adm "Leave x" ?B] by (simp add: event_ok_def)
    moreover have "?B(x := None) = (\<lambda>k. if k \<in> insert x D then None else A k)" by (auto simp: fun_eq_iff)
    ultimately show ?thesis using follows_trans [OF insert.IH] by simp
  qed
qed simp

text \<open>
  What a client hears in raw mode: everything the others said since it joined; and what was
  received from it since then.
\<close>

definition hear1 :: "nat \<Rightarrow> event \<Rightarrow> bytes \<Rightarrow> bytes" where
  "hear1 j e acc = (case e of Join i _ _ _ \<Rightarrow> if i = j then [] else acc | Leave i \<Rightarrow> acc
                    | Say i m \<Rightarrow> if i = j then acc else acc @ m)"

definition spoke1 :: "nat \<Rightarrow> event \<Rightarrow> bytes \<Rightarrow> bytes" where
  "spoke1 j e acc = (case e of Join i _ _ _ \<Rightarrow> if i = j then [] else acc | Leave i \<Rightarrow> acc
                     | Say i m \<Rightarrow> if i = j then acc @ m else acc)"

fun heard :: "nat \<Rightarrow> event list \<Rightarrow> bytes \<Rightarrow> bytes" where
  "heard j [] acc = acc"
| "heard j (e # es) acc = heard j es (hear1 j e acc)"

fun spoke :: "nat \<Rightarrow> event list \<Rightarrow> bytes \<Rightarrow> bytes" where
  "spoke j [] acc = acc"
| "spoke j (e # es) acc = spoke j es (spoke1 j e acc)"

lemma hear1_stream:
  assumes "event_ok adm e A" and "fanout False e A j = Some b" and "\<And>a. A j = Some a \<Longrightarrow> s_stream a = acc"
  shows "s_stream b = hear1 j e acc"
  using assms
  by (cases e) (auto simp: hear1_def event_ok_def said_def fun_upd_def split: if_split_asm)

lemma spoke1_got:
  assumes "event_ok adm e A" and "fanout ch e A j = Some b" and "\<And>a. A j = Some a \<Longrightarrow> s_got a = acc"
  shows "s_got b = spoke1 j e acc"
  using assms
  by (cases e) (auto simp: spoke1_def event_ok_def fun_upd_def split: if_split_asm)

lemma heard_stream:
  assumes "events_ok adm False es A" and "fanouts False es A j = Some b"
    and "\<And>a. A j = Some a \<Longrightarrow> s_stream a = acc"
  shows "s_stream b = heard j es acc"
  using assms
proof (induction es arbitrary: A acc)
  case Nil
  then show ?case by simp
next
  case (Cons e es)
  have "s_stream b = heard j es (hear1 j e acc)"
    by (rule Cons.IH [of "fanout False e A"]) (use Cons.prems hear1_stream [of adm e A j] in auto)
  then show ?case by simp
qed

lemma spoke_got:
  assumes "events_ok adm ch es A" and "fanouts ch es A j = Some b"
    and "\<And>a. A j = Some a \<Longrightarrow> s_got a = acc"
  shows "s_got b = spoke j es acc"
  using assms
proof (induction es arbitrary: A acc)
  case Nil
  then show ?case by simp
next
  case (Cons e es)
  have "s_got b = spoke j es (spoke1 j e acc)"
    by (rule Cons.IH [of "fanout ch e A"]) (use Cons.prems spoke1_got [of adm e A ch j] in auto)
  then show ?case by simp
qed

section \<open>The invariant of the client table\<close>

definition client_fds :: "broker_client list \<Rightarrow> fd set" where
  "client_fds cs = {f. 0 \<le> f \<and> (\<exists>i < length cs. cfd (cs ! i) = f)}"

definition table_inv :: "nat \<Rightarrow> nat \<Rightarrow> fd set \<Rightarrow> broker_client list \<Rightarrow> sys \<Rightarrow> bool" where
  "table_inv mc mb base cs s \<longleftrightarrow>
     mc \<le> length cs \<and> (\<forall>i < length cs. client_ok mb (cs ! i))
     \<and> (\<forall>i < length cs. mc \<le> i \<longrightarrow> cfd (cs ! i) = - 1)
     \<and> (\<forall>i < length cs. \<forall>j < length cs. i \<noteq> j \<and> 0 \<le> cfd (cs ! i) \<longrightarrow> cfd (cs ! i) \<noteq> cfd (cs ! j))
     \<and> set (open_fds s) = base \<union> client_fds cs \<and> base \<inter> client_fds cs = {}"

definition slot_of :: "broker_client \<Rightarrow> sys \<Rightarrow> slot" where
  "slot_of c s = \<lparr>s_fd = cfd c, s_id = cid c, s_peer = peer_of s (cfd c), s_bol = line_start c, s_got = got s (cfd c),
                   s_stream = sent s (cfd c) @ pending c\<rparr>"

definition table_of :: "broker_client list \<Rightarrow> sys \<Rightarrow> table" where
  "table_of cs s = (\<lambda>i. if i < length cs \<and> 0 \<le> cfd (cs ! i) then Some (slot_of (cs ! i) s) else None)"

lemma client_fds_update_same:
  "i < length cs \<Longrightarrow> cfd c = cfd (cs ! i) \<Longrightarrow> client_fds (cs[i := c]) = client_fds cs"
  by (auto simp: client_fds_def nth_list_update split: if_splits)

lemma table_inv_distinct:
  "table_inv mc mb base cs s \<Longrightarrow> i < length cs \<Longrightarrow> j < length cs \<Longrightarrow> i \<noteq> j \<Longrightarrow> 0 \<le> cfd (cs ! i) \<Longrightarrow>
     cfd (cs ! j) \<noteq> cfd (cs ! i)"
  unfolding table_inv_def by metis

lemma table_inv_ok: "table_inv mc mb base cs s \<Longrightarrow> i < length cs \<Longrightarrow> client_ok mb (cs ! i)"
  unfolding table_inv_def by blast

lemma table_inv_update:
  assumes "table_inv mc mb base cs s" and "i < length cs" and "cfd c = cfd (cs ! i)" and "client_ok mb c"
    and "set (open_fds s') = set (open_fds s)"
  shows "table_inv mc mb base (cs[i := c]) s'"
  using assms unfolding table_inv_def
  by (simp add: client_fds_update_same nth_list_update)

lemma table_of_update:
  assumes "table_inv mc mb base cs s" and "i < length cs" and "cfd c = cfd (cs ! i)" and "0 \<le> cfd c"
    and "\<And>f. f \<noteq> cfd c \<Longrightarrow> sent s' f = sent s f \<and> got s' f = got s f \<and> peer_of s' f = peer_of s f"
  shows "table_of (cs[i := c]) s' = (table_of cs s)(i \<mapsto> slot_of c s')"
proof
  fix k
  show "table_of (cs[i := c]) s' k = ((table_of cs s)(i \<mapsto> slot_of c s')) k"
  proof (cases "k = i")
    case True
    with assms show ?thesis by (simp add: table_of_def)
  next
    case False
    then have "k < length cs \<Longrightarrow> cfd (cs ! k) \<noteq> cfd c"
      using table_inv_distinct [OF assms(1,2)] assms(3,4) by metis
    with False assms(5) show ?thesis by (auto simp: table_of_def slot_of_def nth_list_update)
  qed
qed

lemma table_of_cong: "sent s' = sent s \<Longrightarrow> got s' = got s \<Longrightarrow> peer_of s' = peer_of s \<Longrightarrow> table_of cs s' = table_of cs s"
  by (simp add: table_of_def slot_of_def fun_eq_iff)

lemma table_inv_cong:
  "set (open_fds s') = set (open_fds s) \<Longrightarrow> table_inv mc mb base cs s' = table_inv mc mb base cs s"
  by (simp add: table_inv_def)

lemma drop_client_effect:
  assumes "drop_client cs i s = (cs', s')" and "table_inv mc mb base cs s" and "i < length cs"
    and "0 \<le> cfd (cs ! i)"
  shows "table_inv mc mb base cs' s'" and "table_of cs' s' = (table_of cs s)(i := None)"
    and "length cs' = length cs" and "sent s' = sent s" and "got s' = got s" and "peer_of s' = peer_of s"
    and "\<And>k. k \<noteq> i \<Longrightarrow> cs' ! k = cs ! k" and "cfd (cs' ! i) = - 1"
    and "open_fds s' = removeAll (cfd (cs ! i)) (open_fds s)"
proof -
  define c where "c = (cs ! i)\<lparr>cfd := - 1, cid := 0, line_start := True, out := [], out_len := 0, out_off := 0\<rparr>"
  have e: "cs' = cs[i := c]" "s' = close_quiet (cfd (cs ! i)) s"
    using assms(1) by (auto simp: drop_client_def c_def case_prod_unfold Let_def)
  have ok: "client_ok mb c" "cfd c = - 1" by (simp_all add: c_def client_ok_def)
  have fds: "client_fds cs' = client_fds cs - {cfd (cs ! i)}"
    using assms(3) ok(2) table_inv_distinct [OF assms(2,3) _ _ assms(4)]
    by (auto simp: client_fds_def e nth_list_update split: if_splits) metis
  have o: "set (open_fds s') = set (open_fds s) - {cfd (cs ! i)}" using assms(4) by (simp add: e)
  have base: "cfd (cs ! i) \<notin> base"
    using assms(2-4) unfolding table_inv_def client_fds_def by blast
  show "table_inv mc mb base cs' s'"
  proof -
    have d: "\<forall>j < length cs'. \<forall>k < length cs'. j \<noteq> k \<and> 0 \<le> cfd (cs' ! j) \<longrightarrow> cfd (cs' ! j) \<noteq> cfd (cs' ! k)"
      using table_inv_distinct [OF assms(2)] ok(2) unfolding e length_list_update
      by (metis nth_list_update_eq nth_list_update_neq neg_0_le_iff_le not_one_le_zero)
    have k: "\<forall>k < length cs'. client_ok mb (cs' ! k)"
      using table_inv_ok [OF assms(2)] ok(1) unfolding e length_list_update
      by (metis nth_list_update_eq nth_list_update_neq)
    have u: "\<forall>k < length cs'. mc \<le> k \<longrightarrow> cfd (cs' ! k) = - 1" "mc \<le> length cs'"
      using assms(2,3) ok(2) by (simp_all add: table_inv_def e nth_list_update)
    have "set (open_fds s') = base \<union> client_fds cs'" "base \<inter> client_fds cs' = {}"
      using assms(2) base unfolding o fds table_inv_def by blast+
    with d k u show ?thesis by (simp add: table_inv_def)
  qed
  show "table_of cs' s' = (table_of cs s)(i := None)"
    using assms(3) ok by (auto simp: table_of_def slot_of_def e fun_eq_iff nth_list_update)
  show "length cs' = length cs" "sent s' = sent s" "got s' = got s" "peer_of s' = peer_of s" by (simp_all add: e)
  show "cfd (cs' ! i) = - 1" using assms(3) ok by (simp add: e)
  show "\<And>k. k \<noteq> i \<Longrightarrow> cs' ! k = cs ! k" by (simp add: e)
  show "open_fds s' = removeAll (cfd (cs ! i)) (open_fds s)" using assms(4) by (simp add: e)
qed

section \<open>A pass refines the specification\<close>

text \<open>
  The loop over the receivers: whoever is not dropped has the message at the end of its stream,
  and whoever is dropped had no room for it (or memory was short).
\<close>

definition delivered :: "nat list \<Rightarrow> nat \<Rightarrow> bytes \<Rightarrow> table \<Rightarrow> table \<Rightarrow> bool" where
  "delivered js i msg A B \<longleftrightarrow>
     (\<forall>k. if k \<in> set js \<and> k \<noteq> i
          then B k = None \<or> B k = map_option (\<lambda>b. b\<lparr>s_stream := s_stream b @ msg\<rparr>) (A k)
          else B k = A k)"

lemma delivered_Cons:
  assumes "delivered js i msg A' B" and "j \<notin> set js" and "\<And>k. k \<noteq> j \<Longrightarrow> A' k = A k"
    and "j = i \<Longrightarrow> A' j = A j"
    and "j \<noteq> i \<Longrightarrow> A' j = None \<or> A' j = map_option (\<lambda>b. b\<lparr>s_stream := s_stream b @ msg\<rparr>) (A j)"
  shows "delivered (j # js) i msg A B"
  unfolding delivered_def
proof
  fix k
  have k: "if k \<in> set js \<and> k \<noteq> i
      then B k = None \<or> B k = map_option (\<lambda>b. b\<lparr>s_stream := s_stream b @ msg\<rparr>) (A' k) else B k = A' k"
    using assms(1) unfolding delivered_def by (rule spec)
  show "if k \<in> set (j # js) \<and> k \<noteq> i
      then B k = None \<or> B k = map_option (\<lambda>b. b\<lparr>s_stream := s_stream b @ msg\<rparr>) (A k) else B k = A k"
  proof (cases "k = j")
    case True
    with k assms(2,4,5) show ?thesis by (cases "j = i") auto
  next
    case False
    with k assms(3) [OF False] show ?thesis by (cases "k \<in> set js"; cases "k = i") simp_all
  qed
qed

definition drops_justified :: "nat \<Rightarrow> bytes \<Rightarrow> broker_client list \<Rightarrow> sys \<Rightarrow> broker_client list \<Rightarrow> bool" where
  "drops_justified mb msg cs s cs' \<longleftrightarrow>
     (\<forall>k < length cs. 0 \<le> cfd (cs ! k) \<and> cfd (cs' ! k) < 0 \<longrightarrow>
        mb < length (pending (cs ! k)) + length msg \<or> False \<in> set (alloc_q s))"

lemma broadcast_effect:
  assumes "broadcast js i msg mb cs s = (cs', s')" and "table_inv mc mb base cs s"
    and "distinct js" and "\<forall>j \<in> set js. j < length cs"
  shows "table_inv mc mb base cs' s' \<and> length cs' = length cs \<and> sent s' = sent s \<and> got s' = got s \<and> peer_of s' = peer_of s
    \<and> delivered js i msg (table_of cs s) (table_of cs' s') \<and> drops_justified mb msg cs s cs'
    \<and> (\<forall>k. k \<notin> set js \<or> k = i \<longrightarrow> cs' ! k = cs ! k)"
  using assms
proof (induction js i msg mb cs s rule: broadcast.induct)
  case (1 i msg mb cs s)
  then show ?case by (auto simp: delivered_def drops_justified_def)
next
  case (2 j js i msg mb cs s)
  show ?case
  proof (cases "cfd (cs ! j) \<ge> 0 \<and> j \<noteq> i")
    case False
    then have "broadcast js i msg mb cs s = (cs', s')" using "2.prems"(1) by (simp split: if_splits)
    note IH = "2.IH"(3) [OF False this "2.prems"(2)]
    have js: "j \<notin> set js" "distinct js" "\<forall>j \<in> set js. j < length cs" using "2.prems"(3,4) by auto
    note IH = IH [OF js(2,3)]
    have "j = i \<or> table_of cs s j = None" using False by (auto simp: table_of_def)
    then have "delivered (j # js) i msg (table_of cs s) (table_of cs' s')"
      by (intro delivered_Cons [of js i msg "table_of cs s"]) (use IH js in auto)
    with IH show ?thesis by simp
  next
    case True
    have j: "j < length cs" "j \<notin> set js" "distinct js" "0 \<le> cfd (cs ! j)"
      using "2.prems"(3,4) True by auto
    obtain rc c s1 where q: "queue_bytes (cs ! j) msg mb s = (rc, c, s1)" using prod_cases3 by blast
    note ok = table_inv_ok [OF "2.prems"(2) j(1)]
    note eff = queue_bytes_effect [OF ok q j(4)]
    have al: "set (alloc_q s1) \<subseteq> set (alloc_q s)" using eff(1) by (simp add: quiet_def loop_frame_def)
    have inv1: "table_inv mc mb base (cs[j := c]) s1"
      using eff by (intro table_inv_update [OF "2.prems"(2) j(1)]) (auto simp: quiet_def)
    have t1: "table_of (cs[j := c]) s1 = (table_of cs s)(j \<mapsto> slot_of c s1)"
      using eff j(4) by (intro table_of_update [OF "2.prems"(2) j(1)]) (auto simp: quiet_def)
    show ?thesis
    proof (cases "rc < 0")
      case full: True
      let ?l = "wcat_log WCAT_LOG_WARN ''broker_drop'' ''dropping slow broker client'' s1"
      obtain cs2 s2 where d: "drop_client (cs[j := c]) j ?l = (cs2, s2)" by force
      have ql: "quiet s1 ?l" by simp
      have invl: "table_inv mc mb base (cs[j := c]) ?l"
        using inv1 ql table_inv_cong [of ?l s1] by (simp add: quiet_def)
      have jl: "j < length (cs[j := c])" "0 \<le> cfd (cs[j := c] ! j)" using j eff(2) by auto
      note de = drop_client_effect [OF d invl jl]
      have rec: "broadcast js i msg mb cs2 s2 = (cs', s')"
        using "2.prems"(1) True q full d by simp
      have lens: "\<forall>k \<in> set js. k < length cs2" using "2.prems"(4) de(3) by simp
      note IH = "2.IH"(1) [OF True q [symmetric] refl refl full d [symmetric] refl rec de(1) j(3) lens]
      have t2: "table_of cs2 s2 = (table_of cs s)(j := None)"
        using de(2) t1 ql table_of_cong [of ?l s1] by (simp add: quiet_def)
      have a2: "set (alloc_q s2) \<subseteq> set (alloc_q s)"
        using loop_frame_drop [of ?l "cs[j := c]" j] d al loop_frame_quiet [OF ql]
        by (auto simp: loop_frame_def)
      have dj: "mb < length (pending (cs ! j)) + length msg \<or> False \<in> set (alloc_q s)"
        using eff(4) full by auto
      have same: "k \<noteq> j \<Longrightarrow> cs2 ! k = cs ! k" for k using de(7) by simp
      have "drops_justified mb msg cs s cs'"
        using IH same dj a2 de(3) unfolding drops_justified_def by (metis length_list_update subsetD)
      have del: "delivered js i msg (table_of cs2 s2) (table_of cs' s')" using IH by blast
      have "delivered (j # js) i msg (table_of cs s) (table_of cs' s')"
        by (rule delivered_Cons [OF del j(2)]) (simp_all add: t2 True)
      moreover note \<open>drops_justified mb msg cs s cs'\<close>
      ultimately show ?thesis
        using IH de(3-6) eff(1) ql same True by (auto simp: quiet_def)
    next
      case room: False
      with eff(4) have p: "pending c = pending (cs ! j) @ msg" by auto
      have rec: "broadcast js i msg mb (cs[j := c]) s1 = (cs', s')" using "2.prems"(1) True q room by simp
      have lens: "\<forall>k \<in> set js. k < length (cs[j := c])" using "2.prems"(4) by simp
      note IH = "2.IH"(2) [OF True q [symmetric] refl refl room rec inv1 j(3) lens]
      have t2: "table_of (cs[j := c]) s1 j = map_option (\<lambda>b. b\<lparr>s_stream := s_stream b @ msg\<rparr>) (table_of cs s j)"
        using t1 j eff(1,2) p by (simp add: table_of_def slot_of_def quiet_def)
      have same: "cs' ! j = c" using IH j(1,2) by simp
      have "drops_justified mb msg cs s cs'"
        unfolding drops_justified_def
      proof (intro allI impI)
        fix k
        assume k: "k < length cs" "0 \<le> cfd (cs ! k) \<and> cfd (cs' ! k) < 0"
        then have "k \<noteq> j" using same eff(2) by auto
        with k IH al show "mb < length (pending (cs ! k)) + length msg \<or> False \<in> set (alloc_q s)"
          by (auto simp: drops_justified_def)
      qed
      moreover have "delivered (j # js) i msg (table_of cs s) (table_of cs' s')"
        by (rule delivered_Cons [of js i msg "table_of (cs[j := c]) s1", OF _ j(2)])
          (simp_all only: IH t2 True simp_thms, simp add: t1)
      ultimately show ?thesis
        using IH eff(1) True by (auto simp: quiet_def)
    qed
  qed
qed

text \<open>A delivery is the event \<open>Say\<close> followed by the departures.\<close>

lemma delivered_follows:
  assumes "delivered [0..<mc] i msg A' B" and "A' = A(i \<mapsto> a\<lparr>s_got := s_got a @ m, s_bol := bol\<rparr>)"
    and "A i = Some a" and "m \<noteq> []" and "msg = said ch a m"
    and "bol = (if ch then chat_bol (s_bol a) m else s_bol a)" and "\<And>k. mc \<le> k \<Longrightarrow> A k = None"
  shows "follows adm ch A B"
proof -
  let ?S = "fanout ch (Say i m) A"
  let ?D = "{k. k < mc \<and> B k = None}"
  have "follows adm ch A ?S" using assms(3,4) by (intro follows_event) (simp add: event_ok_def)
  moreover have "follows adm ch ?S (\<lambda>k. if k \<in> ?D then None else ?S k)" by (rule follows_leaves) simp
  moreover have "(\<lambda>k. if k \<in> ?D then None else ?S k) = B"
  proof
    fix k
    have k: "if k \<in> set [0..<mc] \<and> k \<noteq> i
      then B k = None \<or> B k = map_option (\<lambda>b. b\<lparr>s_stream := s_stream b @ msg\<rparr>) (A' k) else B k = A' k"
      using assms(1) unfolding delivered_def by (rule spec)
    show "(if k \<in> ?D then None else ?S k) = B k"
      using k assms(2,3,5,6) assms(7) [of k] by (cases "k = i"; cases "k < mc") auto
  qed
  ultimately show ?thesis using follows_trans by metis
qed

lemma table_of_beyond: "table_inv mc mb base cs s \<Longrightarrow> mc \<le> k \<Longrightarrow> table_of cs s k = None"
  unfolding table_inv_def table_of_def by auto

text \<open>The two facts every part of a pass keeps.\<close>

definition simulates :: "nat \<Rightarrow> nat \<Rightarrow> fd set \<Rightarrow> (peer \<Rightarrow> bool) \<Rightarrow> bool \<Rightarrow> broker_client list \<times> sys \<Rightarrow> broker_client list \<times> sys \<Rightarrow> bool" where
  "simulates mc mb base adm ch p q \<longleftrightarrow>
     table_inv mc mb base (fst q) (snd q) \<and> length (fst q) = length (fst p)
     \<and> follows adm ch (table_of (fst p) (snd p)) (table_of (fst q) (snd q))"

lemma simulates_trans:
  "simulates mc mb base adm ch p q \<Longrightarrow> simulates mc mb base adm ch q r \<Longrightarrow> simulates mc mb base adm ch p r"
  by (auto simp: simulates_def intro: follows_trans)

lemma simulates_quiet:
  "table_inv mc mb base cs s \<Longrightarrow> sent s' = sent s \<Longrightarrow> got s' = got s \<Longrightarrow> peer_of s' = peer_of s \<Longrightarrow>
     set (open_fds s') = set (open_fds s) \<Longrightarrow> simulates mc mb base adm ch (cs, s) (cs, s')"
  using table_inv_cong [of s' s] table_of_cong [of s' s] by (simp add: simulates_def)

lemma simulates_drop:
  assumes "table_inv mc mb base cs s" and "i < length cs" and "0 \<le> cfd (cs ! i)"
  shows "simulates mc mb base adm ch (cs, s) (drop_client cs i s)"
proof -
  obtain cs' s' where d: "drop_client cs i s = (cs', s')" by force
  note de = drop_client_effect [OF d assms]
  have "table_of cs s i \<noteq> None" using assms by (simp add: table_of_def)
  then have "follows adm ch (table_of cs s) ((table_of cs s)(i := None))"
    using follows_event [of adm "Leave i" "table_of cs s" ch] by (simp add: event_ok_def)
  with de d show ?thesis by (simp add: simulates_def)
qed

text \<open>Dropping a client whose record and descriptor were changed before.\<close>

lemma simulates_update_drop:
  assumes "table_inv mc mb base cs s" and "i < length cs" and "0 \<le> cfd (cs ! i)"
    and "cfd c = cfd (cs ! i)" and "client_ok mb c" and "set (open_fds s') = set (open_fds s)"
    and "\<And>f. f \<noteq> cfd (cs ! i) \<Longrightarrow> sent s' f = sent s f \<and> got s' f = got s f \<and> peer_of s' f = peer_of s f"
  shows "simulates mc mb base adm ch (cs, s) (drop_client (cs[i := c]) i s')"
proof -
  have inv: "table_inv mc mb base (cs[i := c]) s'" using assms by (intro table_inv_update) auto
  obtain cs' s2 where d: "drop_client (cs[i := c]) i s' = (cs', s2)" by force
  note de = drop_client_effect [OF d inv]
  have t: "table_of (cs[i := c]) s' = (table_of cs s)(i \<mapsto> slot_of c s')"
    using assms by (intro table_of_update [OF assms(1)]) auto
  have "table_of cs s i \<noteq> None" using assms(2,3) by (simp add: table_of_def)
  then have "follows adm ch (table_of cs s) ((table_of cs s)(i := None))"
    using follows_event [of adm "Leave i" "table_of cs s" ch] by (simp add: event_ok_def)
  with de d t assms(2-4) show ?thesis by (simp add: simulates_def)
qed

lemma simulates_broadcast:
  assumes inv: "table_inv mc mb base cs s" and i: "i < length cs" "0 \<le> cfd (cs ! i)" and m: "m \<noteq> []"
    and s': "sent s' = sent s" "got s' = (got s)(cfd (cs ! i) := got s (cfd (cs ! i)) @ m)"
      "set (open_fds s') = set (open_fds s)" "peer_of s' = peer_of s"
    and c: "c = (cs ! i)\<lparr>line_start := (if ch then chat_bol (line_start (cs ! i)) m else line_start (cs ! i))\<rparr>"
    and msg: "msg = (if ch then chat_text (cid (cs ! i)) (line_start (cs ! i)) m else m)"
  shows "simulates mc mb base adm ch (cs, s) (broadcast [0..<mc] i msg mb (cs[i := c]) s')"
proof -
  have ok: "client_ok mb c" "cfd c = cfd (cs ! i)"
    using table_inv_ok [OF inv i(1)] by (simp_all add: c client_ok_def)
  have inv1: "table_inv mc mb base (cs[i := c]) s'" using table_inv_update [OF inv i(1) ok(2,1) s'(3)] .
  obtain cs' s2 where b: "broadcast [0..<mc] i msg mb (cs[i := c]) s' = (cs', s2)" by force
  have mc: "mc \<le> length cs" using inv by (simp add: table_inv_def)
  note be = broadcast_effect [OF b inv1]
  have be: "table_inv mc mb base cs' s2 \<and> length cs' = length cs
      \<and> delivered [0..<mc] i msg (table_of (cs[i := c]) s') (table_of cs' s2)"
    using be mc by simp
  have t: "table_of (cs[i := c]) s' = (table_of cs s)(i \<mapsto> slot_of c s')"
    using i(2) s' ok(2) by (intro table_of_update [OF inv i(1)]) auto
  let ?a = "slot_of (cs ! i) s"
  have a: "table_of cs s i = Some ?a" using i by (simp add: table_of_def)
  have "slot_of c s' = ?a\<lparr>s_got := s_got ?a @ m, s_bol := (if ch then chat_bol (s_bol ?a) m else s_bol ?a)\<rparr>"
    using s' by (simp add: slot_of_def c pending_def)
  moreover have "msg = said ch ?a m" by (simp add: msg said_def slot_of_def)
  ultimately have "follows adm ch (table_of cs s) (table_of cs' s2)"
    using be t a m table_of_beyond [OF inv]
    by (intro delivered_follows [where A = "table_of cs s" and A' = "table_of (cs[i := c]) s'" and i = i
        and m = m and msg = msg and mc = mc and a = ?a]) auto
  with be b show ?thesis by (simp add: simulates_def)
qed

lemma simulates_receive:
  assumes inv: "table_inv mc mb base cs s" and i: "i < length cs" "0 \<le> cfd (cs ! i)"
  shows "simulates mc mb base adm (chat cfg) (cs, s) (broker_receive cfg mc mb i cs s)"
proof -
  obtain r s1 where r: "read_retry (cfd (cs ! i)) WCAT_BROKER_BUF s = (r, s1)" by force
  note rf = read_retry_frame [OF r]
  have ok: "client_ok mb (cs ! i)" using table_inv_ok [OF inv i(1)] .
  show ?thesis
  proof (cases "r = None \<or> r = Some []")
    case True
    then have "got s1 f = got s f" for f using rf by (cases "f = cfd (cs ! i)") auto
    then have g: "got s1 = got s" by (simp add: fun_eq_iff)
    have q: "simulates mc mb base adm (chat cfg) (cs, s) (cs, s1)"
      using g rf by (intro simulates_quiet [OF inv]) auto
    then have "table_inv mc mb base cs s1" by (simp add: simulates_def)
    from simulates_trans [OF q simulates_drop [OF this i]] q True r show ?thesis
      by (auto simp: broker_receive_def)
  next
    case False
    then obtain m where m: "r = Some m" "m \<noteq> []" by auto
    define s2 where "s2 = (if hex cfg then wcat_hexdump ''broker'' m s1 else s1)"
    have q2: "quiet s1 s2" by (simp add: s2_def)
    have s2: "sent s2 = sent s" "got s2 = (got s)(cfd (cs ! i) := got s (cfd (cs ! i)) @ m)"
        "set (open_fds s2) = set (open_fds s)" "peer_of s2 = peer_of s"
      using rf m q2 by (auto simp: quiet_def fun_eq_iff)
    show ?thesis
    proof (cases "chat cfg")
      case raw: False
      have "cs[i := cs ! i] = cs" by simp
      with simulates_broadcast [OF inv i m(2) s2, of "cs ! i" False m] r m raw show ?thesis
        by (simp add: broker_receive_def s2_def)
    next
      case True
      obtain mo c s3 where f: "format_chat_message (cs ! i) m s2 = (mo, c, s3)" using prod_cases3 by blast
      note fe = format_chat_message_effect [OF f]
      have s3: "sent s3 = sent s" "got s3 = (got s)(cfd (cs ! i) := got s (cfd (cs ! i)) @ m)"
          "set (open_fds s3) = set (open_fds s)" "peer_of s3 = peer_of s"
        using fe(1) s2 by (simp_all add: quiet_def)
      show ?thesis
      proof (cases mo)
        case None
        let ?l = "wcat_log WCAT_LOG_WARN ''broker_drop'' ''dropping broker client after chat format failure'' s3"
        have "quiet s3 ?l" by simp
        then have l: "sent ?l = sent s3" "got ?l = got s3" "set (open_fds ?l) = set (open_fds s3)" "peer_of ?l = peer_of s3"
          by (simp_all add: quiet_def)
        have c: "cfd c = cfd (cs ! i)" "client_ok mb c" using fe(2) ok by (auto simp: client_ok_def)
        have "simulates mc mb base adm (chat cfg) (cs, s) (drop_client (cs[i := c]) i ?l)"
          using l s3 by (intro simulates_update_drop [OF inv i c]) auto
        with None f r m True show ?thesis by (simp add: broker_receive_def s2_def)
      next
        case (Some msg)
        with simulates_broadcast [OF inv i m(2) s3, of c True msg] fe(3) [OF Some] f r m True show ?thesis
          by (simp add: broker_receive_def s2_def)
      qed
    qed
  qed
qed

lemma simulates_service:
  assumes inv: "table_inv mc mb base cs s" and i: "i < length cs"
  shows "simulates mc mb base adm (chat cfg) (cs, s) (broker_service cfg mc mb polled i cs s)"
proof (cases "cfd (cs ! i) < 0 \<or> revents_of polled (cfd (cs ! i)) = None")
  case True
  with inv show ?thesis by (auto simp: broker_service_def simulates_def)
next
  case False
  then obtain rev where rev: "revents_of polled (cfd (cs ! i)) = Some rev" and f: "0 \<le> cfd (cs ! i)" by auto
  obtain rc c s1 where fl: "(if POLLOUT \<in> rev then flush_client (cs ! i) s else (0, cs ! i, s)) = (rc, c, s1)"
    using prod_cases3 by blast
  note ok = table_inv_ok [OF inv i]
  have fe: "flush_frame (cfd (cs ! i)) s s1 \<and> cfd c = cfd (cs ! i) \<and> cid c = cid (cs ! i)
      \<and> line_start c = line_start (cs ! i) \<and> client_ok mb c
      \<and> sent s1 (cfd (cs ! i)) @ pending c = sent s (cfd (cs ! i)) @ pending (cs ! i)"
    using fl flush_client_effect [of "cs ! i" s rc c s1 mb] ok f
    by (cases "POLLOUT \<in> rev") (auto simp: flush_frame_def)
  have t: "table_of (cs[i := c]) s1 = (table_of cs s)(i \<mapsto> slot_of c s1)"
    using fe f by (intro table_of_update [OF inv i]) (auto simp: flush_frame_def)
  have "slot_of c s1 = slot_of (cs ! i) s" using fe by (simp add: slot_of_def flush_frame_def)
  then have t': "table_of (cs[i := c]) s1 = table_of cs s"
    using t i f by (simp add: table_of_def fun_eq_iff)
  have inv1: "table_inv mc mb base (cs[i := c]) s1"
    using fe by (intro table_inv_update [OF inv i]) (auto simp: flush_frame_def)
  have q: "simulates mc mb base adm (chat cfg) (cs, s) (cs[i := c], s1)" using inv1 t' by (simp add: simulates_def)
  have i1: "i < length (cs[i := c])" "0 \<le> cfd (cs[i := c] ! i)" using i f fe by simp_all
  show ?thesis
    using rev f fl q simulates_drop [OF inv i f, of adm "chat cfg"] simulates_trans [OF q simulates_drop [OF inv1 i1]]
      simulates_trans [OF q simulates_receive [OF inv1 i1]]
    by (auto simp: broker_service_def split: if_splits)
qed

lemma simulates_services:
  "table_inv mc mb base cs s \<Longrightarrow> \<forall>i \<in> set is. i < length cs \<Longrightarrow>
     simulates mc mb base adm (chat cfg) (cs, s) (broker_services cfg mc mb polled is cs s)"
proof (induction "is" arbitrary: cs s)
  case Nil
  then show ?case by (simp add: simulates_def)
next
  case (Cons i "is")
  obtain cs1 s1 where v: "broker_service cfg mc mb polled i cs s = (cs1, s1)" by force
  have 1: "simulates mc mb base adm (chat cfg) (cs, s) (cs1, s1)"
    using simulates_service [OF Cons.prems(1), of i adm cfg polled] Cons.prems(2) v by simp
  then have "simulates mc mb base adm (chat cfg) (cs1, s1) (broker_services cfg mc mb polled is cs1 s1)"
    using Cons.prems(2) by (intro Cons.IH) (auto simp: simulates_def)
  with simulates_trans [OF 1] v show ?case by simp
qed

text \<open>A new client takes a free slot; its peer has passed the access lists.\<close>

lemma free_slot_le: "m \<le> length cs \<Longrightarrow> free_slot cs m \<le> m"
  by (induction cs m rule: free_slot.induct) auto

lemma free_slot_free: "m \<le> length cs \<Longrightarrow> free_slot cs m < m \<Longrightarrow> cfd (cs ! free_slot cs m) < 0"
  by (induction cs m rule: free_slot.induct) (auto split: if_splits)

definition admitted :: "inet \<Rightarrow> wcat_config \<Rightarrow> peer \<Rightarrow> bool" where
  "admitted L cfg = access_allows L (allow_list cfg) (deny_list cfg)"

lemma table_inv_join:
  assumes inv: "table_inv mc mb base cs s" and i: "i < mc" "cfd (cs ! i) < 0" and f: "0 \<le> fd"
    and fresh: "fd \<notin> set (open_fds s)" and o: "set (open_fds s') = insert fd (set (open_fds s))"
    and c: "c = (cs ! i)\<lparr>cfd := fd, cid := k, line_start := True\<rparr>"
  shows "table_inv mc mb base (cs[i := c]) s'"
proof -
  have len: "i < length cs" "mc \<le> length cs" using inv i(1) by (auto simp: table_inv_def)
  have new: "fd \<notin> base" "fd \<notin> client_fds cs" using inv fresh by (auto simp: table_inv_def)
  then have other: "j < length cs \<Longrightarrow> cfd (cs ! j) \<noteq> fd" for j using f by (auto simp: client_fds_def)
  have ok: "\<forall>j < length (cs[i := c]). client_ok mb (cs[i := c] ! j)"
  proof -
    have "client_ok mb c" using table_inv_ok [OF inv len(1)] f by (simp add: c client_ok_def)
    with table_inv_ok [OF inv] len show ?thesis by (simp add: nth_list_update)
  qed
  have u: "\<forall>j < length (cs[i := c]). mc \<le> j \<longrightarrow> cfd (cs[i := c] ! j) = - 1"
    using inv len i(1) by (simp add: table_inv_def nth_list_update)
  have d: "\<forall>j < length (cs[i := c]). \<forall>k < length (cs[i := c]). j \<noteq> k \<and> 0 \<le> cfd (cs[i := c] ! j) \<longrightarrow>
      cfd (cs[i := c] ! j) \<noteq> cfd (cs[i := c] ! k)"
  proof (intro allI impI)
    fix j m
    assume jk: "j < length (cs[i := c])" "m < length (cs[i := c])" "j \<noteq> m \<and> 0 \<le> cfd (cs[i := c] ! j)"
    have lens: "j < length cs" "m < length cs" using jk by simp_all
    note o = other [OF lens(1)] other [OF lens(2)]
    show "cfd (cs[i := c] ! j) \<noteq> cfd (cs[i := c] ! m)"
    proof (cases "j = i")
      case True
      with o jk(3) len show ?thesis by (simp add: c nth_list_update)
    next
      case j: False
      then have "cfd (cs ! m) \<noteq> cfd (cs ! j)" using table_inv_distinct [OF inv lens] jk(3) by simp
      with j o jk(3) lens len(1) show ?thesis by (cases "m = i") (simp_all add: c)
    qed
  qed
  have fds: "client_fds (cs[i := c]) = insert fd (client_fds cs)"
  proof (intro set_eqI iffI)
    fix x
    assume "x \<in> client_fds (cs[i := c])"
    then show "x \<in> insert fd (client_fds cs)"
      using len by (auto simp: client_fds_def nth_list_update c split: if_splits)
  next
    fix x
    assume x: "x \<in> insert fd (client_fds cs)"
    show "x \<in> client_fds (cs[i := c])"
    proof (cases "x = fd")
      case True
      have "i < length (cs[i := c]) \<and> cfd (cs[i := c] ! i) = fd" using len by (simp add: c)
      with True f show ?thesis unfolding client_fds_def by blast
    next
      case False
      with x obtain j where j: "0 \<le> x" "j < length cs" "cfd (cs ! j) = x" by (auto simp: client_fds_def)
      with i(2) have "j \<noteq> i" by auto
      with j show ?thesis by (auto simp: client_fds_def intro!: exI [of _ j])
    qed
  qed
  have b: "set (open_fds s) = base \<union> client_fds cs" "base \<inter> client_fds cs = {}"
    using inv by (simp_all add: table_inv_def)
  have "set (open_fds s') = base \<union> client_fds (cs[i := c])" "base \<inter> client_fds (cs[i := c]) = {}"
    using b new(1) unfolding o fds by blast+
  moreover have "mc \<le> length (cs[i := c])" using len by simp
  ultimately show ?thesis unfolding table_inv_def using ok u d by blast
qed

lemma table_of_set:
  "i < length cs \<Longrightarrow> 0 \<le> cfd c \<Longrightarrow> table_of (cs[i := c]) s = (table_of cs s)(i \<mapsto> slot_of c s)"
  by (auto simp: table_of_def fun_eq_iff nth_list_update)

lemma simulates_accept:
  assumes inv: "table_inv mc mb base (clients b) s"
    and a: "broker_accept L cfg l mc b s = (go, b', s')"
  shows "simulates mc mb base (admitted L cfg) ch (clients b, s) (clients b', s')"
proof -
  obtain r s1 where ac: "wcat_accept l s = (r, s1)" by force
  note ae = wcat_accept_effect [OF ac]
  show ?thesis
  proof (cases r)
    case None
    have pe: "peer_of s1 = peer_of s" using wcat_accept_peer [OF ac] None by simp
    have "b' = b" "s' = s1" using None a ac by (simp_all add: broker_accept_def)
    with ae pe None show ?thesis by (simp add: simulates_quiet [OF inv])
  next
    case (Some q)
    obtain fd h p where q: "q = (fd, h, p)" by (cases q) auto
    have n: "0 \<le> fd" "fd \<notin> set (open_fds s)" "open_fds s1 = open_fds s @ [fd]" "sent s1 = (sent s)(fd := [])"
        "got s1 = (got s)(fd := [])" using ae Some q by auto
    have pe: "\<And>f. f \<noteq> fd \<Longrightarrow> peer_of s1 f = peer_of s f" using wcat_accept_peer [OF ac] Some q by simp
    obtain allowed s2 where al: "wcat_access_check_fd L cfg fd s1 = (allowed, s2)" by force
    have q2: "quiet s1 s2" using quiet_access [of s1 L cfg fd] al by simp
    have adm: "allowed = admitted L cfg (peer_of s2 fd)"
      using wcat_access_check_fd_decision [of L cfg fd s1] al q2 by (simp add: admitted_def quiet_def)
    have notc: "j < length (clients b) \<Longrightarrow> 0 \<le> cfd (clients b ! j) \<Longrightarrow> cfd (clients b ! j) \<noteq> fd" for j
      using inv n(2) unfolding table_inv_def client_fds_def by blast
    have t: "table_of (clients b) s3 = table_of (clients b) s"
      if "sent s3 = sent s1" "got s3 = got s1" "peer_of s3 = peer_of s1" for s3
      using that n pe notc by (auto simp: table_of_def slot_of_def fun_eq_iff)
    have closed: "simulates mc mb base (admitted L cfg) ch (clients b, s) (clients b, close_quiet fd s3)"
      if "quiet s1 s3" for s3
      using that n t [of "close_quiet fd s3"] inv table_inv_cong [of "close_quiet fd s3" s]
      by (simp add: simulates_def quiet_def)
    define i where "i = free_slot (clients b) mc"
    have mc: "mc \<le> length (clients b)" using inv by (simp add: table_inv_def)
    show ?thesis
    proof (cases "allowed \<and> i \<noteq> mc")
      case False
      let ?l = "wcat_log WCAT_LOG_WARN ''broker_full'' ''broker client limit reached'' s2"
      have "quiet s1 ?l" using quiet_trans [OF q2 quiet_log] .
      with False a ac Some q al closed [OF q2] closed [of ?l] show ?thesis
        by (auto simp: broker_accept_def i_def [symmetric] Let_def split: if_splits)
    next
      case True
      have i: "i < mc" "cfd (clients b ! i) < 0"
        using True free_slot_le [OF mc] free_slot_free [OF mc] by (auto simp: i_def)
      define c where "c = (clients b ! i)\<lparr>cfd := fd, cid := next_client_id b, line_start := True\<rparr>"
      define s3 where "s3 = wcat_log WCAT_LOG_INFO ''broker_join'' (''client '' @ h @ '':'' @ p @ '' joined'')
        (snd (wcat_set_nonblock fd True s2))"
      have q3: "quiet s1 s3"
        unfolding s3_def by (rule quiet_trans [OF quiet_trans [OF q2 quiet_set_nonblock] quiet_log])
      have r: "clients b' = (clients b)[i := c]" "s' = s3"
        using a ac Some q al True by (auto simp: broker_accept_def i_def [symmetric] c_def s3_def Let_def)
      have inv': "table_inv mc mb base ((clients b)[i := c]) s3"
        by (rule table_inv_join [OF inv i n(1,2) _ c_def]) (use q3 n in \<open>auto simp: quiet_def\<close>)
      have il: "i < length (clients b)" using i mc by simp
      have empty: "pending c = []"
        using table_inv_ok [OF inv il] i(2) by (simp add: client_ok_def pending_def c_def)
      have slot: "slot_of c s3 = \<lparr>s_fd = fd, s_id = next_client_id b, s_peer = peer_of s3 fd, s_bol = True,
          s_got = [], s_stream = []\<rparr>"
        using empty q3 n by (simp add: slot_of_def c_def quiet_def)
      have "table_of ((clients b)[i := c]) s3 = (table_of (clients b) s)(i \<mapsto> slot_of c s3)"
        using t [of s3] q3 il n(1) by (simp add: table_of_set quiet_def c_def)
      then have tj: "table_of ((clients b)[i := c]) s3
          = fanout ch (Join i fd (next_client_id b) (peer_of s3 fd)) (table_of (clients b) s)"
        by (simp add: slot)
      have "table_of (clients b) s i = None" using i(2) by (simp add: table_of_def)
      then have "follows (admitted L cfg) ch (table_of (clients b) s) (table_of ((clients b)[i := c]) s3)"
        unfolding tj using True adm q2 q3 by (intro follows_event) (simp add: event_ok_def quiet_def)
      with inv' r show ?thesis by (simp add: simulates_def)
    qed
  qed
qed

lemma simulates_pass:
  assumes inv: "table_inv mc mb base (clients b) s"
    and p: "broker_pass L cfg l mc mb b s = (brk, b', s')"
  shows "simulates mc mb base (admitted L cfg) (chat cfg) (clients b, s) (clients b', s')"
proof -
  let ?sim = "simulates mc mb base (admitted L cfg) (chat cfg)"
  define pfds where "pfds = broker_pollfds l mc (clients b)"
  obtain rc rev s1 where po: "sys_poll pfds s = (rc, rev, s1)" using prod_cases3 by blast
  have "sent s1 = sent s \<and> got s1 = got s \<and> peer_of s1 = peer_of s \<and> open_fds s1 = open_fds s"
    using po by (auto simp: sys_poll_def Let_def split: list.splits poll_ans.splits)
  then have 1: "?sim (clients b, s) (clients b, s1)" by (intro simulates_quiet [OF inv]) auto
  then have inv1: "table_inv mc mb base (clients b) s1" by (simp add: simulates_def)
  have q: "quiet s1 (wcat_log_errno ''broker_poll'' ''broker poll failed'' s1)" by simp
  have 2: "?sim (clients b, s) (clients b, wcat_log_errno ''broker_poll'' ''broker poll failed'' s1)"
    using q by (intro simulates_trans [OF 1 simulates_quiet [OF inv1]]) (auto simp: quiet_def)
  obtain go b2 s2 where a: "(if POLLIN \<in> hd rev then broker_accept L cfg l mc b s1 else (True, b, s1)) = (go, b2, s2)"
    using prod_cases3 by blast
  have "?sim (clients b, s1) (clients b2, s2)"
  proof (cases "POLLIN \<in> hd rev")
    case True
    with a simulates_accept [OF inv1] show ?thesis by simp
  next
    case False
    with a inv1 show ?thesis by (simp add: simulates_def)
  qed
  with 1 have 3: "?sim (clients b, s) (clients b2, s2)" by (rule simulates_trans)
  then have inv2: "table_inv mc mb base (clients b2) s2" by (simp add: simulates_def)
  obtain cs s3 where v: "broker_services cfg mc mb (zip (map fst (tl pfds)) (tl rev)) [0..<mc] (clients b2) s2
      = (cs, s3)" by force
  have "\<forall>i \<in> set [0..<mc]. i < length (clients b2)" using inv2 by (auto simp: table_inv_def)
  from simulates_services [OF inv2 this, of "admitted L cfg" cfg "zip (map fst (tl pfds)) (tl rev)"] v
  have 4: "?sim (clients b, s) (cs, s3)" using simulates_trans [OF 3] by simp
  show ?thesis
    using p po a v 1 2 3 4 by (auto simp: broker_pass_def pfds_def [symmetric] Let_def split: if_splits)
qed

lemma simulates_loop:
  assumes "table_inv mc mb base (clients b) s" and "broker_loop L cfg l mc mb b s = (rc, b', s')"
  shows "simulates mc mb base (admitted L cfg) (chat cfg) (clients b, s) (clients b', s')"
  using assms
proof (induction L cfg l mc mb b s rule: broker_loop.induct)
  case (1 L cfg l mc mb b s)
  let ?sim = "simulates mc mb base (admitted L cfg) (chat cfg)"
  obtain stop s0 where o: "observe_stop s = (stop, s0)" by force
  have "peer_of s0 = peer_of s"
    using o by (auto simp: observe_stop_def Let_def on_signal_def split: list.splits if_splits)
  then have q: "?sim (clients b, s) (clients b, s0)"
    using observe_stop_frame [OF o] by (intro simulates_quiet [OF "1.prems"(1)]) auto
  then have inv0: "table_inv mc mb base (clients b) s0" by (simp add: simulates_def)
  obtain brk b1 s1 where p: "broker_pass L cfg l mc mb b s0 = (brk, b1, s1)" using prod_cases3 by blast
  have q1: "?sim (clients b, s) (clients b1, s1)" using simulates_trans [OF q simulates_pass [OF inv0 p]] .
  show ?case
  proof (cases "stop \<or> brk")
    case True
    with "1.prems"(2) o p q q1 show ?thesis by (auto simp: broker_loop.simps [of L cfg l mc mb b s] split: if_splits)
  next
    case False
    then have rec: "broker_loop L cfg l mc mb b1 s1 = (rc, b', s')"
      using "1.prems"(2) o p by (simp add: broker_loop.simps [of L cfg l mc mb b s])
    have "table_inv mc mb base (clients b1) s1" using q1 by (simp add: simulates_def)
    from "1.IH" [OF o [symmetric] refl _ p [symmetric] refl refl _ this rec] False
    show ?thesis using simulates_trans [OF q1] by simp
  qed
qed

section \<open>The whole run\<close>

lemma drop_all_effect:
  "table_inv mc mb base cs s \<Longrightarrow> \<forall>i \<in> set is. i < length cs \<Longrightarrow> drop_all is cs s = (cs', s') \<Longrightarrow>
     table_inv mc mb base cs' s' \<and> length cs' = length cs
     \<and> (\<forall>k. cfd (cs' ! k) = (if k \<in> set is \<and> 0 \<le> cfd (cs ! k) then - 1 else cfd (cs ! k)))"
proof (induction "is" arbitrary: cs s)
  case Nil
  then show ?case by simp
next
  case (Cons i "is")
  show ?case
  proof (cases "cfd (cs ! i) \<ge> 0")
    case False
    with Cons.prems have "drop_all is cs s = (cs', s')" by simp
    from Cons.IH [OF Cons.prems(1) _ this] Cons.prems(2) False show ?thesis by auto
  next
    case True
    obtain cs1 s1 where d: "drop_client cs i s = (cs1, s1)" by force
    have i: "i < length cs" using Cons.prems(2) by simp
    note de = drop_client_effect [OF d Cons.prems(1) i True]
    have "drop_all is cs1 s1 = (cs', s')" using Cons.prems(3) d True by simp
    from Cons.IH [OF de(1) _ this] Cons.prems(2) de(3)
    have IH: "table_inv mc mb base cs' s'" "length cs' = length cs"
      "\<And>k. cfd (cs' ! k) = (if k \<in> set is \<and> 0 \<le> cfd (cs1 ! k) then - 1 else cfd (cs1 ! k))" by auto
    have "cfd (cs' ! k) = (if k \<in> set (i # is) \<and> 0 \<le> cfd (cs ! k) then - 1 else cfd (cs ! k))" for k
      using IH(3) [of k] de(7) [of k] de(8) True by (cases "k = i") auto
    with IH(1,2) show ?thesis by blast
  qed
qed

lemma table_inv_init:
  assumes "mc \<le> WCAT_BROKER_LIMIT"
  shows "table_inv mc mb (set (open_fds s)) (clients broker_init) s"
    and "table_of (clients broker_init) s = (\<lambda>_. None)"
  using assms
  by (auto simp: table_inv_def broker_init_def client_fds_def client_init_def client_ok_def table_of_def)

lemma broker_loop_refines:
  assumes "broker_loop L cfg l mc mb broker_init s = (rc, b, s')" and "mc \<le> WCAT_BROKER_LIMIT"
  shows "table_inv mc mb (set (open_fds s)) (clients b) s'"
    and "follows (admitted L cfg) (chat cfg) (\<lambda>_. None) (table_of (clients b) s')"
  using simulates_loop [OF table_inv_init(1) [OF assms(2)] assms(1)] table_inv_init(2) [OF assms(2), of s]
  by (simp_all add: simulates_def)

lemma events_ok_admitted:
  "events_ok adm ch es A \<Longrightarrow> fanouts ch es A j = Some b \<Longrightarrow> (\<And>j a. A j = Some a \<Longrightarrow> adm (s_peer a)) \<Longrightarrow>
     adm (s_peer b)"
proof (induction es arbitrary: A)
  case (Cons e es)
  have "adm (s_peer a)" if "fanout ch e A k = Some a" for k a
    using that Cons.prems
    by (cases e) (auto simp: event_ok_def split: if_splits)
  with Cons show ?case by auto
qed simp

text \<open>What every connected client has got, at any moment the loop can stop at.\<close>

lemma broker_loop_history:
  assumes "broker_loop L cfg l mc mb broker_init s = (rc, b, s')" and "mc \<le> WCAT_BROKER_LIMIT"
  shows "\<exists>es. events_ok (admitted L cfg) (chat cfg) es (\<lambda>_. None)
    \<and> fanouts (chat cfg) es (\<lambda>_. None) = table_of (clients b) s'
    \<and> (\<forall>j < mc. 0 \<le> cfd (clients b ! j) \<longrightarrow>
      admitted L cfg (peer_of s' (cfd (clients b ! j)))
      \<and> got s' (cfd (clients b ! j)) = spoke j es []
      \<and> length (pending (clients b ! j)) \<le> mb
      \<and> (\<not> chat cfg \<longrightarrow> sent s' (cfd (clients b ! j)) @ pending (clients b ! j) = heard j es []))"
proof -
  note r = broker_loop_refines [OF assms]
  from r(2) obtain es where es: "events_ok (admitted L cfg) (chat cfg) es (\<lambda>_. None)"
    "fanouts (chat cfg) es (\<lambda>_. None) = table_of (clients b) s'" by (auto simp: follows_def)
  have len: "mc \<le> length (clients b)" using r(1) by (simp add: table_inv_def)
  have "admitted L cfg (peer_of s' (cfd (clients b ! j))) \<and> got s' (cfd (clients b ! j)) = spoke j es []
      \<and> length (pending (clients b ! j)) \<le> mb
      \<and> (\<not> chat cfg \<longrightarrow> sent s' (cfd (clients b ! j)) @ pending (clients b ! j) = heard j es [])"
    if j: "j < mc" "0 \<le> cfd (clients b ! j)" for j
  proof -
    have t: "fanouts (chat cfg) es (\<lambda>_. None) j = Some (slot_of (clients b ! j) s')"
      using es(2) j len by (simp add: table_of_def)
    have a: "admitted L cfg (s_peer (slot_of (clients b ! j) s'))"
      by (rule events_ok_admitted [OF es(1) t]) simp
    have g: "s_got (slot_of (clients b ! j) s') = spoke j es []"
      by (rule spoke_got [OF es(1) t]) simp
    have h: "\<not> chat cfg \<Longrightarrow> s_stream (slot_of (clients b ! j) s') = heard j es []"
      by (rule heard_stream [where A = "\<lambda>_. None"]) (use es(1) t in auto)
    have "length (pending (clients b ! j)) \<le> mb"
      using pending_bound [OF table_inv_ok [OF r(1)]] j len by simp
    with a g h show ?thesis by (simp add: slot_of_def)
  qed
  with es show ?thesis by blast
qed

lemma wcat_broker_run_effect:
  assumes "wcat_broker_run L cfg s = (rc, s')"
  shows "set (open_fds s') = set (open_fds s)" and "rc \<in> {0, 1, 2}"
proof -
  have log: "open_fds (wcat_log lv ev m s0) = open_fds s0" for lv ev m s0
    using quiet_log [of s0 lv ev m] by (simp add: quiet_def)
  have loge: "open_fds (wcat_log_errno ev m s0) = open_fds s0" for ev m s0
    using quiet_log_errno [of s0 ev m] by (simp add: quiet_def)
  define mc where "mc = broker_max_clients cfg"
  obtain l s1 where l: "broker_listen cfg s = (l, s1)" by force
  define s2 where "s2 = wcat_log WCAT_LOG_INFO ''broker_listen''
    (if unix_socket cfg then ''broker listening on unix:'' @ text_of (host cfg)
     else ''broker listening on '' @ text_of (host cfg) @ '':'' @ text_of (port cfg)) s1"
  obtain result b s3 where lo: "broker_loop L cfg l (nat mc) (nat (broker_buffer_bytes cfg)) broker_init s2
      = (result, b, s3)" using prod_cases3 by blast
  obtain cs s4 where d: "drop_all [0..<nat mc] (clients b) s3 = (cs, s4)" by force
  have bad: "mc < 1 \<or> mc > int WCAT_BROKER_LIMIT \<or> l < 0 \<Longrightarrow> set (open_fds s') = set (open_fds s) \<and> rc \<in> {1, 2}"
    using assms l broker_listener.make_failed [OF l] log loge
    by (auto simp: wcat_broker_run_def mc_def Let_def split: if_splits)
  have res: "result \<in> {0, 1}"
  proof -
    have "broker_loop L cfg l m n b0 t = (r, b1, t') \<Longrightarrow> r \<in> {0, 1}" for m n b0 t r b1 t'
    proof (induction L cfg l m n b0 t rule: broker_loop.induct)
      case (1 L cfg l m n b0 t)
      then show ?case
        by (subst (asm) (2) broker_loop.simps) (auto split: prod.splits if_splits)
    qed
    from this [OF lo] show ?thesis .
  qed
  have good: "set (open_fds s') = set (open_fds s) \<and> rc = result"
    if ok: "\<not> (mc < 1 \<or> mc > int WCAT_BROKER_LIMIT)" "\<not> l < 0"
  proof -
    have m: "nat mc \<le> WCAT_BROKER_LIMIT" using ok(1) by linarith
    have r: "rc = result" "s' = close_quiet l s4"
      using assms l lo d ok by (auto simp: wcat_broker_run_def mc_def [symmetric] s2_def Let_def)
    have inv: "table_inv (nat mc) (nat (broker_buffer_bytes cfg)) (set (open_fds s2)) (clients b) s3"
      using broker_loop_refines(1) [OF lo m] .
    then have "\<forall>i \<in> set [0..<nat mc]. i < length (clients b)" by (auto simp: table_inv_def)
    note da = drop_all_effect [OF inv this d]
    have none: "client_fds cs = {}"
    proof -
      have "cfd (cs ! k) < 0" if k: "k < length cs" for k
      proof (cases "k < nat mc")
        case True
        with da show ?thesis by auto
      next
        case False
        with da k show ?thesis by (auto simp: table_inv_def)
      qed
      then show ?thesis by (fastforce simp: client_fds_def)
    qed
    then have "set (open_fds s4) = set (open_fds s2)" using da by (simp add: table_inv_def)
    moreover have "open_fds s2 = open_fds s @ [l]" "l \<notin> set (open_fds s)"
      using broker_listener.make_fresh [OF l] ok(2) log by (simp_all add: s2_def)
    ultimately show ?thesis using r ok(2) by auto
  qed
  show "set (open_fds s') = set (open_fds s)" "rc \<in> {0, 1, 2}"
    using bad good res by blast+
qed

text \<open>A descriptor that takes what it is given empties the queue: the stream has been sent.\<close>

lemma flush_client_complete:
  assumes "writable (wr_q s (cfd c))" and "client_ok mb c" and "0 \<le> cfd c"
  shows "\<exists>c' s'. flush_client c s = (0, c', s') \<and> pending c' = [] \<and> sent s' (cfd c) = sent s (cfd c) @ pending c"
  using assms
proof (induction c s rule: flush_client.induct)
  case (1 c s)
  show ?case
  proof (cases "out_off c < out_len c")
    case False
    with "1.prems" show ?thesis
      by (simp add: flush_client.simps [of c s] client_ok_def pending_def)
  next
    case True
    have pc: "drop (out_off c) (take (out_len c) (out c)) = pending c" by (simp add: pending_def)
    have ne: "pending c \<noteq> []" using True length_pending [OF "1.prems"(2)] by auto
    obtain n s1 where w: "sys_write (cfd c) (pending c) s = (n, s1)" by force
    note good = sys_write_writable [OF w "1.prems"(1) ne] and eff = sys_write_frame [OF w]
    note unfold = flush_client.simps [of c s, unfolded pc w prod.case Let_def if_P [OF True]]
    from good consider (intr) "n < 0" "errno_of s1 = EINTR" | (pos) "n > 0" by blast
    then show ?thesis
    proof cases
      case intr
      with "1.IH"(1) [OF True w [symmetric, folded pc] refl intr _ "1.prems"(2,3)] good eff unfold
      show ?thesis by simp
    next
      case pos
      let ?c = "c\<lparr>out_off := out_off c + nat n\<rparr>"
      have ok: "client_ok mb ?c"
        using "1.prems"(2) eff pos length_pending [OF "1.prems"(2)] by (auto simp: client_ok_def)
      have pd: "pending ?c = drop (nat n) (pending c)" by (simp add: pending_def add.commute)
      have "take (nat n) (pending c) @ pending ?c = pending c" by (simp add: pd)
      with "1.IH"(2) [OF True w [symmetric, folded pc] refl _ _ _ ok] pos good eff unfold "1.prems"(3)
      show ?thesis by auto
    qed
  qed
qed

end
