(* ===== verification/Wcat_Exit.thy ===== *)
theory Wcat_Exit
  imports Wcat_Console_Run Wcat_App Wcat_Fanout
begin

text \<open>
  How the program ends: with the status 0, 1 or 2 in every mode and on every path, for every behaviour
  of the kernel, the peers and the TLS library; with 2 only for a usage error, and never with 0 then;
  without a status only when a SOCKS5 proxy overruns the reply buffer.
\<close>

section \<open>Results in a set\<close>

text \<open>
  \<open>ends A r\<close> says that the status of the result \<open>r\<close> is in \<open>A\<close>; the rules follow the shape of a
  definition, and \<open>ends_eq\<close> gives the status of a call that was made.
\<close>

definition ends :: "int set \<Rightarrow> int \<times> 'a \<Rightarrow> bool" where
  "ends A r \<longleftrightarrow> fst r \<in> A"

definition run_ends :: "int set \<Rightarrow> int run \<times> 'a \<Rightarrow> bool" where
  "run_ends A r \<longleftrightarrow> (case fst r of Ret rc \<Rightarrow> rc \<in> A | Overrun \<Rightarrow> True)"

named_theorems status

lemma ends_pair [status]: "rc \<in> A \<Longrightarrow> ends A (rc, x)"
  by (simp add: ends_def)

lemma ends_if [status]: "(b \<Longrightarrow> ends A x) \<Longrightarrow> (\<not> b \<Longrightarrow> ends A y) \<Longrightarrow> ends A (if b then x else y)"
  by simp

lemma ends_prod [status]: "(\<And>a b. x = (a, b) \<Longrightarrow> ends A (f a b)) \<Longrightarrow> ends A (case x of (a, b) \<Rightarrow> f a b)"
  by (cases x) simp

lemma ends_option [status]:
  "ends A n \<Longrightarrow> (\<And>y. x = Some y \<Longrightarrow> ends A (f y)) \<Longrightarrow> ends A (case x of None \<Rightarrow> n | Some y \<Rightarrow> f y)"
  by (cases x) simp_all

lemma ends_eq: "ends A x \<Longrightarrow> x = (a, b) \<Longrightarrow> a \<in> A"
  by (simp add: ends_def)

lemma ends_mono: "ends A x \<Longrightarrow> A \<subseteq> B \<Longrightarrow> ends B x"
  by (auto simp: ends_def)

lemma run_ends_ret [status]: "rc \<in> A \<Longrightarrow> run_ends A (Ret rc, x)"
  by (simp add: run_ends_def)

lemma run_ends_over [status]: "run_ends A (Overrun, x)"
  by (simp add: run_ends_def)

lemma run_ends_if [status]: "(b \<Longrightarrow> run_ends A x) \<Longrightarrow> (\<not> b \<Longrightarrow> run_ends A y) \<Longrightarrow> run_ends A (if b then x else y)"
  by simp

lemma run_ends_prod [status]:
  "(\<And>a b. x = (a, b) \<Longrightarrow> run_ends A (f a b)) \<Longrightarrow> run_ends A (case x of (a, b) \<Rightarrow> f a b)"
  by (cases x) simp

lemma run_ends_option [status]:
  "run_ends A n \<Longrightarrow> (\<And>y. x = Some y \<Longrightarrow> run_ends A (f y)) \<Longrightarrow> run_ends A (case x of None \<Rightarrow> n | Some y \<Rightarrow> f y)"
  by (cases x) simp_all

lemma run_ends_run [status]:
  "(\<And>y. x = Ret y \<Longrightarrow> run_ends A (f y)) \<Longrightarrow> (x = Overrun \<Longrightarrow> run_ends A g) \<Longrightarrow> run_ends A (case x of Ret y \<Rightarrow> f y | Overrun \<Rightarrow> g)"
  by (cases x) simp_all

lemma exit_status [simp]: "exit_code n \<in> {0, 1}" "exit_code n = 0 \<or> exit_code n = 1"
  by (simp_all add: exit_code_def)

section \<open>One connection\<close>

lemma relay_status: "ends {0, 1} (relay_stream_to_stdio cfg net s)" "ends {0, 1} (relay_to_spawned cfg net proc s)"
  unfolding relay_stream_to_stdio_def relay_to_spawned_def Let_def by (safe intro!: status exit_status)

lemma process_status: "ends {0, 1} (relay_stream_to_process cfg net s)"
  unfolding relay_stream_to_process_def Let_def by (intro status relay_status insertI1 insertI2)

lemmas relay_ret = ends_eq [OF relay_status(1)] ends_eq [OF relay_status(2)] ends_eq [OF process_status]

lemma peer_status:
  "ends {0, 1} (relay_peer_to_stdio cfg fd b s)" "ends {0, 1} (relay_peer_to_process cfg fd b s)"
  "ends {0, 1} (serve_client cfg fd s)"
proof -
  show s: "ends {0, 1} (relay_peer_to_stdio cfg fd b s)" for b
    unfolding relay_peer_to_stdio_def Let_def by (intro status) (auto dest: relay_ret)
  show p: "ends {0, 1} (relay_peer_to_process cfg fd b s)" for b
    unfolding relay_peer_to_process_def Let_def by (intro status) (auto dest: relay_ret)
  show "ends {0, 1} (serve_client cfg fd s)" unfolding serve_client_def by (intro ends_if s p)
qed

lemmas peer_ret = ends_eq [OF peer_status(1)] ends_eq [OF peer_status(2)] ends_eq [OF peer_status(3)]

lemma connect_status: "run_ends {0, 1} (run_connect cfg s)"
  unfolding run_connect_def Let_def by (intro status) (auto dest: peer_ret split: if_splits)

lemma quic_status: "ends {0, 1} (run_quic_connect cfg s)" "ends {0, 1} (run_quic_listen cfg s)"
proof -
  have q: "ends {0, 1} (serve_quic_stream cfg t s)" for t s
    unfolding serve_quic_stream_def Let_def by (intro status) (auto dest: relay_ret split: if_splits)
  show "ends {0, 1} (run_quic_connect cfg s)"
    unfolding run_quic_connect_def Let_def by (intro status q) simp
  show "ends {0, 1} (run_quic_listen cfg s)"
    unfolding run_quic_listen_def Let_def by (intro status) (auto dest: ends_eq [OF q])
qed

section \<open>Listeners\<close>

lemma listen_status: "rc \<in> {0, 1} \<Longrightarrow> ends {0, 1} (listen_loop L cfg l rc s)"
proof (induction L cfg l rc s rule: listen_loop.induct)
  case (1 L cfg l rc s)
  obtain r s1 where a: "accept_when_ready l s = (r, s1)" by force
  show ?case
  proof (cases r)
    case None
    with a "1.prems" show ?thesis by (simp add: listen_loop.simps [of L cfg l rc s] ends_def case_prod_unfold Let_def)
  next
    case (Some peer)
    obtain rc1 s2 where c: "listen_client L cfg rc peer s1 = (rc1, s2)" by force
    obtain stop s3 where o: "observe_stop s2 = (stop, s3)" by force
    have "ends {0, 1} (listen_client L cfg rc peer s1)"
      unfolding listen_client_def using "1.prems" peer_status(3)
      by (auto simp: ends_def split: prod.splits)
    with c have r: "rc1 \<in> {0, 1}" by (simp add: ends_def)
    show ?thesis
    proof (cases "keep_open cfg \<and> \<not> stop")
      case True
      then have k: "\<not> \<not> keep_open cfg" "\<not> stop" by simp_all
      from "1.IH" [OF a [symmetric] Some c [symmetric] refl k(1) o [symmetric] refl k(2) r] k show ?thesis
        by (simp add: listen_loop.simps [of L cfg l rc s] a Some c o)
    next
      case False
      with r show ?thesis by (auto simp: listen_loop.simps [of L cfg l rc s] a Some c o ends_def)
    qed
  qed
qed

section \<open>Files and relays\<close>

lemma send_status: "run_ends {0, 1, 2} (wcat_send_file cfg s)"
proof -
  have "ends {0, 1} (send_over cfg f k s)" for f k s
    unfolding send_over_def Let_def by (intro status) simp_all
  then show ?thesis
    unfolding wcat_send_file_def Let_def by (intro status) (auto dest: ends_eq)
qed

lemma recv_status: "ends {0, 1} (wcat_recv_file L cfg s)"
proof -
  have "ends {0, 1} (recv_from_client L cfg f peer s)" for f peer s
    unfolding recv_from_client_def Let_def by (intro status) simp_all
  then have c: "ends {0, 1} (case accept_when_ready l s of (None, s1) \<Rightarrow> (1, s1)
      | (Some peer, s1) \<Rightarrow> recv_from_client L cfg f peer s1)" for l f s
    by (auto simp: ends_def split: prod.splits option.splits)
  show ?thesis
    unfolding wcat_recv_file_def Let_def by (intro status) (auto dest: ends_eq [OF c])
qed

section \<open>The proxy server\<close>

lemma serve_proxy_client_status: "ends {0, 1} (serve_proxy_client cfg client s)"
proof -
  have "ends {0, 1} (proxy_relay cfg c u t)" for c u t
    unfolding proxy_relay_def Let_def by (intro status) simp_all
  then show ?thesis unfolding serve_proxy_client_def Let_def by (intro status) simp_all
qed

lemma proxy_loop_status: "rc \<in> {0, 1} \<Longrightarrow> ends {0, 1} (proxy_loop L cfg l rc s)"
proof (induction L cfg l rc s rule: proxy_loop.induct)
  case (1 L cfg l rc s)
  obtain stop s0 where o: "observe_stop s = (stop, s0)" by force
  obtain a s1 where ac: "wcat_accept l s0 = (a, s1)" by force
  note u = proxy_loop.simps [of L cfg l rc s, unfolded o prod.case Let_def ac]
  consider "stop" | (failed) "\<not> stop" "a = None" | (client) fd h p where "\<not> stop" "a = Some (fd, h, p)"
    by (cases a) auto
  then show ?case
  proof cases
    case 1
    with u "1.prems" show ?thesis by (simp add: ends_def)
  next
    case failed
    with u "1.prems" "1.IH"(1) [OF o [symmetric] refl failed(1) ac [symmetric] failed(2)] show ?thesis by (simp add: ends_def)
  next
    case client
    obtain allowed s2 where al: "wcat_access_check_fd L cfg fd s1 = (allowed, s2)" by force
    note u' = u [unfolded client(2) option.case prod.case al]
    note ih = "1.IH"(2-3) [OF o [symmetric] refl client(1) ac [symmetric] client(2) refl refl al [symmetric] refl]
    show ?thesis
    proof (cases allowed)
      case False
      from ih(1) [OF False "1.prems"] False u' client(1) show ?thesis by simp
    next
      case True
      obtain rc1 s3 where sv: "serve_proxy_client cfg fd
          (wcat_log WCAT_LOG_INFO ''proxy_accept'' (''accepted proxy client '' @ h @ '':'' @ p) s2) = (rc1, s3)" by force
      note r = ends_eq [OF serve_proxy_client_status sv]
      show ?thesis
      proof (cases "rc1 \<noteq> 0 \<and> \<not> keep_open cfg")
        case True
        with r \<open>allowed\<close> client(1) u' sv show ?thesis by (simp add: ends_def)
      next
        case False
        have "ends {0, 1} (proxy_loop L cfg l 0 (close_quiet fd s3))"
          by (rule ih(2) [of "(rc1, s3)" rc1 s3]) (use True False sv in simp_all)
        with False True client(1) u' sv show ?thesis by (simp only: u' if_not_P if_P prod.case sv not_True_eq_False if_False)
      qed
    qed
  qed
qed

lemma proxy_status: "ends {0, 1} (wcat_proxy_server_run L cfg s)"
  unfolding wcat_proxy_server_run_def Let_def by (intro status) (auto dest: ends_eq [OF proxy_loop_status, rotated])

section \<open>Usage errors\<close>

text \<open>
  The status 2 is kept for what the user got wrong: a command line that is not accepted, a relay
  endpoint that is none, a proxy URL that cannot be read when a file is to be sent.
\<close>

definition host_port_ok :: "string \<Rightarrow> bool" where
  "host_port_ok t \<longleftrightarrow>
     (\<exists>h p. t = h @ CHR '':'' # p \<and> CHR '':'' \<notin> set p \<and> h \<noteq> [] \<and> p \<noteq> [] \<and> length h < 256 \<and> length p < 32
        \<and> 1 \<le> wcat_parse_port (Some p))"

definition relay_spec_ok :: "string \<Rightarrow> bool" where
  "relay_spec_ok spec \<longleftrightarrow>
     spec \<in> {''-'', ''stdio''}
     \<or> (\<exists>t. (spec = ''tcp:'' @ t \<or> spec = ''listen:'' @ t) \<and> host_port_ok t)
     \<or> (\<exists>pre \<in> {''unix:'', ''unix-listen:'', ''file:'', ''exec:'', ''pty:''}. prefix pre spec)"

lemma split_spec_None: "split_spec_host_port (pre @ t) pre 256 32 = None \<longleftrightarrow> \<not> host_port_ok t"
proof -
  have e: "split_spec_host_port (pre @ t) pre 256 32 = split_host_port t 256 32"
    by (simp add: split_spec_host_port_def split_host_port_def)
  have "split_host_port t 256 32 \<noteq> None \<longleftrightarrow> host_port_ok t"
    unfolding host_port_ok_def by (auto simp: split_host_port_Some)
  with e show ?thesis by metis
qed

lemma endpoint_status: "ends {0, 1} (endpoint_fd ev msg nm ep r)" "ends {0, 1} (endpoint_accept lm am nm ep r)"
  unfolding endpoint_fd_def endpoint_accept_def Let_def by (intro status; simp)+

lemma endpoint_range:
  "fst (endpoint_fd ev msg nm ep r) \<noteq> 2" "fst (endpoint_accept lm am nm ep r) \<noteq> 2"
  "fst (endpoint_fd ev msg nm ep r) \<in> {0, 1}" "fst (endpoint_accept lm am nm ep r) \<in> {0, 1}"
  using endpoint_status(1) [unfolded ends_def, of ev msg nm ep r] endpoint_status(2) [unfolded ends_def, of lm am nm ep r]
  by auto

lemma open_relay_endpoint_usage:
  "fst (open_relay_endpoint cfg spec ep s) = 2 \<longleftrightarrow> \<not> relay_spec_ok spec"
proof -
  consider (std) "spec = ''-'' \<or> spec = ''stdio''" | (tcp) t where "spec = ''tcp:'' @ t"
    | (lis) t where "spec = ''listen:'' @ t"
    | (other) t pre where "pre \<in> {''unix:'', ''unix-listen:'', ''file:'', ''exec:'', ''pty:''}" "spec = pre @ t"
    | (bad) "spec \<noteq> ''-''" "spec \<noteq> ''stdio''"
        "\<not> prefix ''tcp:'' spec" "\<not> prefix ''listen:'' spec" "\<not> prefix ''unix:'' spec" "\<not> prefix ''unix-listen:'' spec"
        "\<not> prefix ''file:'' spec" "\<not> prefix ''exec:'' spec" "\<not> prefix ''pty:'' spec"
    unfolding prefix_def by blast
  then show ?thesis
  proof cases
    case std
    then have "relay_spec_ok spec" unfolding relay_spec_ok_def by blast
    with std show ?thesis by (auto simp: open_relay_endpoint_def)
  next
    case tcp
    have "relay_spec_ok spec \<longleftrightarrow> split_spec_host_port spec ''tcp:'' 256 32 \<noteq> None"
      unfolding tcp split_spec_None relay_spec_ok_def by simp
    with tcp endpoint_range(1) show ?thesis
      by (cases "split_spec_host_port spec ''tcp:'' 256 32") (simp_all add: open_relay_endpoint_def case_prod_unfold)
  next
    case lis
    have "relay_spec_ok spec \<longleftrightarrow> split_spec_host_port spec ''listen:'' 256 32 \<noteq> None"
      unfolding lis split_spec_None relay_spec_ok_def by simp
    with lis endpoint_range(2) show ?thesis
      by (cases "split_spec_host_port spec ''listen:'' 256 32") (simp_all add: open_relay_endpoint_def case_prod_unfold)
  next
    case other
    then have "relay_spec_ok spec" unfolding relay_spec_ok_def by (metis prefixI)
    moreover have "fst (open_relay_endpoint cfg spec ep s) \<noteq> 2"
      using other endpoint_range(1,2) by (elim insertE emptyE) (simp_all add: open_relay_endpoint_def case_prod_unfold Let_def)
    ultimately show ?thesis by simp
  next
    case bad
    have "\<not> relay_spec_ok spec"
      unfolding relay_spec_ok_def using bad by (auto simp: prefix_def)
    with bad show ?thesis by (simp add: open_relay_endpoint_def)
  qed
qed

lemma open_relay_endpoint_range: "fst (open_relay_endpoint cfg spec ep s) \<in> {0, 1, 2}"
proof -
  have f: "ends {0, 1, 2} (endpoint_fd ev msg nm ep r)" "ends {0, 1, 2} (endpoint_accept lm am nm ep r)" for ev msg lm am nm ep r
    by (rule ends_mono [OF endpoint_status(1)] ends_mono [OF endpoint_status(2)]; simp)+
  have "ends {0, 1, 2} (open_relay_endpoint cfg spec ep s)"
    unfolding open_relay_endpoint_def Let_def by (intro status f) simp_all
  then show ?thesis by (simp add: ends_def)
qed

lemma run_relay_usage:
  "ends {0, 1, 2} (run_relay cfg s)"
  "fst (run_relay cfg s) = 2 \<Longrightarrow> \<not> (relay_spec_ok (the (left cfg)) \<and> relay_spec_ok (the (right cfg)))"
  "\<not> (relay_spec_ok (the (left cfg)) \<and> relay_spec_ok (the (right cfg))) \<Longrightarrow> fst (run_relay cfg s) \<noteq> 0"
proof -
  obtain rc1 l s1 where l: "open_relay_endpoint cfg (the (left cfg)) relay_endpoint_init s = (rc1, l, s1)"
    using prod_cases3 by blast
  obtain rc2 r s2 where r: "open_relay_endpoint cfg (the (right cfg)) relay_endpoint_init s1 = (rc2, r, s2)"
    using prod_cases3 by blast
  have u: "rc1 = 2 \<longleftrightarrow> \<not> relay_spec_ok (the (left cfg))" "rc2 = 2 \<longleftrightarrow> \<not> relay_spec_ok (the (right cfg))"
    "rc1 \<in> {0, 1, 2}" "rc2 \<in> {0, 1, 2}"
    using open_relay_endpoint_usage [of cfg "the (left cfg)" relay_endpoint_init s]
      open_relay_endpoint_usage [of cfg "the (right cfg)" relay_endpoint_init s1]
      open_relay_endpoint_range [of cfg "the (left cfg)" relay_endpoint_init s]
      open_relay_endpoint_range [of cfg "the (right cfg)" relay_endpoint_init s1] l r by simp_all
  have f: "fst (run_relay cfg s) \<in> (if rc1 \<noteq> 0 then {rc1} else if rc2 \<noteq> 0 then {rc2} else {0, 1})"
    by (auto simp: run_relay_def l r case_prod_unfold Let_def exit_code_def)
  show "ends {0, 1, 2} (run_relay cfg s)" using f u by (auto simp: ends_def split: if_splits)
  show "fst (run_relay cfg s) = 2 \<Longrightarrow> \<not> (relay_spec_ok (the (left cfg)) \<and> relay_spec_ok (the (right cfg)))"
    using f u by (auto split: if_splits)
  show "\<not> (relay_spec_ok (the (left cfg)) \<and> relay_spec_ok (the (right cfg))) \<Longrightarrow> fst (run_relay cfg s) \<noteq> 0"
    using f u by (auto split: if_splits)
qed

text \<open>The limits that the command line accepts are within the limits of the tables.\<close>

lemma broker_status:
  assumes "options_ok cfg"
  shows "ends {0, 1} (wcat_broker_run L cfg s)"
proof -
  have lim: "\<not> (broker_max_clients cfg < 1 \<or> broker_max_clients cfg > int WCAT_BROKER_LIMIT)"
    using assms by (simp add: options_ok_def WCAT_BROKER_LIMIT_def)
  have l: "broker_loop L cfg l m n b t = (r, b', t') \<Longrightarrow> r \<in> {0, 1}" for l m n b t r b' t'
  proof (induction L cfg l m n b t rule: broker_loop.induct)
    case (1 L cfg l m n b t)
    then show ?case
      by (subst (asm) (2) broker_loop.simps) (auto split: prod.splits if_splits)
  qed
  show ?thesis
    unfolding wcat_broker_run_def Let_def if_not_P [OF lim] by (intro status) (auto dest: l)
qed

lemma multi_status:
  assumes "options_ok cfg"
  shows "ends {0, 1} (run_multi_listen L cfg s)"
proof -
  have "mu_result (fst (multi_loop L cfg m l (multi_init raw) t)) \<in> {0, 1}" for m l raw t
    by (rule result_loop) (simp add: multi_init_def)
  then have "multi_loop L cfg m l (multi_init raw) t = (x, t') \<Longrightarrow> mu_result x \<in> {0, 1}" for m l raw t x t'
    by (metis fst_conv)
  with assms show ?thesis
    unfolding run_multi_listen_def Let_def
    by (intro status) (auto simp: options_ok_def WCAT_MULTI_LIMIT_def)
qed

lemma listen_mode_status:
  assumes "options_ok cfg"
  shows "ends {0, 1} (run_listen L cfg s)"
proof -
  have "ends {0, 1} (run_listen_serial L cfg s)"
    unfolding run_listen_serial_def Let_def
    by (intro status peer_status) (auto dest: ends_eq [OF listen_status, rotated])
  with multi_status [OF assms] show ?thesis by (simp add: run_listen_def)
qed

lemma send_usage:
  "wcat_send_file cfg s = (Ret rc, s') \<Longrightarrow> rc \<in> {0, 1, 2}"
  "wcat_send_file cfg s = (Ret 2, s') \<Longrightarrow> wcat_proxy_parse (proxy_url cfg) = None"
  "wcat_proxy_parse (proxy_url cfg) = None \<Longrightarrow> wcat_send_file cfg s = (r, s') \<Longrightarrow> r = Ret 1 \<or> r = Ret 2"
proof -
  show "wcat_send_file cfg s = (Ret rc, s') \<Longrightarrow> rc \<in> {0, 1, 2}"
    using send_status [of cfg s] by (simp add: run_ends_def)
  have "ends {0, 1} (send_over cfg f k u)" for f k u
    unfolding send_over_def Let_def by (intro status) simp_all
  then have o: "send_over cfg f k u = (n, t) \<Longrightarrow> n \<noteq> 2" for f k u n t using ends_eq by fastforce
  show "wcat_send_file cfg s = (Ret 2, s') \<Longrightarrow> wcat_proxy_parse (proxy_url cfg) = None"
    by (auto simp: wcat_send_file_def Let_def dest: o split: if_splits option.splits run.splits prod.splits)
  show "wcat_proxy_parse (proxy_url cfg) = None \<Longrightarrow> wcat_send_file cfg s = (r, s') \<Longrightarrow> r = Ret 1 \<or> r = Ret 2"
    by (auto simp: wcat_send_file_def case_prod_unfold Let_def split: if_splits)
qed

section \<open>The overrun\<close>

text \<open>
  A run that ends in the overrun of the reply buffer: a SOCKS5 proxy was asked for and the negotiation
  with it stored more than ten bytes of the address in the reply of the server.
\<close>

definition overrun_by_proxy :: "wcat_config \<Rightarrow> sys \<Rightarrow> bool" where
  "overrun_by_proxy cfg s' \<longleftrightarrow>
     (\<exists>pr fd s v c atyp d. wcat_proxy_parse (proxy_url cfg) = Some pr \<and> proxy_type pr = WCAT_PROXY_SOCKS5
        \<and> socks5_negotiate fd (the (host cfg)) (the (port cfg)) s = (Overrun, s')
        \<and> got s' = (got s)(fd := got s fd @ [CHR 0x05, CHR 0x00, v, CHR 0x00, c, atyp] @ d)
        \<and> (atyp = CHR 0x03 \<or> atyp = CHR 0x04) \<and> REP_SIZE < length d)"

lemma proxy_connect_overrun:
  assumes "wcat_proxy_connect (Some pr) (host cfg) (port cfg) fam tmo s = (Overrun, s')"
    and "wcat_proxy_parse (proxy_url cfg) = Some pr"
  shows "overrun_by_proxy cfg s'"
proof -
  have t: "proxy_type pr \<noteq> WCAT_PROXY_NONE" using assms(1) by (auto simp: wcat_proxy_connect_def split: prod.splits)
  obtain k s1 where k: "wcat_tcp_connect (Some (proxy_host pr)) (Some (proxy_port pr)) fam tmo s = (k, s1)" by force
  obtain q s2 where n: "proxy_negotiate (proxy_type pr) k (the (host cfg)) (the (port cfg)) s1 = (q, s2)" by force
  have "q = Overrun" "s2 = s'"
    using assms(1) t k n by (auto simp: wcat_proxy_connect_def case_prod_unfold Let_def split: if_splits)
  with n have "proxy_type pr = WCAT_PROXY_SOCKS5"
    "socks5_negotiate k (the (host cfg)) (the (port cfg)) s1 = (Overrun, s')"
    by (auto simp: proxy_negotiate_def split: if_splits prod.splits)
  with socks5_overrun [OF this(2)] assms(2) show ?thesis unfolding overrun_by_proxy_def by blast
qed

lemma run_connect_overrun:
  assumes "run_connect cfg s = (Overrun, s')"
  shows "overrun_by_proxy cfg s'"
proof -
  have c: "main_connect_socket cfg s = (Overrun, s')"
    using assms by (auto simp: run_connect_def case_prod_unfold Let_def prod_eq_iff split: run.splits if_splits prod.splits)
  then obtain pr where "wcat_proxy_parse (proxy_url cfg) = Some pr"
    "wcat_proxy_connect (Some pr) (host cfg) (port cfg) (family cfg) (timeout_ms cfg) s = (Overrun, s')"
    unfolding main_connect_socket_def by (auto split: if_splits option.splits prod.splits)
  from proxy_connect_overrun [OF this(2,1)] show ?thesis .
qed

lemma send_overrun:
  assumes "wcat_send_file cfg s = (Overrun, s')"
  shows "overrun_by_proxy cfg s'"
proof -
  obtain f s1 where f: "sys_open s = (f, s1)" by force
  note run = assms [unfolded wcat_send_file_def f prod.case Let_def]
  then obtain pr where p: "wcat_proxy_parse (proxy_url cfg) = Some pr" by (auto split: if_splits option.splits)
  then have "send_connect cfg pr s1 = (Overrun, s')"
    using run by (auto split: if_splits run.splits prod.splits)
  then have "wcat_proxy_connect (Some pr) (host cfg) (port cfg) (family cfg) (timeout_ms cfg) s1 = (Overrun, s')"
    unfolding send_connect_def by (auto split: if_splits prod.splits)
  from proxy_connect_overrun [OF this p] show ?thesis .
qed

section \<open>Every way to end\<close>

definition run_usage_error :: "wcat_config \<Rightarrow> bool" where
  "run_usage_error cfg \<longleftrightarrow>
     mode cfg = WCAT_MODE_RELAY \<and> \<not> (relay_spec_ok (the (left cfg)) \<and> relay_spec_ok (the (right cfg)))
     \<or> mode cfg = WCAT_MODE_SEND \<and> wcat_proxy_parse (proxy_url cfg) = None"

lemma run_plain_ret: "run_plain r = (q, s') \<longleftrightarrow> q = Ret (fst r) \<and> s' = snd r"
  by (auto simp: run_plain_def)

lemma run_mode_result:
  assumes "config_ok L cfg" and "run_mode L cfg s = (r, s')"
  shows "case r of Ret rc \<Rightarrow> rc \<in> {0, 1, 2} \<and> (rc = 2 \<longrightarrow> run_usage_error cfg) \<and> (rc = 0 \<longrightarrow> \<not> run_usage_error cfg)
    | Overrun \<Rightarrow> mode cfg \<in> {WCAT_MODE_CONNECT, WCAT_MODE_SEND} \<and> overrun_by_proxy cfg s'"
proof -
  have ok: "options_ok cfg" "mode cfg \<noteq> WCAT_MODE_NONE" using assms(1) by (simp_all add: config_ok_def)
  have fine: ?thesis if "ends {0, 1} x" "run_mode L cfg s = run_plain x" "mode cfg \<noteq> WCAT_MODE_RELAY" "mode cfg \<noteq> WCAT_MODE_SEND" for x
  proof -
    have "run_plain x = (r, s')" using that(2) assms(2) by simp
    with that show ?thesis by (auto simp: run_plain_ret ends_def run_usage_error_def)
  qed
  show ?thesis
  proof (cases "mode cfg")
    case WCAT_MODE_NONE
    with ok(2) show ?thesis by simp
  next
    case WCAT_MODE_CONNECT
    show ?thesis
    proof (cases "quic cfg")
      case True
      with WCAT_MODE_CONNECT show ?thesis by (intro fine [OF quic_status(1)]) (simp_all add: run_mode_def)
    next
      case False
      with WCAT_MODE_CONNECT assms(2) have c: "run_connect cfg s = (r, s')" by (simp add: run_mode_def)
      with connect_status [of cfg s] run_connect_overrun [of cfg s s'] WCAT_MODE_CONNECT show ?thesis
        by (cases r) (auto simp: run_ends_def run_usage_error_def)
    qed
  next
    case WCAT_MODE_LISTEN
    show ?thesis
    proof (cases "quic cfg")
      case True
      with WCAT_MODE_LISTEN show ?thesis by (intro fine [OF quic_status(2)]) (simp_all add: run_mode_def)
    next
      case False
      with WCAT_MODE_LISTEN show ?thesis by (intro fine [OF listen_mode_status [OF ok(1)]]) (simp_all add: run_mode_def)
    qed
  next
    case WCAT_MODE_SEND
    with assms(2) have c: "wcat_send_file cfg s = (r, s')" by (simp add: run_mode_def)
    show ?thesis
    proof (cases r)
      case (Ret rc)
      with c send_usage(1) [of cfg s rc s'] send_usage(2) [of cfg s s'] send_usage(3) [of cfg s r s'] WCAT_MODE_SEND show ?thesis
        by (cases "wcat_proxy_parse (proxy_url cfg)") (auto simp: run_usage_error_def)
    next
      case Overrun
      with c send_overrun [of cfg s s'] WCAT_MODE_SEND show ?thesis by simp
    qed
  next
    case WCAT_MODE_RECV
    then show ?thesis by (intro fine [OF recv_status]) (simp_all add: run_mode_def)
  next
    case WCAT_MODE_RELAY
    then have "run_mode L cfg s = run_plain (run_relay cfg s)" by (simp add: run_mode_def)
    with run_relay_usage [of cfg s] assms(2) WCAT_MODE_RELAY show ?thesis
      by (auto simp: run_plain_ret ends_def run_usage_error_def)
  next
    case WCAT_MODE_BROKER
    then show ?thesis by (intro fine [OF broker_status [OF ok(1)]]) (simp_all add: run_mode_def)
  next
    case WCAT_MODE_PROXY
    then show ?thesis by (intro fine [OF proxy_status]) (simp_all add: run_mode_def)
  qed
qed

definition usage_error :: "inet \<Rightarrow> string list \<Rightarrow> bool" where
  "usage_error L argv \<longleftrightarrow>
     \<not> (length argv = 2 \<and> argv ! 1 = ''--version'')
     \<and> (let (parsed, cfg) = wcat_parse_args L argv in parsed < 0 \<or> parsed = 0 \<and> run_usage_error cfg)"

lemma wcat_main_result:
  "case wcat_main L sig argv s of
     (Ret rc, txt, s') \<Rightarrow> rc \<in> {0, 1, 2} \<and> (rc = 2 \<longrightarrow> usage_error L argv) \<and> (rc = 0 \<longrightarrow> \<not> usage_error L argv)
   | (Overrun, txt, s') \<Rightarrow> \<exists>cfg. wcat_parse_args L argv = (0, cfg) \<and> mode cfg \<in> {WCAT_MODE_CONNECT, WCAT_MODE_SEND}
       \<and> overrun_by_proxy cfg s'"
proof (cases "length argv = 2 \<and> argv ! 1 = ''--version''")
  case True
  then show ?thesis by (simp add: wcat_main_def usage_error_def)
next
  case v: False
  obtain parsed cfg where a: "wcat_parse_args L argv = (parsed, cfg)" by force
  note main = wcat_main_def [of L sig argv s, unfolded if_not_P [OF v] a prod.case Let_def]
  have u: "usage_error L argv \<longleftrightarrow> parsed < 0 \<or> parsed = 0 \<and> run_usage_error cfg" using v a by (simp add: usage_error_def)
  show ?thesis
  proof (cases "parsed = 0")
    case False
    then show ?thesis by (auto simp: main u)
  next
    case True
    define s1 where "s1 = wcat_log_init (json cfg) (verbose cfg) s"
    obtain rc s2 where i: "wcat_tls_global_init s1 = (rc, s2)" by force
    show ?thesis
    proof (cases "wcat_signal_setup sig < 0 \<or> rc < 0")
      case bad: True
      then show ?thesis using True by (auto simp: main s1_def [symmetric] i)
    next
      case False
      obtain r s3 where m: "run_mode L cfg s2 = (r, s3)" by force
      have "wcat_main L sig argv s = (r, [], s3)" using False True by (simp add: main s1_def [symmetric] i m)
      moreover have "config_ok L cfg" using a True by (intro wcat_parse_args_ok [of L argv]) simp
      ultimately show ?thesis using run_mode_result [OF _ m] True a u by (cases r) auto
    qed
  qed
qed

section \<open>Descriptors\<close>

lemma owns_nothing: "owns {} D s s' \<Longrightarrow> open_fds s' = open_fds s"
  by (simp add: owns_def)

lemma held_open: "held s' = held s \<Longrightarrow> open_fds s' = open_fds s"
  by (simp add: held_def)

text \<open>Without \<open>--exec\<close> every mode ends with the descriptors it began with.\<close>

lemma run_mode_open_fds:
  assumes "run_mode L cfg s = (Ret rc, s')" and "exec_path cfg = None"
  shows "set (open_fds s') = set (open_fds s)"
proof (cases "mode cfg")
  case WCAT_MODE_NONE
  with assms show ?thesis by (simp add: run_mode_def)
next
  case WCAT_MODE_CONNECT
  show ?thesis
  proof (cases "quic cfg")
    case True
    then have "run_quic_connect cfg s = (rc, s')" using WCAT_MODE_CONNECT assms(1) by (simp add: run_mode_def run_plain_def prod_eq_iff)
    from run_quic_connect_owns [OF this] show ?thesis by (auto dest: owns_nothing)
  next
    case False
    then have "run_connect cfg s = (Ret rc, s')" using WCAT_MODE_CONNECT assms(1) by (simp add: run_mode_def)
    from run_connect_owns [OF this] assms(2) show ?thesis by (auto dest: owns_nothing)
  qed
next
  case WCAT_MODE_LISTEN
  show ?thesis
  proof (cases "quic cfg")
    case True
    then have "run_quic_listen cfg s = (rc, s')" using WCAT_MODE_LISTEN assms(1) by (simp add: run_mode_def run_plain_def prod_eq_iff)
    from run_quic_listen_owns [OF this] show ?thesis by (auto dest: owns_nothing)
  next
    case False
    then have r: "run_listen L cfg s = (rc, s')" using WCAT_MODE_LISTEN assms(1) by (simp add: run_mode_def run_plain_def prod_eq_iff)
    then show ?thesis
      using run_multi_listen_owns [of L cfg s rc s'] held_open [OF run_listen_serial_held [OF assms(2), of L s]]
      by (auto simp: run_listen_def split: if_splits)
  qed
next
  case WCAT_MODE_SEND
  with assms(1) have "wcat_send_file cfg s = (Ret rc, s')" by (simp add: run_mode_def)
  from held_open [OF wcat_send_file_held [OF this]] show ?thesis by simp
next
  case WCAT_MODE_RECV
  with assms(1) held_open [OF wcat_recv_file_held [of L cfg s]] show ?thesis by (auto simp: run_mode_def run_plain_def)
next
  case WCAT_MODE_RELAY
  with assms(1) run_relay_owns [of s cfg] show ?thesis by (auto simp: run_mode_def run_plain_def dest: owns_nothing)
next
  case WCAT_MODE_BROKER
  then have "wcat_broker_run L cfg s = (rc, s')" using assms(1) by (simp add: run_mode_def run_plain_def prod_eq_iff)
  from wcat_broker_run_effect(1) [OF this] show ?thesis .
next
  case WCAT_MODE_PROXY
  with assms(1) held_open [OF wcat_proxy_server_run_held [of L cfg s]] show ?thesis by (auto simp: run_mode_def run_plain_def)
qed

lemma init_open_fds:
  "open_fds (wcat_log_init j v s) = open_fds s" "open_fds (wcat_log lv ev m s) = open_fds s"
  "open_fds (wcat_log_errno ev m s) = open_fds s" "open_fds (snd (wcat_tls_global_init s)) = open_fds s"
proof -
  show "open_fds (wcat_log lv ev m s) = open_fds s" "open_fds (wcat_log_errno ev m s) = open_fds s"
    using rest_open [OF rest_log] rest_open [OF rest_log_errno] by auto
  show "open_fds (wcat_log_init j v s) = open_fds s" by (simp add: wcat_log_init_def)
  show "open_fds (snd (wcat_tls_global_init s)) = open_fds s"
    by (auto simp: wcat_tls_global_init_def ssl_call_def split: list.splits)
qed

lemma wcat_main_open_fds:
  assumes "wcat_main L sig argv s = (Ret rc, txt, s')" and "exec_path (snd (wcat_parse_args L argv)) = None"
  shows "set (open_fds s') = set (open_fds s)"
proof -
  obtain parsed cfg where a: "wcat_parse_args L argv = (parsed, cfg)" by force
  obtain t s2 where i: "wcat_tls_global_init (wcat_log_init (json cfg) (verbose cfg) s) = (t, s2)" by force
  have o: "open_fds s2 = open_fds s" using init_open_fds(4) i init_open_fds(1) by (metis snd_conv)
  obtain r s3 where m: "run_mode L cfg s2 = (r, s3)" by force
  have "set (open_fds s3) = set (open_fds s2)" if "r = Ret rc" using run_mode_open_fds [OF m [unfolded that]] assms(2) a by simp
  with assms(1) a i m o show ?thesis
    by (auto simp: wcat_main_def Let_def init_open_fds split: if_splits)
qed

end
