(* ===== verification/Wcat_Sessions.thy ===== *)
theory Wcat_Sessions
  imports Wcat_Multi
begin

text \<open>
  What the console of \<open>listen --multi\<close> shows and does: \<open>:next\<close> and \<open>:prev\<close> go round the live
  sessions in both directions, complete lines are handled once and in order however they arrive, and
  the output of a session is its bytes with a label at the start of every line.
\<close>

section \<open>Going round the sessions\<close>

definition live_slots :: "multi_session list \<Rightarrow> nat \<Rightarrow> nat list" where
  "live_slots ss m = filter (live ss) [0..<m]"

definition live_ids :: "multi_session list \<Rightarrow> nat \<Rightarrow> u32 list" where
  "live_ids ss m = map (\<lambda>k. ms_id (ss ! k)) (live_slots ss m)"

lemma find_filter: "find P xs = (case filter P xs of [] \<Rightarrow> None | x # _ \<Rightarrow> Some x)"
  by (induction xs) simp_all

lemma first_id_hd: "first_id ss ks = (case filter (live ss) ks of [] \<Rightarrow> 0 | k # _ \<Rightarrow> ms_id (ss ! k))"
  by (simp add: first_id_def find_filter split: list.splits)

lemma first_session: "multi_first_session_id ss m = (if live_ids ss m = [] then 0 else hd (live_ids ss m))"
  by (simp add: multi_first_session_id_def first_id_hd live_ids_def live_slots_def split: list.splits)

lemma absent_session: "a \<notin> set (live_ids ss m) \<Longrightarrow> multi_find_by_id ss m a = None"
  by (auto simp: multi_find_by_id_def live_ids_def live_slots_def find_None_iff)

text \<open>A live slot splits the table.\<close>

lemma slots_around:
  assumes "k < m" and "live ss k"
  shows "live_slots ss m = live_slots ss k @ k # filter (live ss) [k + 1..<m]"
proof -
  have "[0..<m] = [0..<k] @ [k..<m]" using upt_add_eq_append [of 0 k "m - k"] assms(1) by simp
  also have "[k..<m] = k # [k + 1..<m]" using assms(1) by (simp add: upt_conv_Cons)
  finally show ?thesis using assms(2) by (simp add: live_slots_def)
qed

lemma filter_unique:
  "distinct (map f xs) \<Longrightarrow> i < length xs \<Longrightarrow> filter (\<lambda>x. f x = f (xs ! i)) xs = [xs ! i]"
proof (induction xs arbitrary: i)
  case (Cons x xs)
  show ?case
  proof (cases i)
    case 0
    with Cons.prems(1) show ?thesis by (simp add: filter_empty_conv) (metis imageI)
  next
    case (Suc j)
    with Cons.prems have "f x \<noteq> f (xs ! j)" by auto
    with Cons Suc show ?thesis by simp
  qed
qed simp

lemma find_nth_id:
  assumes "distinct (live_ids ss m)" and "i < length (live_ids ss m)"
  shows "multi_find_by_id ss m (live_ids ss m ! i) = Some (live_slots ss m ! i)"
proof -
  let ?L = "live_slots ss m" and ?P = "\<lambda>k. live ss k \<and> ms_id (ss ! k) = live_ids ss m ! i"
  have i: "i < length ?L" using assms(2) by (simp add: live_ids_def)
  have "filter ?P [0..<m] = filter (\<lambda>k. ms_id (ss ! k) = ms_id (ss ! (?L ! i))) ?L"
    using i by (simp add: live_slots_def conj_commute live_ids_def)
  also have "\<dots> = [?L ! i]"
    using filter_unique [of "\<lambda>k. ms_id (ss ! k)" ?L i] assms(1) i by (simp add: live_ids_def)
  finally show ?thesis by (simp add: multi_find_by_id_def find_filter)
qed

text \<open>Where the \<open>i\<close>-th live slot splits the table.\<close>

lemma slots_nth:
  assumes "i < length (live_slots ss m)" and "k = live_slots ss m ! i"
  shows "k < m" and "live ss k" and "live_slots ss k = take i (live_slots ss m)"
    and "filter (live ss) [k + 1..<m] = drop (i + 1) (live_slots ss m)"
proof -
  let ?L = "live_slots ss m"
  have "k \<in> set ?L" using assms by simp
  then show k: "k < m" "live ss k" by (simp_all add: live_slots_def)
  note sp = slots_around [OF k]
  have d: "distinct ?L" by (simp add: live_slots_def)
  have "?L ! length (live_slots ss k) = k" "length (live_slots ss k) < length ?L" by (simp_all add: sp)
  with d assms have n: "length (live_slots ss k) = i" using nth_eq_iff_index_eq by metis
  show "live_slots ss k = take i ?L" "filter (live ss) [k + 1..<m] = drop (i + 1) ?L" using n by (simp_all add: sp)
qed

theorem next_session:
  assumes "distinct (live_ids ss m)" and "i < length (live_ids ss m)"
  shows "multi_next_session_id ss m (live_ids ss m ! i) = live_ids ss m ! (Suc i mod length (live_ids ss m))"
proof -
  let ?L = "live_slots ss m"
  have i: "i < length ?L" using assms(2) by (simp add: live_ids_def)
  note sl = slots_nth [OF i refl]
  have f: "multi_find_by_id ss m (ms_id (ss ! (?L ! i))) = Some (?L ! i)" using find_nth_id [OF assms] i by (simp add: live_ids_def)
  show ?thesis
  proof (cases "Suc i < length ?L")
    case True
    then have "drop (i + 1) ?L = ?L ! Suc i # drop (i + 2) ?L" by (simp add: Cons_nth_drop_Suc)
    with True show ?thesis
      using sl(4) by (simp add: multi_next_session_id_def f find_filter live_ids_def)
  next
    case False
    then have "drop (i + 1) ?L = []" "Suc i = length ?L" using i by simp_all
    moreover from this have "?L \<noteq> []" using i by auto
    ultimately show ?thesis
      using sl(4) by (simp add: multi_next_session_id_def f find_filter first_session live_ids_def hd_map hd_conv_nth)
  qed
qed

theorem prev_session:
  assumes "distinct (live_ids ss m)" and "i < length (live_ids ss m)"
  shows "multi_prev_session_id ss m (live_ids ss m ! i)
    = live_ids ss m ! ((i + length (live_ids ss m) - 1) mod length (live_ids ss m))"
proof -
  let ?L = "live_slots ss m" and ?k = "live_slots ss m ! i"
  have i: "i < length ?L" using assms(2) by (simp add: live_ids_def)
  note sl = slots_nth [OF i refl]
  have f: "multi_find_by_id ss m (ms_id (ss ! (?L ! i))) = Some (?L ! i)" using find_nth_id [OF assms] i by (simp add: live_ids_def)
  have r: "filter (live ss) (rev [0..<j]) = rev (live_slots ss j)" for j by (simp add: live_slots_def rev_filter)
  show ?thesis
  proof (cases i)
    case 0
    then have "rev (live_slots ss ?k) = []" using sl(3) by simp
    moreover have "first_id ss (rev [0..<m]) = ms_id (ss ! last ?L)"
      using i by (cases ?L rule: rev_cases) (auto simp: first_id_hd r)
    moreover have "last ?L = ?L ! (length ?L - 1)" using i by (intro last_conv_nth) auto
    ultimately show ?thesis
      using i f [unfolded 0] by (simp add: 0 multi_prev_session_id_def find_filter r live_ids_def)
  next
    case (Suc j)
    then have "rev (live_slots ss ?k) = ?L ! j # rev (take j ?L)" using sl(3) i by (simp add: take_Suc_conv_app_nth)
    with Suc i f [unfolded Suc] show ?thesis
      by (simp add: multi_prev_session_id_def f find_filter r live_ids_def mod_less)
  qed
qed

section \<open>Complete lines\<close>

text \<open>The complete lines of a text, with their newlines, and the rest.\<close>

fun split_lines :: "bytes \<Rightarrow> bytes \<Rightarrow> bytes list \<times> bytes" where
  "split_lines line [] = ([], line)"
| "split_lines line (x # xs) =
     (if x = CHR 0x0A then let (ls, r) = split_lines [] xs in ((line @ [x]) # ls, r) else split_lines (line @ [x]) xs)"

definition handle_lines :: "nat \<Rightarrow> bytes list \<Rightarrow> console \<times> sys \<Rightarrow> console \<times> sys" where
  "handle_lines m ls r = fold (\<lambda>line r. multi_handle_input_line m line (fst r) (snd r)) ls r"

lemma input_lines_split:
  assumes "length (snd (split_lines line xs)) < WCAT_MULTI_INPUT"
  shows "input_lines m line xs c s = (snd (split_lines line xs), handle_lines m (fst (split_lines line xs)) (c, s))"
  using assms
proof (induction m line xs c s rule: input_lines.induct)
  case (2 m line x xs c s)
  obtain c1 s1 where h: "multi_handle_input_line m (line @ [x]) c s = (c1, s1)" by force
  show ?case
  proof (cases "x = CHR 0x0A")
    case True
    from 2(1) [OF True refl h [symmetric]] 2(3) h True show ?thesis
      by (simp add: case_prod_unfold Let_def handle_lines_def)
  next
    case False
    with 2(2,3) show ?thesis by simp
  qed
qed (simp add: handle_lines_def)

lemma split_lines_append:
  "split_lines line (xs @ ys) = (let (a, r) = split_lines line xs; (b, t) = split_lines r ys in (a @ b, t))"
  by (induction line xs rule: split_lines.induct) (simp_all add: case_prod_unfold Let_def)

lemma split_lines_concat: "concat (fst (split_lines line xs)) @ snd (split_lines line xs) = line @ xs"
  by (induction line xs rule: split_lines.induct) (simp_all add: case_prod_unfold Let_def)

lemma split_lines_shape:
  "CHR 0x0A \<notin> set line \<Longrightarrow>
     CHR 0x0A \<notin> set (snd (split_lines line xs)) \<and> (\<forall>l \<in> set (fst (split_lines line xs)). \<exists>t. l = t @ [CHR 0x0A] \<and> CHR 0x0A \<notin> set t)"
  by (induction line xs rule: split_lines.induct) (auto simp: case_prod_unfold Let_def)

section \<open>Labels\<close>

text \<open>The bytes with a label before the first byte of every line.\<close>

fun labelled :: "string \<Rightarrow> bool \<Rightarrow> bytes \<Rightarrow> bytes" where
  "labelled p start [] = []"
| "labelled p start (x # xs) = (if start then p else []) @ x # labelled p (x = CHR 0x0A) xs"

definition ends_line :: "bool \<Rightarrow> bytes \<Rightarrow> bool" where
  "ends_line start b = (if b = [] then start else last b = CHR 0x0A)"

lemma labelled_append: "labelled p start (a @ b) = labelled p start a @ labelled p (ends_line start a) b"
  by (induction p start a rule: labelled.induct) (auto simp: ends_line_def)

lemma labelled_body: "CHR 0x0A \<notin> set a \<Longrightarrow> labelled p False a = a"
  by (induction a) auto

lemma session_prefix_same: "session_prefix (x\<lparr>ms_line_start := b\<rparr>) = session_prefix x"
  by (simp add: session_prefix_def multi_session_label_def)

text \<open>One step of the loop: a label when a line starts, then the bytes up to the end of the line.\<close>

lemma labelled_step:
  assumes "b \<noteq> []" and "body = takeWhile (\<lambda>c. c \<noteq> CHR 0x0A) b"
    and "piece = (if length body < length b then body @ nl else body)"
  shows "b = piece @ drop (length piece) b" and "piece \<noteq> []"
    and "labelled p start piece = (if start then p else []) @ piece"
    and "ends_line st piece = (length body < length b)" and "\<not> length body < length b \<Longrightarrow> drop (length piece) b = []"
proof -
  have n: "CHR 0x0A \<notin> set body" using assms(2) by (auto dest: set_takeWhileD)
  have d: "b = body @ dropWhile (\<lambda>c. c \<noteq> CHR 0x0A) b" using assms(2) by simp
  have pl: "labelled p start (body @ t) = (if start then p else []) @ body @ labelled p False t" if ne: "body \<noteq> []" for t
  proof -
    obtain x xs where b: "body = x # xs" using ne by (cases body) auto
    have "last body \<in> set body" using ne by simp
    with n have "last body \<noteq> CHR 0x0A" by metis
    then have e: "ends_line start body = False" using ne by (simp add: ends_line_def)
    have "labelled p start body = (if start then p else []) @ body" using n by (auto simp: b labelled_body)
    then show ?thesis using labelled_append [of p start body t] e by simp
  qed
  show "\<not> length body < length b \<Longrightarrow> drop (length piece) b = []" using assms(3) by simp
  show "piece \<noteq> []"
  proof (cases "length body < length b")
    case False
    then have "body = b" using d assms(2) by (metis append_Nil2 append_eq_conv_conj takeWhile_eq_take take_all not_less)
    with False assms(1,3) show ?thesis by simp
  qed (simp add: assms(3) nl_def)
  show "b = piece @ drop (length piece) b"
  proof (cases "length body < length b")
    case True
    then have "dropWhile (\<lambda>c. c \<noteq> CHR 0x0A) b \<noteq> []" using d by (metis append_Nil2 nat_less_le)
    then have "hd (dropWhile (\<lambda>c. c \<noteq> CHR 0x0A) b) = CHR 0x0A" using hd_dropWhile by blast
    then have "b = piece @ tl (dropWhile (\<lambda>c. c \<noteq> CHR 0x0A) b)"
      using True d \<open>dropWhile _ b \<noteq> []\<close> assms(3) by (metis append.assoc append_Cons append_Nil list.collapse nl_def)
    then show ?thesis by (metis append_eq_conv_conj)
  next
    case False
    with assms(3) d show ?thesis by (metis append_Nil2 append_eq_conv_conj not_less take_all append_take_drop_id)
  qed
  show "labelled p start piece = (if start then p else []) @ piece"
  proof (cases "body = []")
    case True
    then have "piece = nl" using assms(3) \<open>piece \<noteq> []\<close> by (auto split: if_splits)
    then show ?thesis by (simp add: nl_def)
  next
    case False
    show ?thesis using pl [OF False, of nl] pl [OF False, of "[]"] assms(3) by (auto simp: nl_def)
  qed
  show "ends_line st piece = (length body < length b)"
  proof (cases "length body < length b")
    case True
    then show ?thesis by (simp add: assms(3) ends_line_def nl_def)
  next
    case False
    then have pb: "piece = body" using assms(3) by simp
    have "last piece \<noteq> CHR 0x0A" using last_in_set [OF \<open>piece \<noteq> []\<close>] n unfolding pb by metis
    then show ?thesis using \<open>piece \<noteq> []\<close> False by (simp add: ends_line_def)
  qed
qed

lemma label_effect:
  assumes "(if \<not> ms_line_start y then (True, y, s)
        else if length (session_prefix y) \<ge> 192 then (False, y, s)
        else let (n, s') = wcat_full_write 1 (session_prefix y) s
             in if n \<noteq> int (length (session_prefix y)) then (False, y, s')
                else (True, y\<lparr>ms_line_start := False\<rparr>, s')) = (ok, y1, s1)"
  shows "\<exists>out. prefix out (if ms_line_start y then session_prefix y else []) \<and> sent s1 = (sent s)(1 := sent s 1 @ out)
    \<and> got s1 = got s \<and> (ok \<longrightarrow> out = (if ms_line_start y then session_prefix y else []) \<and> y1 = y\<lparr>ms_line_start := False\<rparr>)
    \<and> (writable (wr_q s 1) \<and> length (session_prefix y) < 192 \<longrightarrow> ok \<and> writable (wr_q s1 1))"
proof (cases "ms_line_start y \<and> length (session_prefix y) < 192")
  case False
  with assms show ?thesis by (intro exI [of _ "[]"]) (auto split: if_splits)
next
  case True
  let ?p = "session_prefix y"
  obtain n u where w: "wcat_full_write 1 ?p s = (n, u)" by force
  obtain k where k: "k \<le> length ?p" "write_effect 1 (take k ?p) s u" "n = int k \<or> n = - 1 \<and> k < length ?p"
    using wcat_full_write_effect [OF w] by blast
  have r: "s1 = u" "ok = (n = int (length ?p))" "y1 = (if ok then y\<lparr>ms_line_start := False\<rparr> else y)"
    using assms True by (auto simp: w split: if_splits)
  have "writable (wr_q s 1) \<Longrightarrow> n = int (length ?p) \<and> writable (wr_q u 1)"
    using full_write_writable [of s 1 ?p] w by auto
  with True k r show ?thesis
    by (intro exI [of _ "take k ?p"]) (auto simp: write_effect_def take_is_prefix)
qed

lemma write_labelled_effect:
  assumes "write_labelled y b s = (rc, y', s')"
  shows "\<exists>out. prefix out (labelled (session_prefix y) (ms_line_start y) b)
    \<and> sent s' = (sent s)(1 := sent s 1 @ out) \<and> got s' = got s \<and> rc \<in> {0, - 1}
    \<and> (rc = 0 \<longrightarrow> out = labelled (session_prefix y) (ms_line_start y) b
         \<and> y' = y\<lparr>ms_line_start := ends_line (ms_line_start y) b\<rparr>)
    \<and> (writable (wr_q s 1) \<and> length (session_prefix y) < 192 \<longrightarrow> rc = 0)"
  using assms
proof (induction "length b" arbitrary: y b s rule: less_induct)
  case less
  show ?case
  proof (cases "b = []")
    case True
    with less.prems show ?thesis by (intro exI [of _ "[]"]) (simp add: ends_line_def)
  next
    case False
    define body where "body = takeWhile (\<lambda>c. c \<noteq> CHR 0x0A) b"
    define ends where "ends = (length body < length b)"
    define piece where "piece = (if ends then body @ nl else body)"
    note st = labelled_step [OF False body_def piece_def [unfolded ends_def]]
    let ?p = "session_prefix y" and ?t = "drop (length piece) b" and ?lead = "if ms_line_start y then session_prefix y else []"
    obtain ok y1 s1 where h: "(if \<not> ms_line_start y then (True, y, s)
        else if length ?p \<ge> 192 then (False, y, s)
        else let (n, s') = wcat_full_write 1 ?p s
             in if n \<noteq> int (length ?p) then (False, y, s') else (True, y\<lparr>ms_line_start := False\<rparr>, s')) = (ok, y1, s1)"
      using prod_cases3 by blast
    have L: "labelled ?p (ms_line_start y) b = ?lead @ piece @ labelled ?p ends ?t"
      using st(3) [of ?p "ms_line_start y"] st(4) [of "ms_line_start y"] labelled_append [of ?p "ms_line_start y" piece ?t] st(1)
      by (simp add: ends_def)
    show ?thesis
    proof (cases ok)
      case False
      from label_effect [OF h] obtain out where o: "prefix out ?lead" "sent s1 = (sent s)(1 := sent s 1 @ out)"
        "got s1 = got s" "writable (wr_q s 1) \<and> length ?p < 192 \<longrightarrow> ok" by blast
      have r: "rc = - 1" "s' = s1"
        using less.prems False \<open>b \<noteq> []\<close> h by (simp_all add: write_labelled.simps [of y b s] Let_def)
      have "prefix out (labelled ?p (ms_line_start y) b)" unfolding L using o(1) by (rule prefix_prefix)
      with o r False show ?thesis by (intro exI [of _ out]) simp
    next
      case True
      with label_effect [OF h] have o: "sent s1 = (sent s)(1 := sent s 1 @ ?lead)" "got s1 = got s"
        "y1 = y\<lparr>ms_line_start := False\<rparr>" "writable (wr_q s 1) \<and> length ?p < 192 \<longrightarrow> writable (wr_q s1 1)"
        by blast+
      obtain n s2 where w: "wcat_full_write 1 piece s1 = (n, s2)" by force
      obtain k where k: "k \<le> length piece" "write_effect 1 (take k piece) s1 s2" "n = int k \<or> n = - 1 \<and> k < length piece"
        using wcat_full_write_effect [OF w] by blast
      have wr: "writable (wr_q s1 1) \<Longrightarrow> n = int (length piece) \<and> writable (wr_q s2 1)"
        using full_write_writable [of s1 1 piece] w by auto
      define y2 where "y2 = (if ends then y1\<lparr>ms_line_start := True\<rparr> else y1)"
      have run: "(rc, y', s') = (if n \<noteq> int (length piece) then (- 1, y2, s2) else write_labelled y2 ?t s2)"
        using less.prems True \<open>b \<noteq> []\<close> h w
        by (cases "n = int (length piece)"; simp add: write_labelled.simps [of y b s] Let_def body_def [symmetric] ends_def [symmetric]
            piece_def [symmetric] y2_def [symmetric])
      have y2: "session_prefix y2 = ?p" "ms_line_start y2 = ends"
        by (simp_all add: y2_def o(3) session_prefix_same)
      show ?thesis
      proof (cases "n = int (length piece)")
        case False
        with run have r: "rc = - 1" "s' = s2" by simp_all
        have "prefix (?lead @ take k piece) (labelled ?p (ms_line_start y) b)"
          unfolding L by (metis append_take_drop_id prefixI same_prefix_prefix append_assoc)
        moreover have "sent s' = (sent s)(1 := sent s 1 @ ?lead @ take k piece)" "got s' = got s"
          using k(2) o by (simp_all add: r write_effect_def)
        moreover have "\<not> (writable (wr_q s 1) \<and> length ?p < 192)" using False wr o(4) by blast
        ultimately show ?thesis using r by (intro exI [of _ "?lead @ take k piece"]) simp
      next
        case True
        then have full: "write_effect 1 piece s1 s2" using wcat_full_write_all w by simp
        from True run have rw: "write_labelled y2 ?t s2 = (rc, y', s')" by simp
        have "length ?t < length b" using st(2) \<open>b \<noteq> []\<close> by simp
        from less.hyps [OF this rw] obtain out where i: "prefix out (labelled ?p ends ?t)"
          "sent s' = (sent s2)(1 := sent s2 1 @ out)" "got s' = got s2" "rc \<in> {0, - 1}"
          "rc = 0 \<longrightarrow> out = labelled ?p ends ?t \<and> y' = y2\<lparr>ms_line_start := ends_line ends ?t\<rparr>"
          "writable (wr_q s2 1) \<and> length ?p < 192 \<longrightarrow> rc = 0" unfolding y2 by blast
        have e: "ends_line ends ?t = ends_line (ms_line_start y) b"
        proof (cases "?t = []")
          case True
          then have "b = piece" using st(1) by simp
          with True st(4) [of "ms_line_start y"] show ?thesis by (simp add: ends_line_def ends_def)
        next
          case False
          then show ?thesis using st(1) \<open>b \<noteq> []\<close> by (simp add: ends_line_def)
        qed
        have "y2\<lparr>ms_line_start := c\<rparr> = y\<lparr>ms_line_start := c\<rparr>" for c by (simp add: y2_def o(3))
        moreover have "sent s' = (sent s)(1 := sent s 1 @ ?lead @ piece @ out)" "got s' = got s"
          using i(2,3) full o by (simp_all add: write_effect_def)
        moreover have "prefix (?lead @ piece @ out) (labelled ?p (ms_line_start y) b)" unfolding L using i(1) by simp
        moreover have "writable (wr_q s 1) \<and> length ?p < 192 \<longrightarrow> rc = 0" using i(6) wr o(4) by blast
        ultimately show ?thesis using i(4,5) unfolding L e by (intro exI [of _ "?lead @ piece @ out"]) simp
      qed
    qed
  qed
qed

end
