(* ===== verification/Wcat_Edit.thy ===== *)
theory Wcat_Edit
  imports Wcat_Editor
begin

text \<open>
  The line editor of \<open>listen --multi\<close> against its specification: bytes are decoded into keys, and a
  key edits the text before and the text after the cursor. The buffers of the code (8192 bytes of
  input, 64 lines of history) bound the text.
\<close>

section \<open>Specification\<close>

datatype key = KUp | KDown | KLeft | KRight | KHome | KEnd | KEnter | KErase | KText char | KNone

record zipper =
  z_before :: bytes
  z_after :: bytes
  z_hist :: "bytes list"
  z_pos :: "nat option"

definition printable :: "char \<Rightarrow> bool" where
  "printable c = (c = CHR 0x09 \<or> is_text c)"

definition csi_key :: "char \<Rightarrow> key" where
  "csi_key c =
     (if c = CHR ''A'' then KUp else if c = CHR ''B'' then KDown else if c = CHR ''D'' then KLeft
      else if c = CHR ''C'' then KRight else if c = CHR ''H'' \<or> c = CHR ''h'' then KHome
      else if c = CHR ''F'' \<or> c = CHR ''f'' then KEnd else KNone)"

text \<open>The next state of the escape sequence, and the key that is complete.\<close>

definition decode :: "nat \<Rightarrow> char \<Rightarrow> nat \<times> key" where
  "decode st ch =
     (if st = 1 then (if ch = CHR ''['' then 2 else if ch = CHR ''O'' then 3 else 0, KNone)
      else if st = 2
      then (if ch \<in> set ''ABCDHF'' then (0, csi_key ch) else if isdigit ch then (100 + code ch, KNone) else (0, KNone))
      else if st = 3 then (0, csi_key (if ch = CHR ''w'' then CHR ''H'' else if ch = CHR ''q'' then CHR ''F'' else ch))
      else if st \<ge> 100
      then (if ch \<noteq> CHR ''~'' then (99, KNone)
            else if st - 100 \<in> {code (CHR ''1''), code (CHR ''7'')} then (0, KHome)
            else if st - 100 \<in> {code (CHR ''4''), code (CHR ''8'')} then (0, KEnd)
            else (0, KNone))
      else if st = 99
      then (if code (CHR ''A'') \<le> code ch \<and> code ch \<le> code (CHR ''Z'') \<or> ch = CHR ''~'' then 0 else 99, KNone)
      else if ch = CHR 0x1B then (1, KNone)
      else (st, if ch = CHR 0x0D \<or> ch = CHR 0x0A then KEnter else if ch = CHR 0x08 \<or> ch = CHR 0x7F then KErase
                else if printable ch then KText ch else KNone))"

definition recall :: "nat \<Rightarrow> zipper \<Rightarrow> zipper" where
  "recall p z = z\<lparr>z_before := z_hist z ! p, z_after := [], z_pos := Some p\<rparr>"

text \<open>The history after a line: no empty line, no line twice in a row, the oldest goes first.\<close>

definition remember :: "bytes \<Rightarrow> bytes list \<Rightarrow> bytes list" where
  "remember t h =
     (if t = [] \<or> h \<noteq> [] \<and> last h = t then h else (if length h = WCAT_MULTI_HISTORY then tl h else h) @ [t])"

definition edit :: "key \<Rightarrow> zipper \<Rightarrow> zipper" where
  "edit k z =
     (let b = z_before z; a = z_after z
      in case k of
           KUp \<Rightarrow> if z_hist z = [] then z
                  else recall (case z_pos z of None \<Rightarrow> length (z_hist z) - 1 | Some p \<Rightarrow> p - 1) z
         | KDown \<Rightarrow>
             (case z_pos z of
                None \<Rightarrow> z
              | Some p \<Rightarrow> if p + 1 < length (z_hist z) then recall (p + 1) z
                          else z\<lparr>z_before := [], z_after := [], z_pos := None\<rparr>)
         | KLeft \<Rightarrow> if b = [] then z else z\<lparr>z_before := butlast b, z_after := last b # a\<rparr>
         | KRight \<Rightarrow> if a = [] then z else z\<lparr>z_before := b @ [hd a], z_after := tl a\<rparr>
         | KHome \<Rightarrow> z\<lparr>z_before := [], z_after := b @ a\<rparr>
         | KEnd \<Rightarrow> z\<lparr>z_before := b @ a, z_after := []\<rparr>
         | KErase \<Rightarrow> if b = [] then z else z\<lparr>z_before := butlast b, z_pos := None\<rparr>
         | KText ch \<Rightarrow> if length (b @ a) < WCAT_MULTI_INPUT then z\<lparr>z_before := b @ [ch], z_pos := None\<rparr> else z
         | KEnter \<Rightarrow> \<lparr>z_before = [], z_after = [], z_hist = remember (take (WCAT_MULTI_INPUT - 1) (b @ a)) (z_hist z), z_pos = None\<rparr>
         | KNone \<Rightarrow> z)"

text \<open>The line that is handled: the text with a newline when there is room for one.\<close>

definition submitted :: "bytes \<Rightarrow> bytes" where
  "submitted t = (if length t < WCAT_MULTI_INPUT then t @ nl else t)"

section \<open>The editor implements it\<close>

definition zip_of :: "editor \<Rightarrow> zipper" where
  "zip_of e = \<lparr>z_before = take (ed_cursor e) (ed_input e), z_after = drop (ed_cursor e) (ed_input e),
     z_hist = ed_history e, z_pos = (if history_pos e < 0 then None else Some (nat (history_pos e)))\<rparr>"

definition ed_ok :: "editor \<Rightarrow> bool" where
  "ed_ok e \<longleftrightarrow>
     length (ed_input e) \<le> WCAT_MULTI_INPUT \<and> list_all printable (ed_input e) \<and> ed_cursor e \<le> length (ed_input e)
     \<and> length (ed_history e) \<le> WCAT_MULTI_HISTORY
     \<and> list_all (\<lambda>h. h \<noteq> [] \<and> length h < WCAT_MULTI_INPUT \<and> list_all printable h) (ed_history e)
     \<and> - 1 \<le> history_pos e \<and> history_pos e < int (length (ed_history e))"

lemma new_editor_ok: "ed_ok new_editor"
  by (simp add: ed_ok_def new_editor_def)

lemma zip_escape [simp]: "zip_of (e\<lparr>esc_state := n\<rparr>) = zip_of e" "ed_ok (e\<lparr>esc_state := n\<rparr>) = ed_ok e"
  by (simp_all add: zip_of_def ed_ok_def)

lemma printable_plain: "printable c \<Longrightarrow> c \<noteq> CHR 0x00 \<and> \<not> is_line_end c"
  by (auto simp: printable_def is_text_def is_line_end_def)

lemma c_string_printable: "list_all printable t \<Longrightarrow> c_string t = t"
  by (rule c_string_id) (auto simp: list_all_iff dest: printable_plain)

lemma trim_printable: "list_all printable t \<Longrightarrow> multi_line_trim_len t = length t"
  by (cases t rule: rev_cases) (auto simp: multi_line_trim_len_def dest: printable_plain)

lemma trim_newline: "list_all printable t \<Longrightarrow> multi_line_trim_len (t @ nl) = length t"
  using trim_printable [of t] by (simp add: multi_line_trim_len_def nl_def is_line_end_def)

lemma take_submitted: "k \<le> length t \<Longrightarrow> take k (submitted t) = take k t"
  by (simp add: submitted_def)

lemma history_save_remember:
  assumes "list_all printable t" and "length t \<le> WCAT_MULTI_INPUT"
    and "list_all (\<lambda>h. h \<noteq> [] \<and> length h < WCAT_MULTI_INPUT \<and> list_all printable h) hs"
  shows "multi_history_save hs (submitted t) = remember (take (WCAT_MULTI_INPUT - 1) t) hs"
proof -
  have l: "multi_line_trim_len (submitted t) = length t"
    using assms(1) trim_printable trim_newline by (simp add: submitted_def)
  let ?n = "if length t \<ge> WCAT_MULTI_INPUT then WCAT_MULTI_INPUT - 1 else length t"
  have n: "?n \<le> length t" "take ?n (submitted t) = take (WCAT_MULTI_INPUT - 1) t" "?n = length (take (WCAT_MULTI_INPUT - 1) t)"
    using assms(2) by (auto simp: take_submitted WCAT_MULTI_INPUT_def)
  define u where "u = take (WCAT_MULTI_INPUT - 1) t"
  have c: "length (c_string (last hs)) = length u \<and> take (length u) (last hs) = u \<longleftrightarrow> last hs = u" if "hs \<noteq> []"
  proof -
    have "list_all printable (last hs)" using assms(3) last_in_set [OF that] by (simp add: list_all_iff)
    then show ?thesis by (auto simp: c_string_printable)
  qed
  have "take (WCAT_MULTI_INPUT - 1) t = [] \<longleftrightarrow> t = []" by (simp add: WCAT_MULTI_INPUT_def)
  then have "u = [] \<longleftrightarrow> t = []" by (simp add: u_def)
  have n2: "take (length u) (submitted t) = u" using n(2,3) by (simp add: u_def)
  with c \<open>u = [] \<longleftrightarrow> t = []\<close> show ?thesis
    unfolding u_def [symmetric] multi_history_save_def remember_def Let_def l n(3) [folded u_def] n2 by auto
qed

text \<open>Keys that move and recall.\<close>

lemma show_history_recall:
  assumes "ed_ok e" and "p < length (ed_history e)"
  shows "zip_of (show_history (e\<lparr>history_pos := int p\<rparr>)) = recall p (zip_of e)" "ed_ok (show_history (e\<lparr>history_pos := int p\<rparr>))"
proof -
  have h: "ed_history e ! p \<noteq> [] \<and> length (ed_history e ! p) < WCAT_MULTI_INPUT \<and> list_all printable (ed_history e ! p)"
    using assms by (simp add: ed_ok_def list_all_length)
  then show "zip_of (show_history (e\<lparr>history_pos := int p\<rparr>)) = recall p (zip_of e)"
    by (simp add: show_history_def zip_of_def recall_def c_string_printable Let_def)
  show "ed_ok (show_history (e\<lparr>history_pos := int p\<rparr>))"
    using h assms by (simp add: show_history_def ed_ok_def c_string_printable Let_def)
qed

lemma show_history_esc: "esc_state (show_history e) = esc_state e"
  by (simp add: show_history_def Let_def)

lemma history_up:
  assumes "ed_ok e"
  shows "zip_of (fst (multi_history_load a True e s)) = edit KUp (zip_of e) \<and> ed_ok (fst (multi_history_load a True e s))
    \<and> esc_state (fst (multi_history_load a True e s)) = esc_state e"
proof (cases "ed_history e = []")
  case True
  with assms show ?thesis by (simp add: multi_history_load_def edit_def zip_of_def Let_def)
next
  case False
  define q where "q = (case z_pos (zip_of e) of None \<Rightarrow> length (ed_history e) - 1 | Some p \<Rightarrow> p - 1)"
  have p: "- 1 \<le> history_pos e" "history_pos e < int (length (ed_history e))" using assms by (simp_all add: ed_ok_def)
  have l: "1 \<le> length (ed_history e)" using False by (simp add: Suc_leI)
  have q: "(if history_pos e < 0 then int (length (ed_history e)) - 1
        else if history_pos e > 0 then history_pos e - 1 else history_pos e) = int q" "q < length (ed_history e)"
    using p l by (auto simp: q_def zip_of_def of_nat_diff)
  have "fst (multi_history_load a True e s) = show_history (e\<lparr>history_pos := int q\<rparr>)"
    using False by (simp add: multi_history_load_def Let_def q(1))
  moreover have "edit KUp (zip_of e) = recall q (zip_of e)"
    using False by (simp add: edit_def q_def zip_of_def)
  ultimately show ?thesis using show_history_recall [OF assms q(2)] by (simp add: show_history_esc)
qed

lemma history_down:
  assumes "ed_ok e"
  shows "zip_of (fst (multi_history_load a False e s)) = edit KDown (zip_of e) \<and> ed_ok (fst (multi_history_load a False e s))
    \<and> esc_state (fst (multi_history_load a False e s)) = esc_state e"
proof (cases "history_pos e < 0")
  case True
  with assms show ?thesis by (simp add: multi_history_load_def edit_def zip_of_def Let_def)
next
  case False
  then obtain p where p: "history_pos e = int p" "p < length (ed_history e)"
    using assms nonneg_int_cases [of "history_pos e"] by (metis ed_ok_def not_less of_nat_less_iff)
  show ?thesis
  proof (cases "p + 1 < length (ed_history e)")
    case True
    have "fst (multi_history_load a False e s) = show_history (e\<lparr>history_pos := int (p + 1)\<rparr>)"
      using True p by (auto simp: multi_history_load_def Let_def add.commute)
    moreover have "edit KDown (zip_of e) = recall (p + 1) (zip_of e)" using True p by (simp add: edit_def zip_of_def)
    ultimately show ?thesis using show_history_recall [OF assms True] by (simp add: show_history_esc)
  next
    case False
    have "fst (multi_history_load a False e s) = e\<lparr>history_pos := - 1, ed_input := [], ed_cursor := 0\<rparr>"
      using False p by (auto simp: multi_history_load_def Let_def)
    then show ?thesis using False p assms by (simp add: edit_def zip_of_def ed_ok_def)
  qed
qed

lemma moving_keys:
  assumes "ed_ok e"
  shows "zip_of (fst (multi_handle_input_key a k e s)) = edit (csi_key k) (zip_of e) \<and> ed_ok (fst (multi_handle_input_key a k e s))
    \<and> esc_state (fst (multi_handle_input_key a k e s)) = esc_state e"
proof -
  let ?c = "ed_cursor e" and ?t = "ed_input e"
  have c: "?c \<le> length ?t" using assms by (simp add: ed_ok_def)
  have left: "take (?c - 1) ?t = butlast (take ?c ?t)" "drop (?c - 1) ?t = last (take ?c ?t) # drop ?c ?t" if p: "0 < ?c"
  proof -
    show "take (?c - 1) ?t = butlast (take ?c ?t)" using c by (simp add: butlast_take)
    have "drop (?c - 1) ?t = ?t ! (?c - 1) # drop (Suc (?c - 1)) ?t" using c p by (intro Cons_nth_drop_Suc [symmetric]) simp
    moreover have "last (take ?c ?t) = ?t ! (?c - 1)" using c p by (subst last_conv_nth) auto
    ultimately show "drop (?c - 1) ?t = last (take ?c ?t) # drop ?c ?t" using p by simp
  qed
  have right: "take (Suc ?c) ?t = take ?c ?t @ [hd (drop ?c ?t)]" "drop (Suc ?c) ?t = tl (drop ?c ?t)" if "?c < length ?t"
    using that by (simp_all add: take_Suc_conv_app_nth hd_drop_conv_nth drop_Suc tl_drop)
  consider (up) "k = CHR ''A''" | (down) "k = CHR ''B''" | (l) "k = CHR ''D''" | (r) "k = CHR ''C''"
    | (h) "k = CHR ''H'' \<or> k = CHR ''h''" | (f) "k = CHR ''F'' \<or> k = CHR ''f''"
    | (no) "k \<notin> {CHR ''A'', CHR ''B'', CHR ''D'', CHR ''C'', CHR ''H'', CHR ''h'', CHR ''F'', CHR ''f''}" by blast
  then show ?thesis
  proof cases
    case up
    then show ?thesis using history_up [OF assms, of a s] by (simp add: multi_handle_input_key_def csi_key_def Let_def)
  next
    case down
    then show ?thesis using history_down [OF assms, of a s] by (simp add: multi_handle_input_key_def csi_key_def Let_def)
  next
    case l
    show ?thesis
    proof (cases "0 < ?c")
      case True
      then have "fst (multi_handle_input_key a k e s) = e\<lparr>ed_cursor := ?c - 1\<rparr>"
        using l by (simp add: multi_handle_input_key_def Let_def)
      moreover have "take ?c ?t \<noteq> []" using True c by auto
      ultimately show ?thesis using l c assms left [OF True] by (simp add: csi_key_def edit_def zip_of_def ed_ok_def Let_def)
    next
      case False
      then show ?thesis using l assms by (simp add: multi_handle_input_key_def csi_key_def Let_def edit_def zip_of_def)
    qed
  next
    case r
    show ?thesis
    proof (cases "?c < length ?t")
      case True
      then have "fst (multi_handle_input_key a k e s) = e\<lparr>ed_cursor := Suc ?c\<rparr>"
        using r by (simp add: multi_handle_input_key_def Let_def)
      then show ?thesis using r True c assms right [OF True] by (simp add: csi_key_def edit_def zip_of_def ed_ok_def Let_def)
    next
      case False
      then show ?thesis using r assms by (simp add: multi_handle_input_key_def csi_key_def Let_def edit_def zip_of_def)
    qed
  next
    case h
    then have k: "csi_key k = KHome" by (elim disjE) (simp_all add: csi_key_def)
    have "fst (multi_handle_input_key a k e s) = (if 0 < ?c then e\<lparr>ed_cursor := 0\<rparr> else e)"
      using h by (elim disjE) (simp_all add: multi_handle_input_key_def Let_def)
    then show ?thesis using assms k by (cases "0 < ?c") (simp_all add: edit_def zip_of_def ed_ok_def Let_def)
  next
    case f
    then have k: "csi_key k = KEnd" by (elim disjE) (simp_all add: csi_key_def)
    have "fst (multi_handle_input_key a k e s) = (if ?c < length ?t then e\<lparr>ed_cursor := length ?t\<rparr> else e)"
      using f by (elim disjE) (simp_all add: multi_handle_input_key_def Let_def)
    then show ?thesis using assms k c by (cases "?c < length ?t") (simp_all add: edit_def zip_of_def ed_ok_def Let_def)
  next
    case no
    then show ?thesis using assms by (simp add: multi_handle_input_key_def csi_key_def Let_def edit_def)
  qed
qed

section \<open>One byte\<close>

lemma escape_refines:
  assumes "ed_ok e" and "in_escape (esc_state e)"
  shows "esc_state (fst (escape_byte a ch e s)) = fst (decode (esc_state e) ch)
    \<and> zip_of (fst (escape_byte a ch e s)) = edit (snd (decode (esc_state e) ch)) (zip_of e)
    \<and> ed_ok (fst (escape_byte a ch e s)) \<and> snd (decode (esc_state e) ch) \<noteq> KEnter"
proof -
  have ok: "ed_ok (e\<lparr>esc_state := 0\<rparr>)" using assms(1) by simp
  note mk = moving_keys [OF ok]
  have ne: "csi_key k \<noteq> KEnter" for k by (simp add: csi_key_def)
  have none: "edit KNone z = z" for z by (simp add: edit_def Let_def)
  have he: "csi_key (CHR ''H'') = KHome" "csi_key (CHR ''F'') = KEnd" by (simp_all add: csi_key_def)
  consider (one) "esc_state e = 1" | (two) "esc_state e = 2" | (three) "esc_state e = 3" | (digit) "100 \<le> esc_state e"
    | (long) "esc_state e = 99" using assms(2) by (auto simp: in_escape_def)
  then show ?thesis
  proof cases
    case digit
    then have n: "esc_state e \<noteq> 1" "esc_state e \<noteq> 2" "esc_state e \<noteq> 3" by simp_all
    show ?thesis
      unfolding escape_byte_def decode_def Let_def if_not_P [OF n(1)] if_not_P [OF n(2)] if_not_P [OF n(3)] if_P [OF digit]
      using mk [of a "CHR ''H''" s] mk [of a "CHR ''F''" s] assms(1) by (simp add: he none)
  next
    case long
    then show ?thesis using assms(1) by (simp add: escape_byte_def decode_def none)
  next
    case one
    then show ?thesis using assms(1) by (simp add: escape_byte_def decode_def none)
  next
    case two
    then show ?thesis using mk [of a ch s] assms(1) by (simp add: escape_byte_def decode_def none ne)
  next
    case three
    then show ?thesis
      using mk [of a "CHR ''H''" s] mk [of a "CHR ''F''" s] mk [of a ch s] by (simp add: escape_byte_def decode_def ne he)
  qed
qed

lemma text_edits:
  assumes "ed_ok e"
  shows "0 < ed_cursor e \<Longrightarrow> zip_of (e\<lparr>ed_input := delete_before (ed_cursor e) (ed_input e), ed_cursor := ed_cursor e - 1,
             history_pos := - 1\<rparr>) = edit KErase (zip_of e)"
    and "0 < ed_cursor e \<Longrightarrow> ed_ok (e\<lparr>ed_input := delete_before (ed_cursor e) (ed_input e), ed_cursor := ed_cursor e - 1,
             history_pos := - 1\<rparr>)"
    and "ed_cursor e = 0 \<Longrightarrow> edit KErase (zip_of e) = zip_of e"
    and "length (ed_input e) < WCAT_MULTI_INPUT \<Longrightarrow> zip_of (e\<lparr>ed_input := insert_at (ed_cursor e) ch (ed_input e),
             ed_cursor := ed_cursor e + 1, history_pos := - 1\<rparr>) = edit (KText ch) (zip_of e)"
    and "length (ed_input e) < WCAT_MULTI_INPUT \<Longrightarrow> printable ch \<Longrightarrow>
           ed_ok (e\<lparr>ed_input := insert_at (ed_cursor e) ch (ed_input e), ed_cursor := ed_cursor e + 1, history_pos := - 1\<rparr>)"
    and "\<not> length (ed_input e) < WCAT_MULTI_INPUT \<Longrightarrow> edit (KText ch) (zip_of e) = zip_of e"
proof -
  let ?c = "ed_cursor e" and ?t = "ed_input e"
  have c: "?c \<le> length ?t" and pr: "list_all printable ?t" using assms by (simp_all add: ed_ok_def)
  have pt: "list_all printable (take k ?t)" "list_all printable (drop k ?t)" for k
    using pr by (simp_all add: list_all_iff) (meson in_set_takeD in_set_dropD)+
  have lt: "length (take ?c ?t @ drop ?c ?t) = length ?t" by simp
  show "?c = 0 \<Longrightarrow> edit KErase (zip_of e) = zip_of e" by (simp add: edit_def zip_of_def Let_def)
  show "\<not> length ?t < WCAT_MULTI_INPUT \<Longrightarrow> edit (KText ch) (zip_of e) = zip_of e"
    using c by (simp add: edit_def zip_of_def Let_def)
  show "length ?t < WCAT_MULTI_INPUT \<Longrightarrow> zip_of (e\<lparr>ed_input := insert_at ?c ch ?t, ed_cursor := ?c + 1, history_pos := - 1\<rparr>)
      = edit (KText ch) (zip_of e)"
    using c by (simp add: edit_def zip_of_def Let_def insert_at_def)
  show "ed_ok (e\<lparr>ed_input := insert_at ?c ch ?t, ed_cursor := ?c + 1, history_pos := - 1\<rparr>)"
    if "length ?t < WCAT_MULTI_INPUT" "printable ch"
    using c that assms pt by (simp add: ed_ok_def insert_at_def)
  assume p: "0 < ?c"
  then have "take ?c ?t \<noteq> []" using c by auto
  then show "zip_of (e\<lparr>ed_input := delete_before ?c ?t, ed_cursor := ?c - 1, history_pos := - 1\<rparr>) = edit KErase (zip_of e)"
    using c p by (simp add: edit_def zip_of_def Let_def delete_before_def butlast_take)
  show "ed_ok (e\<lparr>ed_input := delete_before ?c ?t, ed_cursor := ?c - 1, history_pos := - 1\<rparr>)"
    using c p assms pt by (auto simp: ed_ok_def delete_before_def)
qed

lemma enter_refines:
  assumes "ed_ok e" and "enter_line m e c s = (e', c', s')"
  shows "zip_of e' = edit KEnter (zip_of e) \<and> ed_ok e' \<and> esc_state e' = esc_state e
    \<and> (c', s') = multi_handle_input_line m (submitted (ed_input e)) c (eprint nl s)"
proof -
  have t: "list_all printable (ed_input e)" "length (ed_input e) \<le> WCAT_MULTI_INPUT"
    and h: "list_all (\<lambda>h. h \<noteq> [] \<and> length h < WCAT_MULTI_INPUT \<and> list_all printable h) (ed_history e)"
      "length (ed_history e) \<le> WCAT_MULTI_HISTORY"
    using assms(1) by (simp_all add: ed_ok_def)
  let ?u = "take (WCAT_MULTI_INPUT - 1) (ed_input e)"
  have e': "e' = e\<lparr>ed_input := [], ed_cursor := 0, ed_history := remember ?u (ed_history e), history_pos := - 1\<rparr>"
    and r: "(c', s') = multi_handle_input_line m (submitted (ed_input e)) c (eprint nl s)"
    using assms(2) history_save_remember [OF t h(1)] by (auto simp: enter_line_def submitted_def Let_def split: prod.splits if_splits)
  have u: "list_all printable ?u" "length ?u < WCAT_MULTI_INPUT"
    using t by (auto simp: list_all_iff WCAT_MULTI_INPUT_def dest: in_set_takeD)
  have "ed_ok e'"
  proof -
    have "length (remember ?u (ed_history e)) \<le> WCAT_MULTI_HISTORY"
      using h(2) by (auto simp: remember_def WCAT_MULTI_HISTORY_def)
    moreover have "list_all (\<lambda>h. h \<noteq> [] \<and> length h < WCAT_MULTI_INPUT \<and> list_all printable h) (remember ?u (ed_history e))"
    proof -
      have "set (tl (ed_history e)) \<subseteq> set (ed_history e)" by (cases "ed_history e") auto
      then have "set (remember ?u (ed_history e)) \<subseteq> set (ed_history e) \<union> (if ?u = [] then {} else {?u})"
        by (auto simp: remember_def)
      then show ?thesis using h(1) u unfolding list_all_iff by (auto split: if_splits)
    qed
    ultimately show ?thesis by (simp add: e' ed_ok_def)
  qed
  moreover have "zip_of e' = edit KEnter (zip_of e)" by (simp add: e' zip_of_def edit_def Let_def del: take_append)
  ultimately show ?thesis using r by (simp add: e')
qed

lemma editor_byte_refines:
  assumes "ed_ok e" and "editor_byte m ch e c s = (e', c', s')" and "decode (esc_state e) ch = (n, k)"
  shows "esc_state e' = n \<and> zip_of e' = edit k (zip_of e) \<and> ed_ok e'
    \<and> (if k = KEnter then (c', s') = multi_handle_input_line m (submitted (ed_input e)) c (eprint nl s) else c' = c)"
proof (cases "in_escape (esc_state e)")
  case True
  obtain e1 s1 where x: "escape_byte (active c) ch e s = (e1, s1)" by force
  with True assms(2) have "e' = e1" "c' = c" by (simp_all add: editor_byte_def)
  with escape_refines [OF assms(1) True, of "active c" ch s] x assms(3) show ?thesis by auto
next
  case False
  let ?t = "ed_input e" and ?c = "ed_cursor e"
  have st: "esc_state e \<noteq> 1" "esc_state e \<noteq> 2" "esc_state e \<noteq> 3" "\<not> esc_state e \<ge> 100" "esc_state e \<noteq> 99"
    using False by (auto simp: in_escape_def)
  note dec = assms(3) [unfolded decode_def if_not_P [OF st(1)] if_not_P [OF st(2)] if_not_P [OF st(3)] if_not_P [OF st(4)] if_not_P [OF st(5)]]
  note run = assms(2) [unfolded editor_byte_def if_not_P [OF False]]
  have none: "edit KNone z = z" for z by (simp add: edit_def Let_def)
  consider (esc) "ch = CHR 0x1B" | (enter) "ch = CHR 0x0D \<or> ch = CHR 0x0A" "ch \<noteq> CHR 0x1B"
    | (erase) "ch = CHR 0x08 \<or> ch = CHR 0x7F" "ch \<noteq> CHR 0x1B" "\<not> (ch = CHR 0x0D \<or> ch = CHR 0x0A)"
    | (other) "ch \<noteq> CHR 0x1B" "\<not> (ch = CHR 0x0D \<or> ch = CHR 0x0A)" "\<not> (ch = CHR 0x08 \<or> ch = CHR 0x7F)"
    by blast
  then show ?thesis
  proof cases
    case esc
    with dec run assms(1) show ?thesis by (auto simp: none)
  next
    case enter
    with dec have k: "k = KEnter" "n = esc_state e" by auto
    from enter run have "enter_line m e c s = (e', c', s')" by auto
    from enter_refines [OF assms(1) this] k show ?thesis by simp
  next
    case erase
    with dec have k: "k = KErase" "n = esc_state e" by auto
    show ?thesis
    proof (cases "?c > 0")
      case True
      with run erase have "e' = e\<lparr>ed_input := delete_before ?c ?t, ed_cursor := ?c - 1, history_pos := - 1\<rparr>" "c' = c"
        by (auto simp: Let_def)
      with text_edits(1,2) [OF assms(1) True] k show ?thesis by simp
    next
      case False
      with run erase have "e' = e" "c' = c" by auto
      with text_edits(3) [OF assms(1)] False k assms(1) show ?thesis by simp
    qed
  next
    case other
    show ?thesis
    proof (cases "printable ch \<and> length ?t < WCAT_MULTI_INPUT")
      case True
      with run other have "e' = e\<lparr>ed_input := insert_at ?c ch ?t, ed_cursor := ?c + 1, history_pos := - 1\<rparr>" "c' = c"
        by (simp_all add: Let_def printable_def)
      moreover from True dec other have "k = KText ch" "n = esc_state e" by simp_all
      ultimately show ?thesis using text_edits(4,5) [OF assms(1)] True by simp
    next
      case False
      with run other have "e' = e" "c' = c" by (auto simp: printable_def)
      moreover from False dec other have "k = KNone \<or> k = KText ch \<and> \<not> length ?t < WCAT_MULTI_INPUT" "n = esc_state e"
        by (auto split: if_splits)
      ultimately show ?thesis using text_edits(6) [OF assms(1)] assms(1) none by auto
    qed
  qed
qed

end
