(* ===== verification/Wcat_Typing.thy ===== *)
theory Wcat_Typing
  imports Wcat_Attached Wcat_Edit
begin

text \<open>
  The attached session of \<open>listen --multi\<close>: what is typed reaches the peer byte for byte, a word
  that detaches is never sent, the echo of the peer is not shown and everything else is.
\<close>

section \<open>The echo\<close>

text \<open>A terminal echoes a newline as carriage return and newline.\<close>

definition tty_echo :: "bytes \<Rightarrow> bytes" where
  "tty_echo b = concat (map (\<lambda>x. if x = CHR 0x0A then [CHR 0x0D, CHR 0x0A] else [x]) b)"

lemma echo_hidden: "attached_output (tty_echo p @ rest) p s = attached_output rest [] s"
  by (induction p) (simp_all add: tty_echo_def)

lemma plain_echo_hidden: "attached_output (p @ rest) p s = attached_output rest [] s"
  by (induction p) simp_all

lemma output_shown:
  "writable (wr_q s 1) \<Longrightarrow>
     \<exists>s'. attached_output b [] s = (0, [], s') \<and> sent s' = (sent s)(1 := sent s 1 @ b) \<and> got s' = got s"
proof (induction b arbitrary: s)
  case (Cons x b)
  obtain u where w: "wcat_full_write 1 [x] s = (1, u)" "write_effect 1 [x] s u" "writable (wr_q u 1)"
    using full_write_writable [OF Cons.prems, of "[x]"] by auto
  from Cons.IH [OF w(3)] obtain s' where "attached_output b [] u = (0, [], s')"
    "sent s' = (sent u)(1 := sent u 1 @ b)" "got s' = got u" by blast
  with w(1,2) show ?case by (auto simp: write_effect_def)
qed simp

section \<open>Words that detach\<close>

lemma detach_match:
  "fst (multi_attached_detach_match w) \<longleftrightarrow> (\<exists>d \<in> set detach_words. prefix w d)"
  "multi_attached_detach_match w = (True, True) \<longleftrightarrow> w \<in> set detach_words"
proof -
  have p: "length w \<le> length d \<and> take (length w) d = w \<longleftrightarrow> prefix w d" for d
    by (auto simp: prefix_def) (metis append_take_drop_id)
  show "fst (multi_attached_detach_match w) \<longleftrightarrow> (\<exists>d \<in> set detach_words. prefix w d)"
    unfolding multi_attached_detach_match_def p by (auto simp: find_None_iff find_Some_iff split: option.split)
  have e: "prefix w d \<Longrightarrow> length w = length d \<Longrightarrow> w = d" for d by (auto simp: prefix_def)
  show "multi_attached_detach_match w = (True, True) \<longleftrightarrow> w \<in> set detach_words"
    unfolding multi_attached_detach_match_def p detach_words_def
    by (auto dest: e split: if_splits)
qed

lemma detach_word_length: "fst (multi_attached_detach_match w) \<Longrightarrow> length w \<le> 7"
  unfolding detach_match(1) by (auto simp: detach_words_def dest: prefix_length_le)

lemma detach_match_shorter: "fst (multi_attached_detach_match (w @ x)) \<Longrightarrow> fst (multi_attached_detach_match w)"
  unfolding detach_match(1) using append_prefixD by blast

section \<open>What is typed is sent\<close>

text \<open>Session \<open>k\<close> is open on descriptor \<open>f\<close>, which takes what is written.\<close>

definition reaches :: "nat \<Rightarrow> fd \<Rightarrow> console \<Rightarrow> sys \<Rightarrow> bool" where
  "reaches k f c s \<longleftrightarrow> 0 \<le> f \<and> f \<noteq> 2 \<and> ms_fd (sessions c ! k) = f \<and> writable (wr_q s f)"

definition pending_text :: "typing \<Rightarrow> bytes" where
  "pending_text t = (if ty_held t then ty_line t else [])"

definition ty_ok :: "typing \<Rightarrow> bool" where
  "ty_ok t \<longleftrightarrow> ty_held t \<longrightarrow> fst (multi_attached_detach_match (ty_line t))"

definition typed_char :: "char \<Rightarrow> bool" where
  "typed_char ch = (printable ch \<or> ch = CHR 0x0D \<or> ch = CHR 0x0A)"

definition as_sent :: "char \<Rightarrow> char" where
  "as_sent ch = (if ch = CHR 0x0D then CHR 0x0A else ch)"

lemma reaches_print:
  "reaches k f c (eprint t s) = reaches k f c s" "reaches k f c (multi_print_prompt i s) = reaches k f c s"
  "sent (eprint t s) = sent s" "sent (multi_print_prompt i s) = sent s"
  by (simp_all add: reaches_def eprint_def multi_print_prompt_def Let_def)

lemma reaches_stderr:
  assumes "reaches k f c s"
  shows "reaches k f c (stderr_write b s)" and "sent (stderr_write b s) f = sent s f"
proof -
  obtain n u where w: "wcat_full_write 2 b s = (n, u)" by force
  from wcat_full_write_effect [OF w] assms show "reaches k f c (stderr_write b s)" "sent (stderr_write b s) f = sent s f"
    by (auto simp: stderr_write_def w reaches_def eprint_def write_effect_def)
qed

lemma reaches_type_out:
  assumes "reaches k f c s" and "type_out k b t c s = (t', c', s')"
  shows "reaches k f c' s'" and "sent s' f = sent s f @ b" and "attached c' = attached c"
    and "ty_line t' = ty_line t" and "ty_held t' = ty_held t"
proof -
  obtain u where w: "wcat_full_write f b s = (int (length b), u)" "write_effect f b s u" "writable (wr_q u f)"
    using full_write_writable assms(1) unfolding reaches_def by blast
  let ?x = "sessions c ! k"
  have snd: "send_to k b (sessions c) s = (0, (sessions c)[k := ?x\<lparr>ms_tx := ms_tx ?x + of_nat (length b)\<rparr>], u)"
    using assms(1) w(1) by (simp add: send_to_def multi_send_line_def reaches_def Let_def)
  have r: "t' = t\<lparr>ty_echo := multi_echo_pending_append (ty_echo t) b\<rparr>" "s' = u"
    "c' = c\<lparr>sessions := (sessions c)[k := ?x\<lparr>ms_tx := ms_tx ?x + of_nat (length b)\<rparr>]\<rparr>"
    using assms(2) by (simp_all add: type_out_def snd)
  show "reaches k f c' s'" using assms(1) w(3) by (cases "k < length (sessions c)") (simp_all add: reaches_def r list_update_beyond)
  show "sent s' f = sent s f @ b" "attached c' = attached c" "ty_line t' = ty_line t" "ty_held t' = ty_held t"
    using w(2) by (simp_all add: r write_effect_def)
qed

lemma attached_bytes_append:
  "attached_bytes k (xs @ ys) t c s = (let (t1, c1, s1) = attached_bytes k xs t c s in attached_bytes k ys t1 c1 s1)"
  by (induction xs arbitrary: t c s) (simp_all add: case_prod_unfold Let_def)

lemma detached_stays:
  assumes "attached c = 0" and "attached_bytes k b t c s = (t', c', s')"
  shows "attached c' = 0"
proof -
  have o: "attached (fst (snd (type_out k b t c s))) = attached c" for b t c s
    by (simp add: type_out_def case_prod_unfold Let_def)
  have "attached c = 0 \<Longrightarrow> attached (fst (snd (attached_byte k ch t c s))) = 0" for ch t c s
    by (auto simp: attached_byte_def detach_def attached_erase_def attached_enter_def attached_char_def o case_prod_unfold Let_def)
  then show ?thesis using assms
  proof (induction b arbitrary: t c s)
    case (Cons ch b)
    obtain t1 c1 s1 where h: "attached_byte k ch t c s = (t1, c1, s1)" using prod_cases3 by blast
    with Cons.prems(1) [OF Cons.prems(2), of ch t s] Cons.IH [OF Cons.prems(1), of c1 t1 s1] Cons.prems(3) show ?case by simp
  qed simp
qed

text \<open>One typed character, as long as the session stays attached.\<close>

lemma type_char:
  assumes "reaches k f c s" and "ty_ok t" and "printable ch" and "attached c \<noteq> 0"
    and "attached_char k ch t c s = (t', c', s')"
  shows "reaches k f c' s' \<and> ty_ok t' \<and> attached c' = attached c \<and> sent s' f @ pending_text t' = sent s f @ pending_text t @ [ch]"
proof -
  let ?t0 = "t\<lparr>ty_line := ty_line t @ [ch]\<rparr>"
  let ?m = "fst (multi_attached_detach_match (ty_line t @ [ch]))"
  obtain t1 c1 s1 where 1: "(if length (ty_line t) + 1 < WCAT_MULTI_INPUT \<and> (ch = CHR 0x09 \<or> is_text ch)
             then let t0 = t\<lparr>ty_line := ty_line t @ [ch]\<rparr>
                  in if ty_held t \<and> \<not> fst (multi_attached_detach_match (ty_line t0))
                     then (let (t2, c2, s2) = type_out k (ty_line t0) t0 c s in (t2\<lparr>ty_held := False\<rparr>, c2, s2))
                     else if \<not> ty_held t then type_out k [ch] t0 c s
                     else (t0, c, s)
             else if attached c \<noteq> 0 then type_out k [ch] t c s
             else (t, c, s)) = (t1, c1, s1)" using prod_cases3 by blast
  have short: "ty_held t \<Longrightarrow> length (ty_line t) + 1 < WCAT_MULTI_INPUT"
    using assms(2) detach_word_length [of "ty_line t"] by (simp add: ty_ok_def WCAT_MULTI_INPUT_def)
  have p: "(ch = CHR 0x09 \<or> is_text ch) = True" using assms(3) by (simp add: printable_def)
  have main: "reaches k f c1 s1 \<and> ty_ok t1 \<and> attached c1 = attached c
      \<and> sent s1 f @ pending_text t1 = sent s f @ pending_text t @ [ch]"
  proof (cases "ty_held t")
    case True
    show ?thesis
    proof (cases ?m)
      case False
      obtain t2 c2 s2 where o: "type_out k (ty_line t @ [ch]) ?t0 c s = (t2, c2, s2)" using prod_cases3 by blast
      have "t1 = t2\<lparr>ty_held := False\<rparr>" "c1 = c2" "s1 = s2" using 1 True False short p o by (simp_all add: Let_def)
      with reaches_type_out [OF assms(1) o] True show ?thesis by (simp add: ty_ok_def pending_text_def)
    next
      case m: True
      have "t1 = ?t0" "c1 = c" "s1 = s" using 1 True m short p by (simp_all add: Let_def)
      with True m assms(1) show ?thesis by (simp add: ty_ok_def pending_text_def)
    qed
  next
    case False
    obtain tt where o: "type_out k [ch] tt c s = (t1, c1, s1)" "ty_held tt = ty_held t"
      using 1 False p assms(4) by (auto simp: Let_def split: if_splits)
    with reaches_type_out [OF assms(1) o(1)] False show ?thesis by (simp add: ty_ok_def pending_text_def)
  qed
  have "t' = t1" "c' = c1" "s' = (if is_text ch then stderr_write [ch] s1 else s1)"
    using assms(5) 1 by (simp_all add: attached_char_def)
  with main reaches_stderr [of k f c1 s1 "[ch]"] show ?thesis by simp
qed

text \<open>The end of a line: the rest of it is sent, and the next line is held back from its first byte on.\<close>

definition at_line_start :: "typing \<Rightarrow> bool" where
  "at_line_start t \<longleftrightarrow> ty_line t = [] \<and> ty_held t"

lemma line_start_ok: "at_line_start t \<Longrightarrow> ty_ok t \<and> pending_text t = []"
  by (auto simp: at_line_start_def ty_ok_def pending_text_def detach_match(1) detach_words_def)

lemma type_enter:
  assumes "reaches k f c s" and "ty_ok t" and "attached_enter k t c s = (t', c', s')" and "attached c \<noteq> 0"
  shows "if ty_held t \<and> ty_line t \<in> set detach_words then attached c' = 0 \<and> sent s' f = sent s f
    else reaches k f c' s' \<and> at_line_start t' \<and> attached c' = attached c \<and> sent s' f = sent s f @ pending_text t @ nl"
proof (cases "ty_held t \<and> ty_line t \<in> set detach_words")
  case True
  then have "attached_enter k t c s = detach t c s" by (simp add: attached_enter_def detach_match(2))
  with True assms(3) show ?thesis by (auto simp: detach_def reaches_print)
next
  case False
  then have n: "\<not> (ty_held t \<and> multi_attached_detach_match (ty_line t) = (True, True))" by (simp add: detach_match(2))
  obtain t1 c1 s1 where 1: "(if ty_held t \<and> ty_line t \<noteq> [] then type_out k (ty_line t) t c s else (t, c, s)) = (t1, c1, s1)"
    using prod_cases3 by blast
  have a: "reaches k f c1 s1" "attached c1 = attached c" "sent s1 f = sent s f @ pending_text t"
  proof -
    have "reaches k f c1 s1 \<and> attached c1 = attached c \<and> sent s1 f = sent s f @ pending_text t"
    proof (cases "ty_held t \<and> ty_line t \<noteq> []")
      case True
      with 1 have "type_out k (ty_line t) t c s = (t1, c1, s1)" by simp
      from reaches_type_out [OF assms(1) this] True show ?thesis by (simp add: pending_text_def)
    next
      case False
      with 1 have "c1 = c" "s1 = s" by simp_all
      with False assms(1) show ?thesis by (auto simp: pending_text_def)
    qed
    then show "reaches k f c1 s1" "attached c1 = attached c" "sent s1 f = sent s f @ pending_text t" by simp_all
  qed
  obtain t2 c2 s2 where 2: "type_out k nl (t1\<lparr>ty_line := [], ty_held := True\<rparr>) c1 s1 = (t2, c2, s2)" using prod_cases3 by blast
  have "t' = t2" "c' = c2" "s' = eprint nl s2"
    using assms(3) n 1 2 by (simp_all add: attached_enter_def)
  with reaches_type_out [OF a(1) 2] a False show ?thesis by (auto simp: reaches_print at_line_start_def)
qed

text \<open>A byte that is neither text nor an editing key is sent at once, ahead of what is held back.\<close>

definition sent_char :: "char \<Rightarrow> bool" where
  "sent_char ch \<longleftrightarrow> ch \<noteq> CHR 0x1D \<and> ch \<noteq> CHR 0x08 \<and> ch \<noteq> CHR 0x7F"

lemma typed_sent_char: "typed_char ch \<Longrightarrow> sent_char ch"
  by (auto simp: typed_char_def sent_char_def printable_def is_text_def)

lemma type_control:
  assumes "reaches k f c s" and "attached c \<noteq> 0" and "\<not> printable ch"
    and "attached_char k ch t c s = (t', c', s')"
  shows "reaches k f c' s' \<and> attached c' = attached c \<and> ty_line t' = ty_line t \<and> ty_held t' = ty_held t
    \<and> sent s' f = sent s f @ [ch]"
proof -
  have p: "ch \<noteq> CHR 0x09" "\<not> is_text ch" using assms(3) by (auto simp: printable_def)
  with assms(2,4) have "type_out k [ch] t c s = (t', c', s')" by (simp add: attached_char_def case_prod_unfold)
  from reaches_type_out [OF assms(1) this] show ?thesis by simp
qed

text \<open>One byte: what has been sent and what is held back grow by exactly it.\<close>

lemma type_byte:
  assumes "reaches k f c s" and "ty_ok t" and "attached c \<noteq> 0" and "sent_char ch"
    and "attached_byte k ch t c s = (t', c', s')" and "attached c' \<noteq> 0"
  shows "reaches k f c' s' \<and> ty_ok t' \<and> attached c' = attached c
    \<and> mset (sent s' f @ pending_text t') = mset (sent s f @ pending_text t @ [as_sent ch])
    \<and> (typed_char ch \<longrightarrow> sent s' f @ pending_text t' = sent s f @ pending_text t @ [as_sent ch])"
proof (cases "ch = CHR 0x0D \<or> ch = CHR 0x0A")
  case True
  then have e: "attached_enter k t c s = (t', c', s')" using assms(5) by (auto simp: attached_byte_def)
  have "[as_sent ch] = nl" using True by (auto simp: as_sent_def nl_def)
  with type_enter [OF assms(1,2) e assms(3)] assms(6) line_start_ok [of t'] show ?thesis by (auto split: if_splits)
next
  case False
  with assms(4,5) have h: "attached_char k ch t c s = (t', c', s')" by (simp add: attached_byte_def sent_char_def)
  have a: "as_sent ch = ch" using False by (simp add: as_sent_def)
  show ?thesis
  proof (cases "printable ch")
    case True
    from type_char [OF assms(1,2) True assms(3) h] a show ?thesis by simp
  next
    case n: False
    have "\<not> typed_char ch" using False n by (simp add: typed_char_def)
    with type_control [OF assms(1,3) n h] assms(2) a show ?thesis by (simp add: ty_ok_def pending_text_def)
  qed
qed

lemma typed_is_sent:
  assumes "reaches k f c s" and "ty_ok t" and "attached c \<noteq> 0" and "list_all sent_char b"
    and "attached_bytes k b t c s = (t', c', s')" and "attached c' \<noteq> 0"
  shows "reaches k f c' s' \<and> ty_ok t' \<and> attached c' = attached c
    \<and> mset (sent s' f @ pending_text t') = mset (sent s f @ pending_text t @ map as_sent b)
    \<and> (list_all typed_char b \<longrightarrow> sent s' f @ pending_text t' = sent s f @ pending_text t @ map as_sent b)"
  using assms
proof (induction b arbitrary: t c s)
  case (Cons ch b)
  obtain t1 c1 s1 where h: "attached_byte k ch t c s = (t1, c1, s1)" using prod_cases3 by blast
  then have r: "attached_bytes k b t1 c1 s1 = (t', c', s')" using Cons.prems(5) by simp
  have a1: "attached c1 \<noteq> 0" using detached_stays [OF _ r] Cons.prems(6) by blast
  have "sent_char ch" "list_all sent_char b" using Cons.prems(4) by simp_all
  note step = type_byte [OF Cons.prems(1-3) this(1) h a1]
  with Cons.IH [OF _ _ a1 \<open>list_all sent_char b\<close> r Cons.prems(6)] show ?case by simp
qed simp

text \<open>A line of text detaches exactly when it is one of the words; then nothing of it is sent.\<close>

lemma hold_word:
  assumes "reaches k f c s" and "attached c \<noteq> 0" and "at_line_start t0" and "list_all printable w"
    and "attached_bytes k w t0 c s = (t, c', s')"
  shows "reaches k f c' s' \<and> ty_ok t \<and> attached c' = attached c \<and> sent s' f @ pending_text t = sent s f @ w
    \<and> (ty_held t \<longleftrightarrow> fst (multi_attached_detach_match w)) \<and> (ty_held t \<longrightarrow> ty_line t = w)"
  using assms(4,5)
proof (induction w arbitrary: t c' s' rule: rev_induct)
  case Nil
  then have "t = t0" "c' = c" "s' = s" by simp_all
  moreover have "fst (multi_attached_detach_match [])" by (auto simp: detach_match(1) detach_words_def)
  ultimately show ?case using assms(1,3) by (simp add: at_line_start_def ty_ok_def pending_text_def)
next
  case (snoc ch w)
  obtain t1 c1 s1 where h: "attached_bytes k w t0 c s = (t1, c1, s1)" using prod_cases3 by blast
  have p: "printable ch" "list_all printable w" using snoc.prems(1) by simp_all
  note i = snoc.IH [OF p(2) h]
  have "ch \<noteq> CHR 0x1D" "ch \<noteq> CHR 0x08" "ch \<noteq> CHR 0x7F" "ch \<noteq> CHR 0x0D" "ch \<noteq> CHR 0x0A"
    using p(1) by (auto simp: printable_def is_text_def)
  then have b: "attached_char k ch t1 c1 s1 = (t, c', s')"
    using snoc.prems(2) by (simp add: attached_bytes_append h attached_byte_def case_prod_unfold)
  have tc: "reaches k f c' s' \<and> ty_ok t \<and> attached c' = attached c1 \<and> sent s' f @ pending_text t = sent s1 f @ pending_text t1 @ [ch]"
    using type_char [of k f c1 s1 t1 ch t c' s'] p(1) b i assms(2) by simp
  have "(ty_held t \<longleftrightarrow> fst (multi_attached_detach_match (w @ [ch]))) \<and> (ty_held t \<longrightarrow> ty_line t = w @ [ch])"
  proof (cases "ty_held t1")
    case True
    then have "length (ty_line t1) + 1 < WCAT_MULTI_INPUT" "ty_line t1 = w"
      using i detach_word_length [of w] by (simp_all add: WCAT_MULTI_INPUT_def)
    moreover have "ch = CHR 0x09 \<or> is_text ch" using p(1) by (simp add: printable_def)
    ultimately show ?thesis using b True
      by (auto simp: attached_char_def Let_def split: prod.splits if_splits)
  next
    case False
    then have "\<not> fst (multi_attached_detach_match (w @ [ch]))" using i detach_match_shorter by blast
    moreover have "\<not> ty_held t"
    proof -
      have "ty_held (fst (type_out k x y c s)) = ty_held y" for x y c s by (simp add: type_out_def case_prod_unfold Let_def)
      moreover have "t = fst (attached_char k ch t1 c1 s1)" using b by simp
      ultimately show ?thesis using False by (simp add: attached_char_def Let_def case_prod_unfold)
    qed
    ultimately show ?thesis by simp
  qed
  with tc i show ?case by simp
qed

lemma typed_line:
  assumes "reaches k f c s" and "attached c \<noteq> 0" and "at_line_start t0" and "list_all printable w"
    and "eol = CHR 0x0D \<or> eol = CHR 0x0A" and "attached_bytes k (w @ [eol]) t0 c s = (t, c', s')"
  shows "if w \<in> set detach_words then attached c' = 0 \<and> sent s' f = sent s f
    else reaches k f c' s' \<and> at_line_start t \<and> attached c' = attached c \<and> sent s' f = sent s f @ w @ nl"
proof -
  obtain t1 c1 s1 where h: "attached_bytes k w t0 c s = (t1, c1, s1)" using prod_cases3 by blast
  note i = hold_word [OF assms(1-4) h]
  have "eol \<noteq> CHR 0x1D" "eol \<noteq> CHR 0x08" "eol \<noteq> CHR 0x7F" using assms(5) by auto
  with assms(5,6) have e: "attached_enter k t1 c1 s1 = (t, c', s')"
    by (auto simp: attached_bytes_append h attached_byte_def case_prod_unfold)
  have w: "ty_held t1 \<and> ty_line t1 \<in> set detach_words \<longleftrightarrow> w \<in> set detach_words"
    using i detach_match(1) [of w] by blast
  have "attached c1 \<noteq> 0" using i assms(2) by simp
  note te = type_enter [OF _ _ e this, of f, unfolded w]
  show ?thesis
  proof (cases "w \<in> set detach_words")
    case True
    then have "sent s1 f = sent s f" using i w by (auto simp: pending_text_def)
    with te i True show ?thesis by simp
  next
    case False
    with te i show ?thesis by simp
  qed
qed

text \<open>And so for every line, whatever ordinary lines have been typed before it.\<close>

definition typed_lines :: "char \<Rightarrow> string list \<Rightarrow> bytes" where
  "typed_lines eol ws = concat (map (\<lambda>w. w @ [eol]) ws)"

lemma ordinary_lines:
  assumes "reaches k f c s" and "attached c \<noteq> 0" and "at_line_start t0" and "eol = CHR 0x0D \<or> eol = CHR 0x0A"
    and "\<forall>w \<in> set ws. list_all printable w \<and> w \<notin> set detach_words"
    and "attached_bytes k (typed_lines eol ws) t0 c s = (t, c', s')"
  shows "reaches k f c' s' \<and> at_line_start t \<and> attached c' = attached c
    \<and> sent s' f = sent s f @ concat (map (\<lambda>w. w @ nl) ws)"
  using assms
proof (induction ws arbitrary: t0 c s)
  case Nil
  then show ?case by (simp add: typed_lines_def)
next
  case (Cons w ws)
  have e: "typed_lines eol (w # ws) = (w @ [eol]) @ typed_lines eol ws" by (simp add: typed_lines_def)
  obtain t1 c1 s1 where h: "attached_bytes k (w @ [eol]) t0 c s = (t1, c1, s1)" using prod_cases3 by blast
  have r: "attached_bytes k (typed_lines eol ws) t1 c1 s1 = (t, c', s')"
    using Cons.prems(6) unfolding e by (simp only: attached_bytes_append [of _ "w @ [eol]"] h Let_def prod.case)
  have w: "list_all printable w" "w \<notin> set detach_words" using Cons.prems(5) by simp_all
  note l = typed_line [OF Cons.prems(1-3) w(1) Cons.prems(4) h, unfolded if_not_P [OF w(2)]]
  then have "attached c1 \<noteq> 0" using Cons.prems(2) by simp
  from Cons.IH [OF _ this _ Cons.prems(4) _ r] l Cons.prems(5) show ?case by simp
qed

lemma detaching_line:
  assumes "reaches k f c s" and "attached c \<noteq> 0" and "at_line_start t0" and "eol = CHR 0x0D \<or> eol = CHR 0x0A"
    and "\<forall>v \<in> set ws. list_all printable v \<and> v \<notin> set detach_words" and "list_all printable w"
    and "attached_bytes k (typed_lines eol (ws @ [w])) t0 c s = (t, c', s')"
  shows "(attached c' = 0 \<longleftrightarrow> w \<in> set detach_words)
    \<and> sent s' f = sent s f @ concat (map (\<lambda>v. v @ nl) ws) @ (if w \<in> set detach_words then [] else w @ nl)"
proof -
  have e: "typed_lines eol (ws @ [w]) = typed_lines eol ws @ w @ [eol]" by (simp add: typed_lines_def)
  obtain t1 c1 s1 where h: "attached_bytes k (typed_lines eol ws) t0 c s = (t1, c1, s1)" using prod_cases3 by blast
  have r: "attached_bytes k (w @ [eol]) t1 c1 s1 = (t, c', s')"
    using assms(7) unfolding e by (simp only: attached_bytes_append [of _ "typed_lines eol ws"] h Let_def prod.case)
  note o = ordinary_lines [OF assms(1-5) h]
  then have "attached c1 \<noteq> 0" using assms(2) by simp
  from typed_line [OF _ this _ assms(6,4) r, of f] o assms(2) show ?thesis by (auto split: if_splits)
qed

end
