(* ===== verification/Wcat_Routing.thy ===== *)
theory Wcat_Routing
  imports Wcat_Table
begin

text \<open>
  Which sessions of \<open>listen --multi\<close> a line of input goes to, what becomes of each session, and that
  no other session notices: the specification \<open>addressed\<close> and \<open>victim\<close> and the proof that the commands
  implement it, whatever the descriptors of the sessions take.
\<close>

section \<open>Specification\<close>

text \<open>The slots a line is for and the bytes they get.\<close>

definition addressed :: "nat \<Rightarrow> bytes \<Rightarrow> console \<Rightarrow> nat list \<times> bytes" where
  "addressed m line c =
     (if line \<noteq> [] \<and> hd line = CHR '':''
      then let cmd = c_string (take (multi_line_trim_len line) line); all = filter (live (sessions c)) [0..<m]
           in if prefix '':send '' cmd
              then (case named_session m (drop 6 cmd) c of
                      None \<Rightarrow> ([], [])
                    | Some (k, i, text) \<Rightarrow> if text = [] then ([], []) else ([k], text @ nl))
              else if prefix '':a '' cmd then (all, drop 3 line)
              else if prefix '':all '' cmd then (all, drop 5 line)
              else ([], [])
      else case (if active c = 0 then None else multi_find_by_id (sessions c) m (active c)) of
             None \<Rightarrow> ([], [])
           | Some k \<Rightarrow> ([k], line))"

text \<open>The slot a line closes on purpose.\<close>

definition victim :: "nat \<Rightarrow> bytes \<Rightarrow> console \<Rightarrow> nat option" where
  "victim m line c =
     (let cmd = c_string (take (multi_line_trim_len line) line)
      in if \<not> (line \<noteq> [] \<and> hd line = CHR '':'') then None
         else if prefix '':k '' cmd then map_option fst (named_session m (drop 3 cmd) c)
         else if prefix '':kill '' cmd then map_option fst (named_session m (drop 6 cmd) c)
         else None)"

text \<open>Every live session has a descriptor of its own: the part of \<open>table_ok\<close> that matters here.\<close>

definition own_fds :: "nat \<Rightarrow> multi_session list \<Rightarrow> bool" where
  "own_fds m ss \<longleftrightarrow> m \<le> length ss \<and> inj_on (\<lambda>k. ms_fd (ss ! k)) {k. k < m \<and> live ss k}"

text \<open>
  What becomes of a session with the descriptor \<open>f\<close> whose slot has the descriptor \<open>f'\<close> afterwards: it
  is kept and has been sent \<open>b\<close>, or it is lost: its slot is free, its descriptor closed. A session that
  is served \<open>b\<close> is lost only when its descriptor does not take every byte, and has then been sent less.
\<close>

definition remains :: "bytes \<Rightarrow> fd \<Rightarrow> fd \<Rightarrow> sys \<Rightarrow> sys \<Rightarrow> bool" where
  "remains b f f' s s' \<longleftrightarrow>
     f' = f \<and> sent s' f = sent s f @ b \<and> (f \<in> set (open_fds s') \<longleftrightarrow> f \<in> set (open_fds s))"

definition lost :: "bytes \<Rightarrow> fd \<Rightarrow> fd \<Rightarrow> sys \<Rightarrow> sys \<Rightarrow> bool" where
  "lost b f f' s s' \<longleftrightarrow> f' = - 1 \<and> sent s' f = sent s f @ b \<and> f \<notin> set (open_fds s')"

definition served :: "bytes \<Rightarrow> fd \<Rightarrow> fd \<Rightarrow> sys \<Rightarrow> sys \<Rightarrow> bool" where
  "served b f f' s s' \<longleftrightarrow>
     remains b f f' s s' \<or> \<not> writable (wr_q s f) \<and> (\<exists>d. strict_prefix d b \<and> lost d f f' s s')"

section \<open>One session at a time\<close>

text \<open>What is seen of a descriptor here, and that a step for one slot is seen at that slot only.\<close>

definition fd_view :: "sys \<Rightarrow> fd \<Rightarrow> bytes \<times> wr_ans list \<times> bool" where
  "fd_view s f = (sent s f, wr_q s f, f \<in> set (open_fds s))"

definition only_slot :: "nat \<Rightarrow> multi_session list \<Rightarrow> multi_session list \<Rightarrow> sys \<Rightarrow> sys \<Rightarrow> bool" where
  "only_slot k ss ss' s s' \<longleftrightarrow>
     length ss' = length ss \<and> (\<forall>j. j \<noteq> k \<longrightarrow> ss' ! j = ss ! j) \<and> (\<forall>f. f \<noteq> ms_fd (ss ! k) \<longrightarrow> fd_view s' f = fd_view s f)"

lemma view_cong:
  assumes "fd_view s1 f = fd_view s f" and "fd_view s2 f = fd_view s' f"
  shows "remains b f f' s1 s2 = remains b f f' s s'" and "lost b f f' s1 s2 = lost b f f' s s'"
    and "served b f f' s1 s2 = served b f f' s s'"
  using assms by (simp_all add: remains_def lost_def served_def fd_view_def)

lemma remains_view: "fd_view s' f = fd_view s f \<Longrightarrow> remains [] f f s s'"
  by (simp add: remains_def fd_view_def)

lemma view_report [simp]:
  "fd_view (eprint t s) = fd_view s" "fd_view (multi_print_prompt i s) = fd_view s" "fd_view (multi_print_help s) = fd_view s"
  "fd_view (report_error t s) = fd_view s" "fd_view (report_session w h i s) = fd_view s"
  "fd_view (report_active i s) = fd_view s" "fd_view (snd (prompt r)) = fd_view (snd r)"
  "fd_view (multi_print_info ss m a i s) = fd_view s" "fd_view (wcat_log lv ev t s) = fd_view s"
  "fd_view (s\<lparr>wcat_stop := b\<rparr>) = fd_view s"
  by (simp_all add: fun_eq_iff fd_view_def eprint_def multi_print_prompt_def multi_print_help_def report_error_def
      report_session_def report_active_def prompt_def multi_print_info_def wcat_log_def Let_def split: option.splits)

lemma view_print_sessions [simp]: "fd_view (multi_print_sessions ss m i s) = fd_view s"
proof -
  have "fd_view (fold (\<lambda>k. eprint (f k)) ks u) = fd_view u" for f and ks :: "nat list" and u
    by (induction ks arbitrary: u) simp_all
  then show ?thesis by (simp add: multi_print_sessions_def Let_def)
qed

lemma view_close: "fd_view (close_quiet f s) g = (if g = f \<and> 0 \<le> f then (sent s f, wr_q s f, False) else fd_view s g)"
  by (auto simp: fd_view_def wcat_close_quiet_def close_loop_frame close_loop_open)

lemma only_slot_refl: "only_slot k ss ss s s"
  by (simp add: only_slot_def)

lemma close_slot:
  assumes "multi_session_close ss k s = (ss', s')" and "k < length ss" and "live ss k"
  shows "only_slot k ss ss' s s'" and "lost [] (ms_fd (ss ! k)) (ms_fd (ss' ! k)) s s'"
proof -
  have f: "0 \<le> ms_fd (ss ! k)" using assms(3) by (simp add: live_def)
  have s': "s' = close_quiet (ms_fd (ss ! k)) s" "ms_fd (ss' ! k) = - 1" "length ss' = length ss" "\<And>j. j \<noteq> k \<Longrightarrow> ss' ! j = ss ! j"
    using assms(1,2) by (auto simp: multi_session_close_def case_prod_unfold Let_def)
  show "only_slot k ss ss' s s'" using s' by (simp add: only_slot_def view_close)
  have "fd_view s' (ms_fd (ss ! k)) = (sent s (ms_fd (ss ! k)), wr_q s (ms_fd (ss ! k)), False)"
    using s'(1) f by (simp add: view_close)
  with s'(2) show "lost [] (ms_fd (ss ! k)) (ms_fd (ss' ! k)) s s'" by (simp add: lost_def fd_view_def)
qed

text \<open>One write: all of it, or the descriptor is not writable and less has been sent.\<close>

lemma send_slot:
  assumes "send_to k b ss s = (rc, ss', s')" and "k < length ss" and "live ss k"
  shows "only_slot k ss ss' s s'" and "ms_fd (ss' ! k) = ms_fd (ss ! k)"
    and "if rc < 0 then \<not> writable (wr_q s (ms_fd (ss ! k)))
           \<and> (\<exists>d. strict_prefix d b \<and> remains d (ms_fd (ss ! k)) (ms_fd (ss' ! k)) s s')
         else remains b (ms_fd (ss ! k)) (ms_fd (ss' ! k)) s s'
           \<and> (writable (wr_q s (ms_fd (ss ! k))) \<longrightarrow> writable (wr_q s' (ms_fd (ss ! k))))"
proof -
  let ?f = "ms_fd (ss ! k)"
  obtain n u where w: "wcat_full_write ?f b s = (n, u)" by force
  from wcat_full_write_effect [OF w] obtain i where
    i: "i \<le> length b" "write_effect ?f (take i b) s u" "n = int i \<or> n = - 1 \<and> i < length b" by blast
  have r: "s' = u" "rc = (if n \<noteq> int (length b) then - 1 else 0)" "length ss' = length ss" "\<And>j. j \<noteq> k \<Longrightarrow> ss' ! j = ss ! j"
    and fd: "ms_fd (ss' ! k) = ?f"
    using assms w by (auto simp: send_to_def multi_send_line_def live_def Let_def split: if_splits)
  show "ms_fd (ss' ! k) = ?f" by (fact fd)
  show "only_slot k ss ss' s s'" using r i(2) by (simp add: only_slot_def fd_view_def write_effect_def)
  have k: "remains (take i b) ?f ?f s s'" using r(1) i(2) by (simp add: remains_def write_effect_def)
  show "if rc < 0 then \<not> writable (wr_q s ?f) \<and> (\<exists>d. strict_prefix d b \<and> remains d ?f (ms_fd (ss' ! k)) s s')
        else remains b ?f (ms_fd (ss' ! k)) s s' \<and> (writable (wr_q s ?f) \<longrightarrow> writable (wr_q s' ?f))"
  proof (cases "n = int (length b)")
    case True
    with i(1,3) have "take i b = b" by auto
    with k fd r True full_write_writable [of s ?f b] w show ?thesis by auto
  next
    case False
    then have "i < length b" using i(1,3) by auto
    then have "strict_prefix (take i b) b" by (simp add: strict_prefix_def take_is_prefix)
    moreover have "\<not> writable (wr_q s ?f)" using full_write_writable [of s ?f b] w False by auto
    ultimately show ?thesis using k fd r False by auto
  qed
qed

lemma only_slot_trans:
  assumes "only_slot k ss ss1 s s1" and "only_slot k ss1 ss2 s1 s2" and "ms_fd (ss1 ! k) = ms_fd (ss ! k)"
  shows "only_slot k ss ss2 s s2"
  using assms by (simp add: only_slot_def)

lemma only_slot_view: "only_slot k ss ss1 s s1 \<Longrightarrow> fd_view s2 = fd_view s1 \<Longrightarrow> only_slot k ss ss1 s s2"
  by (simp add: only_slot_def)

text \<open>A descriptor that failed is closed.\<close>

lemma drop_slot:
  assumes "only_slot k ss ss1 s s1" and "ms_fd (ss1 ! k) = ms_fd (ss ! k)" and "remains d (ms_fd (ss ! k)) (ms_fd (ss1 ! k)) s s1"
    and "fd_view s2 = fd_view s1" and "multi_session_close ss1 k s2 = (ss', s')" and "k < length ss" and "live ss k"
  shows "only_slot k ss ss' s s'" and "lost d (ms_fd (ss ! k)) (ms_fd (ss' ! k)) s s'"
proof -
  have l: "k < length ss1" "live ss1 k" using assms by (simp_all add: only_slot_def live_def)
  note c = close_slot [OF assms(5) l]
  have "only_slot k ss1 ss' s1 s'" using c(1) assms(4) by (simp add: only_slot_def)
  then show "only_slot k ss ss' s s'" by (rule only_slot_trans [OF assms(1) _ assms(2)])
  have "sent s2 (ms_fd (ss ! k)) = sent s1 (ms_fd (ss ! k))" using fun_cong [OF assms(4)] by (simp add: fd_view_def)
  with c(2) assms(2,3) show "lost d (ms_fd (ss ! k)) (ms_fd (ss' ! k)) s s'" by (simp add: lost_def remains_def)
qed

section \<open>Every session\<close>

lemma own_fds_step:
  assumes "own_fds m ss" and "only_slot k ss ss1 s s1" and "ms_fd (ss1 ! k) \<in> {ms_fd (ss ! k), - 1}"
  shows "own_fds m ss1"
proof -
  have e: "ms_fd (ss1 ! j) = ms_fd (ss ! j)" "live ss j" if "live ss1 j" for j
    using assms(2,3) that by (cases "j = k"; auto simp: only_slot_def live_def)+
  have sub: "{j. j < m \<and> live ss1 j} \<subseteq> {j. j < m \<and> live ss j}" using e(2) by blast
  have "inj_on (\<lambda>j. ms_fd (ss ! j)) {j. j < m \<and> live ss1 j}"
    using assms(1) sub inj_on_subset unfolding own_fds_def by blast
  then have "inj_on (\<lambda>j. ms_fd (ss1 ! j)) {j. j < m \<and> live ss1 j}"
    by (rule inj_on_cong [THEN iffD1, rotated]) (simp add: e(1))
  with assms(1,2) show ?thesis by (simp add: own_fds_def only_slot_def)
qed

lemma other_fd: "own_fds m ss \<Longrightarrow> j < m \<Longrightarrow> live ss j \<Longrightarrow> k < m \<Longrightarrow> live ss k \<Longrightarrow> j \<noteq> k \<Longrightarrow> ms_fd (ss ! j) \<noteq> ms_fd (ss ! k)"
  unfolding own_fds_def inj_on_def by blast

lemma broadcast_slot:
  assumes "broadcast_to b k (ss, s) = (ss', s')" and "k < length ss" and "live ss k"
  shows "only_slot k ss ss' s s'" and "served b (ms_fd (ss ! k)) (ms_fd (ss' ! k)) s s'"
proof -
  obtain rc ss1 s1 where 1: "send_to k b ss s = (rc, ss1, s1)" using prod_cases3 by blast
  note o = send_slot [OF 1 assms(2,3)]
  have "only_slot k ss ss' s s' \<and> served b (ms_fd (ss ! k)) (ms_fd (ss' ! k)) s s'"
  proof (cases "rc < 0")
    case False
    with assms 1 have "ss' = ss1" "s' = s1" by (simp_all add: broadcast_to_def)
    with o False show ?thesis by (simp add: served_def)
  next
    case True
    define s2 where "s2 = wcat_log WCAT_LOG_WARN ''multi_drop'' (''dropping failed session '' @ u32_text (ms_id (ss1 ! k))) s1"
    have c: "multi_session_close ss1 k s2 = (ss', s')" using assms 1 True by (simp add: broadcast_to_def s2_def)
    from o(3) True obtain d where d: "strict_prefix d b" "remains d (ms_fd (ss ! k)) (ms_fd (ss1 ! k)) s s1"
      "\<not> writable (wr_q s (ms_fd (ss ! k)))" by auto
    have "fd_view s2 = fd_view s1" by (simp add: s2_def)
    from drop_slot [OF o(1,2) d(2) this c assms(2,3)] d(1,3) show ?thesis unfolding served_def by blast
  qed
  then show "only_slot k ss ss' s s'" and "served b (ms_fd (ss ! k)) (ms_fd (ss' ! k)) s s'" by blast+
qed

lemma served_fd: "served b f f' s s' \<Longrightarrow> f' \<in> {f, - 1}"
  by (auto simp: served_def remains_def lost_def)

lemma broadcast_slots:
  assumes "fold (broadcast_to b) ks (ss, s) = (ss', s')" and "own_fds m ss" and "distinct ks" and "set ks \<subseteq> {..<m}"
  shows "(\<forall>j. j \<notin> set ks \<longrightarrow> ss' ! j = ss ! j)
    \<and> (\<forall>f. (\<forall>k \<in> set ks. live ss k \<longrightarrow> f \<noteq> ms_fd (ss ! k)) \<longrightarrow> fd_view s' f = fd_view s f)
    \<and> (\<forall>k \<in> set ks. if live ss k then served b (ms_fd (ss ! k)) (ms_fd (ss' ! k)) s s' else ms_fd (ss' ! k) = ms_fd (ss ! k))"
  using assms
proof (induction ks arbitrary: ss s)
  case Nil
  then show ?case by simp
next
  case (Cons k ks)
  have k: "k < m" "distinct ks" "set ks \<subseteq> {..<m}" "k \<notin> set ks" using Cons.prems(3,4) by simp_all
  obtain ss1 s1 where 1: "broadcast_to b k (ss, s) = (ss1, s1)" by force
  with Cons.prems(1) have rec: "fold (broadcast_to b) ks (ss1, s1) = (ss', s')" by simp
  show ?case
  proof (cases "live ss k")
    case False
    with 1 have e: "ss1 = ss" "s1 = s" by (simp_all add: broadcast_to_def)
    from Cons.IH [OF rec [unfolded e] Cons.prems(2) k(2,3)] False k(4) show ?thesis by auto
  next
    case True
    have kl: "k < length ss" using k(1) Cons.prems(2) by (simp add: own_fds_def)
    note st = broadcast_slot [OF 1 kl True]
    have same: "ss1 ! j = ss ! j" "live ss1 j = live ss j" if "j \<noteq> k" for j
      using st(1) that by (simp_all add: only_slot_def live_def)
    have view: "fd_view s1 f = fd_view s f" if "f \<noteq> ms_fd (ss ! k)" for f using st(1) that by (simp add: only_slot_def)
    note ih = Cons.IH [OF rec own_fds_step [OF Cons.prems(2) st(1) served_fd [OF st(2)]] k(2,3)]
    have ne: "ms_fd (ss ! j) \<noteq> ms_fd (ss ! k)" if "j \<in> set ks" "live ss j" for j
      using other_fd [OF Cons.prems(2) _ that(2) k(1) True] that k(3,4) by auto
    have in_ks: "j \<noteq> k" if "j \<in> set ks" for j using that k(4) by blast
    have fk: "fd_view s' (ms_fd (ss ! k)) = fd_view s1 (ms_fd (ss ! k))"
      using ih ne same in_ks by metis
    have "ss' ! k = ss1 ! k" using ih k(4) by blast
    then have "served b (ms_fd (ss ! k)) (ms_fd (ss' ! k)) s s'"
      using st(2) view_cong(3) [OF refl fk] by metis
    moreover have "if live ss j then served b (ms_fd (ss ! j)) (ms_fd (ss' ! j)) s s' else ms_fd (ss' ! j) = ms_fd (ss ! j)"
      if j: "j \<in> set ks" for j
    proof (cases "live ss j")
      case True
      then have "served b (ms_fd (ss1 ! j)) (ms_fd (ss' ! j)) s1 s'" using ih j same [OF in_ks [OF j]] by auto
      then have "served b (ms_fd (ss ! j)) (ms_fd (ss' ! j)) s1 s'" using same [OF in_ks [OF j]] by simp
      with view_cong(3) [OF view [OF ne [OF j True]] refl] True show ?thesis by simp
    next
      case False
      with ih j same [OF in_ks [OF j]] show ?thesis by auto
    qed
    moreover have "fd_view s' f = fd_view s f" if f: "\<forall>i \<in> set (k # ks). live ss i \<longrightarrow> f \<noteq> ms_fd (ss ! i)" for f
    proof -
      have "\<forall>i \<in> set ks. live ss1 i \<longrightarrow> f \<noteq> ms_fd (ss1 ! i)" using f same in_ks by (metis list.set_intros(2))
      then have "fd_view s' f = fd_view s1 f" using ih by blast
      moreover have "f \<noteq> ms_fd (ss ! k)" using f True by simp
      ultimately show ?thesis using view by simp
    qed
    moreover have "ss' ! j = ss ! j" if "j \<notin> set (k # ks)" for j using ih that same by simp
    ultimately show ?thesis using True by auto
  qed
qed

section \<open>The commands\<close>

text \<open>
  What a command has done to every slot: those of \<open>kb\<close> have been served, the victim has been closed,
  the others have been left alone.
\<close>

definition routed :: "nat \<Rightarrow> nat list \<times> bytes \<Rightarrow> nat option \<Rightarrow> console \<Rightarrow> sys \<Rightarrow> console \<times> sys \<Rightarrow> bool" where
  "routed m kb v c s r \<longleftrightarrow>
     (\<forall>k < m. let f = ms_fd (sessions c ! k); f' = ms_fd (sessions (fst r) ! k)
        in if \<not> live (sessions c) k then f' = f
           else if k \<in> set (fst kb) then served (snd kb) f f' s (snd r)
           else if v = Some k then lost [] f f' s (snd r)
           else remains [] f f' s (snd r))"

lemma routed_served:
  "routed m (ks, b) v c s (c', s') \<Longrightarrow> k < m \<Longrightarrow> k \<in> set ks \<Longrightarrow> live (sessions c) k \<Longrightarrow>
     served b (ms_fd (sessions c ! k)) (ms_fd (sessions c' ! k)) s s'"
  by (auto simp: routed_def Let_def dest!: spec [of _ k])

lemma routed_cong:
  assumes "map ms_fd (sessions (fst r')) = map ms_fd (sessions (fst r))" and "fd_view (snd r') = fd_view (snd r)"
    and "m \<le> length (sessions (fst r))"
  shows "routed m kb v c s r' = routed m kb v c s r"
proof -
  have "ms_fd (sessions (fst r') ! k) = ms_fd (sessions (fst r) ! k)" if "k < m" for k
    using assms(1,3) that by (metis length_map nth_map order.strict_trans2)
  with view_cong [OF refl fun_cong [OF assms(2)]] show ?thesis unfolding routed_def Let_def by simp
qed

lemma prompt_console [simp]: "fst (prompt r) = fst r"
  by (simp add: prompt_def)

lemma routed_prompt [simp]: "routed m kb v c s (prompt r) = routed m kb v c s r"
  using view_cong [OF refl, of "snd (prompt r)" _ "snd r"] by (simp add: routed_def)

lemma routed_if: "(b \<Longrightarrow> routed m kb v c s x) \<Longrightarrow> (\<not> b \<Longrightarrow> routed m kb v c s y) \<Longrightarrow> routed m kb v c s (if b then x else y)"
  by simp

lemma routed_quiet:
  assumes "m \<le> length (sessions c)" and "fd_view (snd r) = fd_view s" and "map ms_fd (sessions (fst r)) = map ms_fd (sessions c)"
  shows "routed m ([], []) None c s r"
proof -
  have "ms_fd (sessions (fst r) ! k) = ms_fd (sessions c ! k)" if "k < m" for k
    using assms(1,3) that by (metis length_map nth_map order.strict_trans2)
  with remains_view fun_cong [OF assms(2)] show ?thesis by (simp add: routed_def)
qed

text \<open>A command that is about one slot.\<close>

lemma routed_slot:
  assumes "own_fds m (sessions c)" and "k < m" and "live (sessions c) k" and "only_slot k (sessions c) (sessions c') s s'"
  shows "served b (ms_fd (sessions c ! k)) (ms_fd (sessions c' ! k)) s s' \<Longrightarrow> routed m ([k], b) None c s (c', s')"
    and "lost [] (ms_fd (sessions c ! k)) (ms_fd (sessions c' ! k)) s s' \<Longrightarrow> routed m ([], []) (Some k) c s (c', s')"
proof -
  have "sessions c' ! j = sessions c ! j" if "j \<noteq> k" for j using assms(4) that by (simp add: only_slot_def)
  moreover have "remains [] (ms_fd (sessions c ! j)) (ms_fd (sessions c ! j)) s s'" if "j < m" "live (sessions c) j" "j \<noteq> k" for j
    using assms(4) other_fd [OF assms(1) that(1,2) assms(2,3) that(3)] by (intro remains_view) (simp add: only_slot_def)
  ultimately show "served b (ms_fd (sessions c ! k)) (ms_fd (sessions c' ! k)) s s' \<Longrightarrow> routed m ([k], b) None c s (c', s')"
    and "lost [] (ms_fd (sessions c ! k)) (ms_fd (sessions c' ! k)) s s' \<Longrightarrow> routed m ([], []) (Some k) c s (c', s')"
    using assms(3) by (auto simp: routed_def Let_def)
qed

named_theorems route

lemma route_quiet [route]:
  assumes "m \<le> length (sessions c)"
  shows "routed m ([], []) None c s (multi_set_active_session m i c s)" "routed m ([], []) None c s (cmd_use m arg c s)"
    "routed m ([], []) None c s (cmd_attach m a c s)" "routed m ([], []) None c s (cmd_info m a c s)"
    "sessions c' = sessions c \<Longrightarrow> fd_view s' = fd_view s \<Longrightarrow> routed m ([], []) None c s (c', s')"
  by (auto intro!: routed_quiet [OF assms] simp: multi_set_active_session_def cmd_use_def cmd_attach_def cmd_info_def Let_def
      split: option.splits prod.splits)

lemma route_rename [route]:
  assumes "m \<le> length (sessions c)"
  shows "routed m ([], []) None c s (cmd_rename m arg c s)"
proof -
  have "map ms_fd (ss[k := (ss ! k)\<lparr>ms_name := x\<rparr>]) = map ms_fd ss" for ss k x
    by (cases "k < length ss") (simp_all add: map_update list_update_beyond list_update_same_conv)
  then show ?thesis by (auto intro!: routed_quiet [OF assms] simp: cmd_rename_def split: option.splits)
qed

lemma found_live:
  assumes "multi_find_by_id ss m i = Some k"
  shows "k < m" and "live ss k"
  using assms by (auto simp: multi_find_by_id_def find_Some_iff)

lemma named_live:
  assumes "named_session m arg c = Some (k, i, msg)"
  shows "k < m" and "live (sessions c) k"
  using assms found_live by (auto simp: named_session_def split: option.splits)

lemma route_kill:
  assumes "own_fds m (sessions c)"
  shows "routed m ([], []) (map_option fst (named_session m arg c)) c s (cmd_kill m arg c s)"
proof (cases "named_session m arg c")
  case None
  with assms show ?thesis by (auto simp: cmd_kill_def own_fds_def intro!: routed_quiet)
next
  case (Some x)
  then obtain k i msg where x: "named_session m arg c = Some (k, i, msg)" by (cases x) auto
  note kl = named_live [OF x]
  have kn: "k < length (sessions c)" using kl(1) assms by (simp add: own_fds_def)
  obtain ss s1 where cl: "multi_session_close (sessions c) k s = (ss, s1)" by force
  define c1 where "c1 = c\<lparr>sessions := ss, active := (if active c = i then multi_first_session_id ss m else active c)\<rparr>"
  have cs: "close_session m k i c s = (c1, s1)" by (simp add: close_session_def cl c1_def)
  note k = close_slot [OF cl kn kl(2)]
  have s1: "sessions c1 = ss" by (simp add: c1_def)
  have r: "routed m ([], []) (Some k) c s (c1, s1)"
    using routed_slot(2) [OF assms kl, of c1 s s1] k s1 by simp
  have ln: "m \<le> length (sessions c1)" using assms k(1) s1 by (simp add: own_fds_def only_slot_def)
  obtain u where u: "cmd_kill m arg c s = prompt (c1, u)" "fd_view u = fd_view s1"
    using x by (simp add: cmd_kill_def cs Let_def split: if_splits)
  have "routed m ([], []) (Some k) c s (c1, u)"
    using r routed_cong [of "(c1, u)" "(c1, s1)" m] u(2) ln by simp
  with u(1) x show ?thesis by simp
qed

text \<open>A text and then a newline, the second only after the first.\<close>

lemma send_twice:
  assumes "send_to k msg ss s = (r1, ss1, s1)" and "(if r1 < 0 then (r1, ss1, s1) else send_to k nl ss1 s1) = (r2, ss2, s2)"
    and "k < length ss" and "live ss k"
  shows "only_slot k ss ss2 s s2 \<and> ms_fd (ss2 ! k) = ms_fd (ss ! k)
    \<and> (if r2 < 0 then \<not> writable (wr_q s (ms_fd (ss ! k)))
          \<and> (\<exists>d. strict_prefix d (msg @ nl) \<and> remains d (ms_fd (ss ! k)) (ms_fd (ss2 ! k)) s s2)
       else remains (msg @ nl) (ms_fd (ss ! k)) (ms_fd (ss2 ! k)) s s2)"
proof (cases "r1 < 0")
  case True
  note o1 = send_slot [OF assms(1,3,4)]
  from assms(2) True have e: "r2 = r1" "ss2 = ss1" "s2 = s1" by simp_all
  from o1(3) True obtain d where
    d: "strict_prefix d msg" "remains d (ms_fd (ss ! k)) (ms_fd (ss1 ! k)) s s1" "\<not> writable (wr_q s (ms_fd (ss ! k)))" by auto
  have "strict_prefix d (msg @ nl)" using d(1) by (auto simp: strict_prefix_def prefix_def)
  with d o1(1,2) e True show ?thesis by auto
next
  case False
  let ?f = "ms_fd (ss ! k)"
  note o1 = send_slot [OF assms(1,3,4)]
  have l: "k < length ss1" "live ss1 k" using o1(1,2) assms(3,4) by (simp_all add: only_slot_def live_def)
  from assms(2) False have 2: "send_to k nl ss1 s1 = (r2, ss2, s2)" by simp
  note o2 = send_slot [OF 2 l]
  have fd: "ms_fd (ss2 ! k) = ?f" using o1(2) o2(2) by simp
  have k1: "remains msg ?f ?f s s1" "writable (wr_q s ?f) \<longrightarrow> writable (wr_q s1 ?f)" using o1(2,3) False by simp_all
  have add: "remains (msg @ e) ?f ?f s s2" if "remains e ?f ?f s1 s2" for e using k1(1) that by (simp add: remains_def)
  have slot: "only_slot k ss ss2 s s2" by (rule only_slot_trans [OF o1(1) o2(1) o1(2)])
  show ?thesis
  proof (cases "r2 < 0")
    case True
    with o2(3) fd o1(2) obtain d where d: "strict_prefix d nl" "remains d ?f ?f s1 s2" "\<not> writable (wr_q s1 ?f)" by auto
    have "strict_prefix (msg @ d) (msg @ nl)" using d(1) by (auto simp: strict_prefix_def)
    with add [OF d(2)] d(3) k1(2) fd slot True show ?thesis by auto
  next
    case False
    have "remains nl ?f ?f s1 s2" using o2(3) fd o1(2) False by simp
    with add fd slot False show ?thesis by simp
  qed
qed

lemma route_send:
  assumes "own_fds m (sessions c)"
  shows "routed m (case named_session m arg c of None \<Rightarrow> ([], [])
      | Some (k, i, msg) \<Rightarrow> if msg = [] then ([], []) else ([k], msg @ nl)) None c s (cmd_send m arg c s)"
proof (cases "named_session m arg c")
  case None
  with assms show ?thesis by (simp add: cmd_send_def own_fds_def routed_quiet)
next
  case (Some x)
  then obtain k i msg where x: "named_session m arg c = Some (k, i, msg)" by (cases x) auto
  note kl = named_live [OF x]
  have kn: "k < length (sessions c)" using kl(1) assms by (simp add: own_fds_def)
  let ?f = "ms_fd (sessions c ! k)"
  show ?thesis
  proof (cases "msg = []")
    case True
    with x assms show ?thesis by (simp add: cmd_send_def own_fds_def routed_quiet)
  next
    case False
    obtain r1 ss1 s1 where 1: "send_to k msg (sessions c) s = (r1, ss1, s1)" using prod_cases3 by blast
    obtain r2 ss2 s2 where 2: "(if r1 < 0 then (r1, ss1, s1) else send_to k nl ss1 s1) = (r2, ss2, s2)"
      using prod_cases3 by blast
    note tw = send_twice [OF 1 2 kn kl(2)]
    have o2: "only_slot k (sessions c) ss2 s s2" "ms_fd (ss2 ! k) = ?f"
      "if r2 < 0 then \<not> writable (wr_q s ?f) \<and> (\<exists>d. strict_prefix d (msg @ nl) \<and> remains d ?f (ms_fd (ss2 ! k)) s s2)
       else remains (msg @ nl) ?f (ms_fd (ss2 ! k)) s s2" using tw by blast+
    show ?thesis
    proof (cases "r2 < 0")
      case False
      then have "cmd_send m arg c s = prompt (c\<lparr>sessions := ss2\<rparr>, s2)"
        using x \<open>msg \<noteq> []\<close> 1 2 by (simp add: cmd_send_def)
      moreover have "served (msg @ nl) ?f (ms_fd (ss2 ! k)) s s2" using o2(3) False by (simp add: served_def)
      ultimately show ?thesis
        using routed_slot(1) [OF assms kl, of "c\<lparr>sessions := ss2\<rparr>" s s2 "msg @ nl"] o2(1) x \<open>msg \<noteq> []\<close> by simp
    next
      case True
      obtain ss3 s3 where cl: "multi_session_close ss2 k (report_error ''send failed'' s2) = (ss3, s3)" by force
      define c3 where "c3 = c\<lparr>sessions := ss3, active := (if active c = i then multi_first_session_id ss3 m else active c)\<rparr>"
      have e: "cmd_send m arg c s = prompt (c3, s3)"
        using x \<open>msg \<noteq> []\<close> 1 2 True by (simp add: cmd_send_def close_session_def cl c3_def)
      from o2(3) True obtain d where d: "strict_prefix d (msg @ nl)" "remains d ?f (ms_fd (ss2 ! k)) s s2"
        "\<not> writable (wr_q s ?f)" by auto
      note dr = drop_slot [OF o2(1,2) d(2) _ cl kn kl(2), simplified]
      have "served (msg @ nl) ?f (ms_fd (ss3 ! k)) s s3" using dr(2) d(1,3) unfolding served_def by blast
      with routed_slot(1) [OF assms kl, of c3 s s3 "msg @ nl"] dr(1) e x \<open>msg \<noteq> []\<close> show ?thesis by (simp add: c3_def)
    qed
  qed
qed

lemma route_all:
  assumes "own_fds m (sessions c)"
  shows "routed m (filter (live (sessions c)) [0..<m], b) None c s (cmd_all m b c s)"
proof -
  obtain ss' s' where f: "fold (broadcast_to b) [0..<m] (sessions c, s) = (ss', s')" by force
  have "set [0..<m] \<subseteq> {..<m}" by auto
  note e = broadcast_slots [OF f assms distinct_upt this]
  have "routed m (filter (live (sessions c)) [0..<m], b) None c s (c\<lparr>sessions := ss'\<rparr>, s')"
    using e by (auto simp: routed_def Let_def)
  moreover have "cmd_all m b c s = prompt (c\<lparr>sessions := ss'\<rparr>, s')" using f by (simp add: cmd_all_def multi_broadcast_def)
  ultimately show ?thesis by simp
qed

lemma route_plain:
  assumes "own_fds m (sessions c)"
  shows "routed m (case (if active c = 0 then None else multi_find_by_id (sessions c) m (active c)) of
      None \<Rightarrow> ([], []) | Some k \<Rightarrow> ([k], line)) None c s (plain_line m line c s)"
proof (cases "if active c = 0 then None else multi_find_by_id (sessions c) m (active c)")
  case None
  with assms show ?thesis by (auto simp: plain_line_def own_fds_def intro!: routed_quiet split: if_splits)
next
  case (Some k)
  then have a: "active c \<noteq> 0" "multi_find_by_id (sessions c) m (active c) = Some k" by (simp_all split: if_splits)
  note kl = found_live [OF a(2)]
  have kn: "k < length (sessions c)" using kl(1) assms by (simp add: own_fds_def)
  let ?f = "ms_fd (sessions c ! k)"
  obtain rc ss1 s1 where 1: "send_to k line (sessions c) s = (rc, ss1, s1)" using prod_cases3 by blast
  note o = send_slot [OF 1 kn kl(2)]
  show ?thesis
  proof (cases "rc < 0")
    case False
    with o(3) have "served line ?f (ms_fd (ss1 ! k)) s s1" by (simp add: served_def)
    with routed_slot(1) [OF assms kl, of "c\<lparr>sessions := ss1\<rparr>" s s1 line] o(1) a 1 False show ?thesis
      by (simp add: plain_line_def)
  next
    case True
    obtain ss2 s2 where cl: "multi_session_close ss1 k (report_error ''active session unavailable'' s1) = (ss2, s2)" by force
    from o(3) True obtain d where d: "strict_prefix d line" "remains d ?f (ms_fd (ss1 ! k)) s s1" "\<not> writable (wr_q s ?f)" by auto
    note dr = drop_slot [OF o(1,2) d(2) _ cl kn kl(2), simplified]
    have "served line ?f (ms_fd (ss2 ! k)) s s2" using dr(2) d(1,3) unfolding served_def by blast
    with routed_slot(1) [OF assms kl, of "c\<lparr>sessions := ss2, active := multi_first_session_id ss2 m\<rparr>" s s2 line] dr(1) a 1 True cl
    show ?thesis by (simp add: plain_line_def)
  qed
qed

text \<open>A text that begins with a word is no other word and begins with no other.\<close>

lemma other_word:
  assumes "prefix p t"
  shows "\<not> prefix p q \<Longrightarrow> (t = q) = False" and "\<not> prefix p q \<Longrightarrow> \<not> prefix q p \<Longrightarrow> prefix q t = False"
  using assms prefix_same_cases by blast+

lemma line_routed:
  assumes "own_fds m (sessions c)"
  shows "routed m (addressed m line c) (victim m line c) c s (multi_handle_input_line m line c s)"
proof (cases "line \<noteq> [] \<and> hd line = CHR '':''")
  case False
  have "multi_handle_input_line m line c s = plain_line m line c s" using False by (simp only: multi_handle_input_line_def if_False)
  moreover have "addressed m line c = (case (if active c = 0 then None else multi_find_by_id (sessions c) m (active c)) of
      None \<Rightarrow> ([], []) | Some k \<Rightarrow> ([k], line))" using False by (simp only: addressed_def if_False)
  moreover have "victim m line c = None" using False by (simp only: victim_def Let_def not_False_eq_True if_True)
  ultimately show ?thesis using route_plain [OF assms, of line s] by simp
next
  case True
  have m: "m \<le> length (sessions c)" using assms by (simp add: own_fds_def)
  define cmd where "cmd = c_string (take (multi_line_trim_len line) line)"
  have r: "multi_handle_input_line m line c s = colon_command m line c s" using True by (simp add: multi_handle_input_line_def)
  note ad = addressed_def [of m line c, unfolded if_P [OF True] cmd_def [symmetric] Let_def]
  have nn: "\<not> \<not> (line \<noteq> [] \<and> hd line = CHR '':'')" using True by simp
  note vi = victim_def [of m line c, unfolded if_not_P [OF nn] cmd_def [symmetric] Let_def]
  note cc = colon_command_def [of m line c s, folded cmd_def, unfolded Let_def]
  consider (send) "prefix '':send '' cmd" | (a) "prefix '':a '' cmd" | (all) "prefix '':all '' cmd"
    | (k) "prefix '':k '' cmd" | (kill) "prefix '':kill '' cmd"
    | (other) "\<not> prefix '':send '' cmd" "\<not> prefix '':a '' cmd" "\<not> prefix '':all '' cmd"
        "\<not> prefix '':k '' cmd" "\<not> prefix '':kill '' cmd" by blast
  then have "routed m (addressed m line c) (victim m line c) c s (colon_command m line c s)"
  proof cases
    case send
    then show ?thesis using route_send [OF assms, of "drop 6 cmd" s] by (simp add: cc ad vi other_word [OF send])
  next
    case a
    then show ?thesis using route_all [OF assms, of "drop 3 line" s] by (simp add: cc ad vi other_word [OF a])
  next
    case all
    then show ?thesis using route_all [OF assms, of "drop 5 line" s] by (simp add: cc ad vi other_word [OF all])
  next
    case k
    then show ?thesis using route_kill [OF assms, of "drop 3 cmd" s] by (simp add: cc ad vi other_word [OF k])
  next
    case kill
    then show ?thesis using route_kill [OF assms, of "drop 6 cmd" s] by (simp add: cc ad vi other_word [OF kill])
  next
    case other
    then have "addressed m line c = ([], [])" "victim m line c = None" by (simp_all add: ad vi)
    moreover have "routed m ([], []) None c s (colon_command m line c s)"
      unfolding cc by (intro routed_if) (simp_all add: route m other)
    ultimately show ?thesis by simp
  qed
  with r show ?thesis by simp
qed

end
