(* ===== verification/Wcat_Transfer.thy ===== *)
theory Wcat_Transfer
  imports Wcat_Filexfer
begin

text \<open>
  What the modes \<open>send\<close> and \<open>recv\<close> of src/filexfer.c transfer, said of the two ends themselves: the
  data that the opened file, or the accepted connection, delivers up to the end that its reader sees
  is what the connection, or the file, has been given when the program reports success.

  The data of a source is read off its script of answers, without the code: the bytes of its reads up
  to the end of file or to the first error that is neither an interruption nor \<open>EAGAIN\<close>; for a TLS
  connection the plaintext up to its closure or a fatal error. That an error ends the data like an end
  of file is what \<open>pump_once\<close> does.
\<close>

section \<open>The data of a source\<close>

fun stream_data :: "rd_ans list \<Rightarrow> bytes" where
  "stream_data [] = []"
| "stream_data (RdData d # q) = (if d = [] then [] else d @ stream_data q)"
| "stream_data (RdErr e # q) = (if e = EINTR \<or> e = EAGAIN then stream_data q else [])"

fun ssl_data :: "ssl_rd list \<Rightarrow> bytes" where
  "ssl_data [] = []"
| "ssl_data (SslData d # q) = (if d = [] then [] else d @ ssl_data q)"
| "ssl_data (SslRdWant w # q) = ssl_data q"
| "ssl_data (SslClosed # q) = []"
| "ssl_data (SslRdFatal # q) = []"

definition source_data :: "wcat_stream \<Rightarrow> sys \<Rightarrow> bytes" where
  "source_data st s =
     (case st_tls st of None \<Rightarrow> stream_data (rd_q s (raw_fd st)) | Some t \<Rightarrow> ssl_data (ssl_rd_q s (tfd t)))"

lemma source_data_cong: "rd_q s' = rd_q s \<Longrightarrow> ssl_rd_q s' = ssl_rd_q s \<Longrightarrow> source_data st s' = source_data st s"
  by (cases "st_tls st") (simp_all add: source_data_def)

lemma sys_read_data:
  "sys_read fd len s = (r, s') \<Longrightarrow> 0 < len \<Longrightarrow>
     (case r of
        Some b \<Rightarrow> stream_data (rd_q s fd) = (if b = [] then [] else b @ stream_data (rd_q s' fd))
      | None \<Rightarrow> stream_data (rd_q s fd)
                = (if errno_of s' = EINTR \<or> errno_of s' = EAGAIN then stream_data (rd_q s' fd) else []))"
  by (auto simp: sys_read_def split: list.splits rd_ans.splits)

lemma read_retry_stream:
  "read_retry fd len s = (r, s') \<Longrightarrow> 0 < len \<Longrightarrow>
     (case r of
        Some b \<Rightarrow> stream_data (rd_q s fd) = (if b = [] then [] else b @ stream_data (rd_q s' fd))
      | None \<Rightarrow> stream_data (rd_q s fd) = (if errno_of s' = EAGAIN then stream_data (rd_q s' fd) else []))"
proof (induction fd len s rule: read_retry.induct)
  case (1 fd len s)
  obtain r1 s1 where r1: "sys_read fd len s = (r1, s1)" by force
  note d = sys_read_data [OF r1 "1.prems"(2)]
  show ?case
  proof (cases "r1 = None \<and> errno_of s1 = EINTR")
    case True
    with "1.prems"(1) r1 have "read_retry fd len s1 = (r, s')" by (simp add: read_retry.simps [of fd len s])
    with "1.IH" [OF r1 [symmetric]] True "1.prems"(2) d show ?thesis by (cases r) simp_all
  next
    case False
    with "1.prems"(1) r1 have "r1 = r" "s1 = s'" by (auto simp: read_retry.simps [of fd len s] split: option.splits)
    with d False show ?thesis by (auto split: option.splits)
  qed
qed

lemma wcat_tls_read_stream:
  assumes "wcat_tls_read t len s = (r, s')" and "0 < len"
  shows "case r of
      Some b \<Rightarrow> ssl_data (ssl_rd_q s (tfd t)) = (if b = [] then [] else b @ ssl_data (ssl_rd_q s' (tfd t)))
    | None \<Rightarrow> errno_of s' = EAGAIN \<and> ssl_data (ssl_rd_q s (tfd t)) = ssl_data (ssl_rd_q s' (tfd t))"
proof -
  have q: "ssl_rd_q (quic_handle_events t x) = ssl_rd_q x" for x
    by (simp add: quic_handle_events_def ssl_handle_events_def split: list.splits)
  obtain a s1 where a: "ssl_read (tfd t) len (quic_handle_events t s) = (a, s1)" by force
  with assms show ?thesis
    by (auto simp: wcat_tls_read_def ssl_read_def q split: list.splits ssl_rd.splits if_splits)
qed

lemma stream_read_source:
  assumes "stream_read st len s = (r, s')" and "0 < len"
  shows "case r of
      Some b \<Rightarrow> source_data st s = (if b = [] then [] else b @ source_data st s')
    | None \<Rightarrow> source_data st s = (if errno_of s' = EAGAIN then source_data st s' else [])"
proof (cases "st_tls st")
  case None
  with read_retry_stream [of "raw_fd st" len s r s'] assms show ?thesis
    by (cases r) (simp_all add: stream_read_def source_data_def)
next
  case (Some t)
  with wcat_tls_read_stream [of t len s r s'] assms show ?thesis
    by (auto simp: stream_read_def source_data_def split: option.splits)
qed

lemma stream_write_source: "source_data st (snd (stream_write dst buf s)) = source_data st s"
proof (cases "st_tls dst")
  case None
  obtain n s' where w: "wcat_full_write (write_fd dst) buf s = (n, s')" by force
  from wcat_full_write_effect [OF w] have "rd_q s' = rd_q s" by (auto simp: write_effect_def)
  moreover have "ssl_rd_q s' = ssl_rd_q s"
    using full_write_ssl_rd [of "write_fd dst" buf 0 s] w by (simp add: wcat_full_write_def)
  ultimately have "source_data st s' = source_data st s" by (rule source_data_cong)
  with None w show ?thesis by (simp add: stream_write_def)
next
  case (Some t)
  have "source_data st (snd (wcat_tls_write t buf s)) = source_data st s"
    unfolding wcat_tls_write_def using tls_write_keeps_input [of t buf 0 s] by (intro source_data_cong) blast+
  with Some show ?thesis by (simp add: stream_write_def)
qed

text \<open>One read and the write of what it gave.\<close>

lemma pump_once_source:
  assumes "pump_once src dst lb opts s = (rc, s')" and "0 \<le> rc"
  shows "\<exists>d. sent s' = (sent s)(stream_out dst := sent s (stream_out dst) @ d)
    \<and> source_data src s = d @ (if 0 < rc then source_data src s' else [])"
proof -
  obtain r s1 where r: "stream_read src WCAT_BUFSIZE s = (r, s1)" by force
  note data = stream_read_source [OF r, unfolded WCAT_BUFSIZE_def, simplified]
  have s1: "sent s1 = sent s" using any_stream.rd_law [OF r] by simp
  show ?thesis
  proof (cases "r = None \<or> r = Some []")
    case True
    with assms r data have "s' = s1" "source_data src s = (if 0 < rc then source_data src s' else [])"
      by (auto simp: pump_once_def split: if_splits)
    with s1 show ?thesis by (intro exI [of _ "[]"]) simp
  next
    case False
    then obtain b where b: "r = Some b" "b \<noteq> []" by auto
    define s2 where "s2 = (if opts \<noteq> None \<and> opt_hex (the opts) then wcat_hexdump lb b s1 else s1)"
    obtain n s3 where w: "stream_write dst b s2 = (n, s3)" by force
    have rc: "n = int (length b)" "rc = 1" "s' = s3"
      using assms r b w by (auto simp: pump_once_def s2_def Let_def split: if_splits)
    have "source_data src (wcat_hexdump lb b s1) = source_data src s1"
      by (rule source_data_cong) (simp_all add: wcat_hexdump_def)
    then have s2: "sent s2 = sent s1" "source_data src s2 = source_data src s1"
      by (simp_all add: s2_def wcat_hexdump_def)
    have "sent s3 = (sent s2)(stream_out dst := sent s2 (stream_out dst) @ b)"
      using any_stream.wr_law [OF w] rc(1) by auto
    moreover have "source_data src s3 = source_data src s1"
      using stream_write_source [of src dst b s2] w s2 by simp
    ultimately show ?thesis using b data rc s1 s2 by (intro exI [of _ b]) simp
  qed
qed

text \<open>The copy gives everything to the destination, unless a signal stops it.\<close>

lemma copy_source:
  assumes "wcat_copy_stream src dst opts s = (0, s')"
  shows "\<exists>d. sent s' = (sent s)(stream_out dst := sent s (stream_out dst) @ d) \<and> prefix d (source_data src s)
    \<and> (\<not> wcat_stop s' \<longrightarrow> d = source_data src s)"
  using assms
proof (induction src dst opts s rule: wcat_copy_stream.induct)
  case (1 src dst opts s)
  obtain stop s0 where o: "observe_stop s = (stop, s0)" by force
  have s0: "sent s0 = sent s" "source_data src s0 = source_data src s" "stop = wcat_stop s0"
    by (use o in \<open>auto simp: observe_stop_def Let_def on_signal_def intro!: source_data_cong split: list.splits if_splits\<close>)
  obtain rc1 s1 where p: "pump_once src dst ''copy'' opts s0 = (rc1, s1)" by force
  note run = "1.prems" [unfolded wcat_copy_stream.simps [of src dst opts s] o prod.case Let_def p]
  show ?case
  proof (cases stop)
    case True
    with run s0 show ?thesis by (intro exI [of _ "[]"]) auto
  next
    case False
    note run = run [unfolded if_not_P [OF False]]
    from run have r: "0 \<le> rc1" by (auto split: if_splits)
    from pump_once_source [OF p r] s0 obtain d where
      d: "sent s1 = (sent s)(stream_out dst := sent s (stream_out dst) @ d)"
         "source_data src s = d @ (if 0 < rc1 then source_data src s1 else [])" by auto
    show ?thesis
    proof (cases "rc1 \<le> 0")
      case True
      with run have "s' = s1" by simp
      with d True show ?thesis by (intro exI [of _ d]) simp
    next
      case n: False
      with run have "wcat_copy_stream src dst opts s1 = (0, s')" by simp
      from "1.IH" [OF o [symmetric] refl False p [symmetric] refl n this] obtain e where
        e: "sent s' = (sent s1)(stream_out dst := sent s1 (stream_out dst) @ e)" "prefix e (source_data src s1)"
           "\<not> wcat_stop s' \<longrightarrow> e = source_data src s1" by blast
      from d e n show ?thesis by (intro exI [of _ "d @ e"]) auto
    qed
  qed
qed

section \<open>What leaves the input alone\<close>

definition input_of :: "sys \<Rightarrow> (fd \<Rightarrow> rd_ans list) \<times> (fd \<Rightarrow> ssl_rd list)" where
  "input_of s = (rd_q s, ssl_rd_q s)"

lemma input_source: "input_of s' = input_of s \<Longrightarrow> source_data st s' = source_data st s"
  by (rule source_data_cong) (simp_all add: input_of_def)

named_theorems unread \<open>calls that read nothing\<close>

lemma unread_close_loop: "input_of (close_loop fd s) = input_of s \<and> wcat_stop (close_loop fd s) = wcat_stop s"
proof (induction fd s rule: close_loop.induct)
  case (1 fd s)
  obtain n s1 where c: "sys_close fd s = (n, s1)" by force
  then have "input_of s1 = input_of s \<and> wcat_stop s1 = wcat_stop s"
    by (auto simp: sys_close_def Let_def input_of_def split: list.splits option.splits if_splits)
  with c "1.IH" [OF c [symmetric] refl] show ?case by (auto simp: close_loop.simps [of fd s])
qed

lemma unread_basic [unread]:
  "input_of (wcat_log lv ev m s) = input_of s" "input_of (wcat_log_errno ev m s) = input_of s"
  "input_of (s\<lparr>errno_of := e\<rparr>) = input_of s" "input_of (close_quiet fd s) = input_of s"
  "wcat_stop (close_quiet fd s) = wcat_stop s" "wcat_stop (snd (ssl_finish s)) = wcat_stop s"
  "input_of (snd (ssl_call s)) = input_of s" "input_of (snd (ssl_verify s)) = input_of s"
  "input_of (snd (ssl_finish s)) = input_of s" "input_of (snd (ssl_error_text s)) = input_of s"
  "input_of (snd (wcat_set_nonblock fd b s)) = input_of s"
  using unread_close_loop [of fd s]
  by (auto simp: input_of_def wcat_log_errno_def wcat_log_def Let_def ssl_call_def ssl_verify_def ssl_finish_def
      ssl_error_text_def wcat_set_nonblock_def wcat_close_quiet_def split: list.splits)

lemma unread_ssl [unread]:
  "input_of (snd (ssl_calls3 s)) = input_of s" "input_of (log_openssl_error ev m s) = input_of s"
  "input_of (snd (client_verify vp ca ctx s)) = input_of s" "input_of (snd (wcat_tls_close t s)) = input_of s"
  "wcat_stop (snd (wcat_tls_close t s)) = wcat_stop s"
  by (auto simp: ssl_calls3_def log_openssl_error_def client_verify_def wcat_tls_close_def case_prod_unfold Let_def unread
      split: option.splits)

lemma unread_fail [unread]:
  "input_of (snd (snd (tls_fail ev m t s))) = input_of s" "input_of (snd (snd (tls_invalid t s))) = input_of s"
  by (simp_all add: tls_fail_def tls_invalid_def case_prod_unfold Let_def unread)

lemma unread_handshake [unread]:
  "input_of (snd (snd (client_handshake t sn vp s))) = input_of s"
  "input_of (snd (snd (server_handshake t rq s))) = input_of s"
  by (simp_all add: client_handshake_def server_handshake_def case_prod_unfold Let_def unread)

lemma unread_open [unread]:
  "input_of (snd (snd (wcat_tls_client_open fd sn vp ca cert key s))) = input_of s"
  "input_of (snd (snd (wcat_tls_server_open fd cert key ca rq s))) = input_of s"
  by (simp_all add: wcat_tls_client_open_def wcat_tls_server_open_def case_prod_unfold Let_def unread
      split: sum.splits option.splits)

lemma unread_access_check [unread]: "input_of (snd (wcat_access_check_fd L cfg fd s)) = input_of s"
  by (auto simp: wcat_access_check_fd_def fd_peer_addr_def unread split: option.splits prod.splits peer.splits)


section \<open>The negotiation with a proxy reads its own connection only\<close>

lemma read_exact_elsewhere:
  "read_exact fd len buf s = (rc, b, s') \<Longrightarrow> f \<noteq> fd \<Longrightarrow> rd_q s' f = rd_q s f"
proof (induction fd len buf s rule: read_exact.induct)
  case (1 fd len buf s)
  show ?case
  proof (cases "length buf < len")
    case False
    with "1.prems" show ?thesis by (simp add: read_exact.simps [of fd len buf s])
  next
    case True
    obtain r s1 where r: "sys_read fd (len - length buf) s = (r, s1)" by force
    have q: "rd_q s1 f = rd_q s f" using sys_read_frame [OF r] "1.prems"(2) by simp
    note run = "1.prems"(1) [unfolded read_exact.simps [of fd len buf s] if_P [OF True] r prod.case]
    show ?thesis
    proof (cases r)
      case None
      show ?thesis
      proof (cases "errno_of s1 = EINTR")
        case True
        with run None have "read_exact fd len buf s1 = (rc, b, s')" by simp
        with "1.IH"(1) [OF \<open>length buf < len\<close> r [symmetric] None True] "1.prems"(2) q show ?thesis by simp
      next
        case False
        with run None q show ?thesis by simp
      qed
    next
      case (Some d)
      show ?thesis
      proof (cases "d = []")
        case True
        with run Some q show ?thesis by simp
      next
        case False
        with run Some have "read_exact fd len (buf @ d) s1 = (rc, b, s')" by simp
        with "1.IH"(2) [OF True r [symmetric] Some False] "1.prems"(2) q show ?thesis by simp
      qed
    qed
  qed
qed

lemma http_response_elsewhere:
  "http_response_loop fd buf s = (r, s') \<Longrightarrow> f \<noteq> fd \<Longrightarrow> rd_q s' f = rd_q s f"
proof (induction fd buf s rule: http_response_loop.induct)
  case (1 fd buf s)
  show ?case
  proof (cases "length buf + 1 < 1024")
    case False
    with "1.prems" show ?thesis by (simp add: http_response_loop.simps [of fd buf s])
  next
    case True
    obtain a s1 where a: "sys_read fd 1 s = (a, s1)" by force
    have q: "rd_q s1 f = rd_q s f" using sys_read_frame [OF a] "1.prems"(2) by simp
    note run = "1.prems"(1) [unfolded http_response_loop.simps [of fd buf s] if_P [OF True] a prod.case]
    show ?thesis
    proof (cases a)
      case None
      with run q show ?thesis by simp
    next
      case (Some d)
      show ?thesis
      proof (cases "d = [] \<or> contains (crlf @ crlf) (c_string (buf @ d))")
        case True
        with run Some q show ?thesis by (auto split: if_splits)
      next
        case False
        then have n: "d \<noteq> []" "\<not> contains (crlf @ crlf) (c_string (buf @ d))" by simp_all
        with run Some have "http_response_loop fd (buf @ d) s1 = (r, s')" by simp
        with "1.IH" [OF True a [symmetric] Some n] "1.prems"(2) q show ?thesis by simp
      qed
    qed
  qed
qed

lemma full_write_elsewhere: "wcat_full_write fd buf s = (n, s') \<Longrightarrow> rd_q s' = rd_q s"
  by (drule wcat_full_write_effect) (auto simp: write_effect_def)

lemma log_input [simp]: "rd_q (wcat_log lv ev m s) = rd_q s"
  by (simp add: wcat_log_def Let_def)

lemma reply_tail_elsewhere:
  assumes "socks5_reply_tail fd atyp s = (r, s')" and "f \<noteq> fd"
  shows "rd_q s' f = rd_q s f"
proof -
  have e: "rd_q (snd (snd (read_exact fd len buf x))) f = rd_q x f" for len buf x
    using read_exact_elsewhere [of fd len buf x _ _ "snd (snd (read_exact fd len buf x))" f] assms(2)
    by (cases "read_exact fd len buf x") simp
  have "rd_q (snd (socks5_reply_tail fd atyp s)) f = rd_q s f"
    by (simp add: socks5_reply_tail_def case_prod_unfold Let_def e)
  with assms(1) show ?thesis by simp
qed

lemma negotiate_elsewhere:
  assumes "proxy_negotiate t fd h p s = (r, s')" and "f \<noteq> fd"
  shows "rd_q s' f = rd_q s f"
proof -
  have e: "rd_q (snd (snd (read_exact fd len buf x))) f = rd_q x f" for len buf x
    using read_exact_elsewhere [of fd len buf x _ _ "snd (snd (read_exact fd len buf x))" f] assms(2)
    by (cases "read_exact fd len buf x") simp
  have w: "rd_q (snd (wcat_full_write fd buf x)) = rd_q x" for buf x
    using full_write_elsewhere [of fd buf x] by (cases "wcat_full_write fd buf x") simp
  have l: "rd_q (snd (http_response_loop fd buf x)) f = rd_q x f" for buf x
    using http_response_elsewhere [of fd buf x _ "snd (http_response_loop fd buf x)" f] assms(2)
    by (cases "http_response_loop fd buf x") simp
  have b: "rd_q (snd (socks5_reply_tail fd a x)) f = rd_q x f" for a x
    using reply_tail_elsewhere [of fd a x _ "snd (socks5_reply_tail fd a x)" f] assms(2)
    by (cases "socks5_reply_tail fd a x") simp
  have "rd_q (snd (socks5_negotiate fd h p s)) f = rd_q s f"
    by (simp add: socks5_negotiate_def case_prod_unfold Let_def e w b)
  moreover have "rd_q (snd (http_connect_negotiate fd h p s)) f = rd_q s f"
    using l by (auto simp: http_connect_negotiate_def case_prod_unfold Let_def w split: option.splits)
  ultimately show ?thesis using assms(1) by (auto simp: proxy_negotiate_def split: if_splits prod.splits)
qed

lemma send_connect_elsewhere:
  assumes "send_connect cfg pr s = (Ret sock, s')" and "0 \<le> sock" and "f \<in> set (open_fds s)"
  shows "rd_q s' f = rd_q s f"
proof (cases "udp cfg")
  case True
  then have "wcat_udp_connect (host cfg) (port cfg) (family cfg) s = (sock, s')"
    using assms(1) by (auto simp: send_connect_def split: prod.splits)
  from udp_connect.make_new [OF this] show ?thesis by (simp add: new_socket_def sock_frame_def)
next
  case False
  then have c: "wcat_proxy_connect (Some pr) (host cfg) (port cfg) (family cfg) (timeout_ms cfg) s = (Ret sock, s')"
    using assms(1) by (simp add: send_connect_def)
  show ?thesis
  proof (cases "proxy_type pr = WCAT_PROXY_NONE")
    case True
    with c have "wcat_tcp_connect (host cfg) (port cfg) (family cfg) (timeout_ms cfg) s = (sock, s')"
      by (auto simp: wcat_proxy_connect_def split: prod.splits)
    from tcp_connect.make_new [OF this] show ?thesis by (simp add: new_socket_def sock_frame_def)
  next
    case False
    obtain k s1 where k: "wcat_tcp_connect (Some (proxy_host pr)) (Some (proxy_port pr)) (family cfg) (timeout_ms cfg) s = (k, s1)"
      by force
    obtain q s2 where n: "proxy_negotiate (proxy_type pr) k (the (host cfg)) (the (port cfg)) s1 = (q, s2)" by force
    have run: "0 \<le> k \<and> s' = s2"
      using assms(2) c False k n by (auto simp: wcat_proxy_connect_def case_prod_unfold Let_def split: if_splits)
    from tcp_connect.make_new [OF k] run assms(3) have "f \<noteq> k" "rd_q s1 f = rd_q s f"
      by (auto simp: new_socket_def sock_frame_def)
    with negotiate_elsewhere [OF n] run show ?thesis by simp
  qed
qed


section \<open>Files\<close>

text \<open>A copy between the two ends, with the set-up before it and the closing after it.\<close>

lemma copy_between:
  assumes "wcat_copy_stream src dst opts s1 = (n, s2)" and "exit_code n = 0"
    and "traffic s1 = traffic s" and "source_data src s1 = x" and "stream_out dst = j"
    and "traffic s' = traffic s2" and "wcat_stop s' = wcat_stop s2"
  shows "\<exists>d. sent s' j = sent s j @ d \<and> prefix d x \<and> (\<not> wcat_stop s' \<longrightarrow> d = x)"
proof -
  have "n = 0" using wcat_copy_stream_faithful [OF assms(1)] assms(2) by (auto simp: exit_code_def)
  with copy_source [of src dst opts s1 s2] assms obtain d where
    d: "sent s2 = (sent s1)(j := sent s1 j @ d)" "prefix d x" "\<not> wcat_stop s2 \<longrightarrow> d = x" by auto
  show ?thesis using d assms(3,6,7) by (intro exI [of _ d]) (simp add: traffic_def)
qed

lemma source_of [simp]:
  "source_data (wcat_stream_from_fd fd nm) s = stream_data (rd_q s fd)"
  "source_data (wcat_stream_from_tls t nm) s = ssl_data (ssl_rd_q s (tfd t))"
  by (simp_all add: source_data_def wcat_stream_from_fd_def wcat_stream_from_tls_def)

lemma send_over_file:
  assumes "send_over cfg f sock s = (0, s')" and "0 \<le> sock"
  shows "\<exists>d. sent s' sock = sent s sock @ d \<and> prefix d (stream_data (rd_q s f))
    \<and> (\<not> wcat_stop s' \<longrightarrow> d = stream_data (rd_q s f))"
proof (cases "tls cfg")
  case False
  obtain n s2 where c: "wcat_copy_stream (wcat_stream_from_fd f ''file'') (wcat_stream_from_fd sock ''network'')
      (relay_options cfg) s = (n, s2)" by force
  with assms(1) False have "exit_code n = 0" "s' = close_quiet f (close_quiet sock s2)" by (auto simp: send_over_def)
  with copy_between [OF c this(1) refl refl refl, of s'] show ?thesis by (simp add: quiet unread)
next
  case True
  obtain r t s1 where o: "wcat_tls_client_open sock (if sni cfg \<noteq> None then sni cfg else host cfg) (tls_verify cfg)
      (ca_file cfg) (client_cert_file cfg) (client_key_file cfg) s = (r, t, s1)" using prod_cases3 by blast
  then have t1: "traffic s1 = traffic s" "input_of s1 = input_of s" by (metis quiet_open(1) unread_open(1) snd_conv)+
  have pos: "\<not> r < 0" using assms(1) True o by (auto simp: send_over_def)
  have tt: "tfd t = sock" by (rule open_result_fd [OF wcat_tls_client_open_result [OF assms(2)] o pos])
  obtain n s2 where c: "wcat_copy_stream (wcat_stream_from_fd f ''file'') (wcat_stream_from_tls t ''network'')
      (relay_options cfg) s1 = (n, s2)" by force
  with assms(1) True o pos have e: "exit_code n = 0" "s' = close_quiet f (snd (wcat_tls_close t s2))"
    by (auto simp: send_over_def case_prod_unfold)
  have "source_data (wcat_stream_from_fd f ''file'') s1 = stream_data (rd_q s f)"
    using input_source [OF t1(2)] by simp
  from copy_between [OF c e(1) t1(1) this refl, of s'] e(2) tt show ?thesis by (simp add: quiet unread)
qed

lemma send_file_delivers:
  assumes "wcat_send_file cfg s = (Ret 0, s')"
  shows "\<exists>f s1 pr sock s2 d. sys_open s = (f, s1) \<and> wcat_proxy_parse (proxy_url cfg) = Some pr
    \<and> send_connect cfg pr s1 = (Ret sock, s2) \<and> 0 \<le> f \<and> 0 \<le> sock \<and> f \<noteq> sock
    \<and> sent s' sock = (if udp cfg then [] else proxy_preamble pr (host cfg) (port cfg)) @ d
    \<and> prefix d (stream_data (rd_q s1 f)) \<and> (\<not> wcat_stop s' \<longrightarrow> d = stream_data (rd_q s1 f))"
proof -
  obtain f s1 where f: "sys_open s = (f, s1)" by force
  note run = assms [unfolded wcat_send_file_def f prod.case Let_def]
  have pos: "\<not> f < 0" using run by (auto split: if_splits)
  then obtain pr where pr: "wcat_proxy_parse (proxy_url cfg) = Some pr" using run by (auto split: option.splits)
  obtain q s2 where c: "send_connect cfg pr s1 = (q, s2)" by force
  then obtain sock where q: "q = Ret sock" using run pos pr by (cases q) auto
  have sp: "\<not> sock < 0" using run pos pr c q by (auto split: if_splits)
  obtain r s3 where so: "send_over cfg f sock s2 = (r, s3)" by force
  then have e: "r = 0" "s' = s3" using run pos pr c q sp by simp_all
  have fo: "f \<in> set (open_fds s1)" using sys_open_effect [OF f] pos by simp
  have conn: "sent s2 sock = (if udp cfg then [] else proxy_preamble pr (host cfg) (port cfg)) \<and> sock \<notin> set (open_fds s1)"
  proof (cases "udp cfg")
    case True
    then have "wcat_udp_connect (host cfg) (port cfg) (family cfg) s1 = (sock, s2)"
      using c q by (auto simp: send_connect_def split: prod.splits)
    from udp_connect.make_new [OF this] sp True show ?thesis by (auto simp: new_socket_def)
  next
    case False
    then have "wcat_proxy_connect (Some pr) (host cfg) (port cfg) (family cfg) (timeout_ms cfg) s1 = (Ret sock, s2)"
      using c q by (simp add: send_connect_def)
    from proxy_connect_preamble [OF this] sp False show ?thesis by auto
  qed
  then have ne: "f \<noteq> sock" using fo by auto
  have "rd_q s2 f = rd_q s1 f" using send_connect_elsewhere [OF c [unfolded q] _ fo] sp by simp
  with send_over_file [OF so [unfolded e(1)]] sp e(2) obtain d where
    "sent s' sock = sent s2 sock @ d" "prefix d (stream_data (rd_q s1 f))"
    "\<not> wcat_stop s' \<longrightarrow> d = stream_data (rd_q s1 f)" by auto
  with f pr c q conn ne pos sp show ?thesis
    by (intro exI [of _ f] exI [of _ s1] exI [of _ pr] exI [of _ sock] exI [of _ s2] exI [of _ d]) simp
qed

text \<open>The connection that was accepted, and what it delivers: the plaintext with TLS.\<close>

lemma recv_from_client_file:
  assumes "recv_from_client L cfg f (client, h, p) s = (0, s')" and "0 \<le> client"
    and "x = (if tls cfg then ssl_data (ssl_rd_q s client) else stream_data (rd_q s client))"
  shows "fst (wcat_access_check_fd L cfg client s)
    \<and> (\<exists>d. sent s' f = sent s f @ d \<and> prefix d x \<and> (\<not> wcat_stop s' \<longrightarrow> d = x))"
proof -
  obtain ok s1 where a: "wcat_access_check_fd L cfg client s = (ok, s1)" by force
  define s2 where "s2 = wcat_log WCAT_LOG_INFO ''accept'' (''accepted '' @ h @ '':'' @ p) s1"
  have "traffic s1 = traffic s" "input_of s1 = input_of s" using a by (metis quiet_access_check unread_access_check snd_conv)+
  then have t2: "traffic s2 = traffic s" "input_of s2 = input_of s" by (simp_all add: s2_def quiet unread)
  note run = assms(1) [unfolded recv_from_client_def Let_def a prod.case s2_def [symmetric]]
  have ok: ok using run by (auto split: if_splits)
  have "\<exists>d. sent s' f = sent s f @ d \<and> prefix d x \<and> (\<not> wcat_stop s' \<longrightarrow> d = x)"
  proof (cases "tls cfg")
    case False
    obtain n s4 where c: "wcat_copy_stream (wcat_stream_from_fd client ''network'') (wcat_stream_from_fd f ''file'')
        (relay_options cfg) s2 = (n, s4)" by force
    with run ok False have e: "exit_code n = 0" "s' = close_quiet client s4" by simp_all
    have "source_data (wcat_stream_from_fd client ''network'') s2 = x" using input_source [OF t2(2)] assms(3) False by simp
    from copy_between [OF c e(1) t2(1) this refl, of s'] e(2) show ?thesis by (simp add: quiet unread)
  next
    case True
    obtain r t s3 where o: "wcat_tls_server_open client (cert_file cfg) (key_file cfg) (ca_file cfg)
        (tls_require_client_cert cfg) s2 = (r, t, s3)" using prod_cases3 by blast
    then have t3: "traffic s3 = traffic s" "input_of s3 = input_of s"
      using t2 by (metis quiet_open(2) unread_open(2) snd_conv)+
    have pos: "\<not> r < 0" using run ok True o by auto
    have tt: "tfd t = client" by (rule open_result_fd [OF wcat_tls_server_open_result [OF assms(2)] o pos])
    obtain n s4 where c: "wcat_copy_stream (wcat_stream_from_tls t ''network'') (wcat_stream_from_fd f ''file'')
        (relay_options cfg) s3 = (n, s4)" by force
    with run ok True o pos have e: "exit_code n = 0" "s' = snd (wcat_tls_close t s4)" by (simp_all add: case_prod_unfold)
    have "source_data (wcat_stream_from_tls t ''network'') s3 = x" using input_source [OF t3(2)] assms(3) True tt by simp
    from copy_between [OF c e(1) t3(1) this refl, of s'] e(2) show ?thesis by (simp add: quiet unread)
  qed
  with a ok show ?thesis by simp
qed

lemma recv_file_keeps:
  assumes "wcat_recv_file L cfg s = (0, s')"
  shows "\<exists>f s1 l s2 c s3 d. sys_open s = (f, s1) \<and> 0 \<le> f
    \<and> (if udp cfg then wcat_udp_bind (host cfg) (port cfg) (family cfg) s1 = (l, s2) \<and> c = l \<and> s3 = s2
       else wcat_tcp_listen (host cfg) (port cfg) (family cfg) 16 s1 = (l, s2)
         \<and> (\<exists>h p. accept_when_ready l s2 = (Some (c, h, p), s3)) \<and> fst (wcat_access_check_fd L cfg c s3))
    \<and> 0 \<le> c \<and> c \<noteq> f \<and> sent s' f = d
    \<and> prefix d (if tls cfg \<and> \<not> udp cfg then ssl_data (ssl_rd_q s3 c) else stream_data (rd_q s3 c))
    \<and> (\<not> wcat_stop s' \<longrightarrow>
         d = (if tls cfg \<and> \<not> udp cfg then ssl_data (ssl_rd_q s3 c) else stream_data (rd_q s3 c)))"
proof -
  obtain f s1 where f: "sys_open s = (f, s1)" by force
  obtain l s2 where l: "(if udp cfg then wcat_udp_bind (host cfg) (port cfg) (family cfg) s1
      else wcat_tcp_listen (host cfg) (port cfg) (family cfg) 16 s1) = (l, s2)" by force
  then have ns: "new_socket s1 l s2" by (auto split: if_splits intro: udp_bind.make_new tcp_listen.make_new)
  note run = assms [unfolded wcat_recv_file_def f prod.case Let_def l]
  have pos: "\<not> f < 0" "\<not> l < 0" using run by (auto split: if_splits)
  note fo = sys_open_effect [OF f]
  have l2: "l \<notin> set (open_fds s1)" "open_fds s2 = open_fds s1 @ [l]" "sent s2 f = []" "l \<noteq> f"
    using ns pos fo by (auto simp: new_socket_def sock_frame_def)
  show ?thesis
  proof (cases "udp cfg")
    case True
    obtain n s3 where c: "wcat_copy_stream (wcat_stream_from_fd l ''network'') (wcat_stream_from_fd f ''file'')
        (relay_options cfg) s2 = (n, s3)" by force
    with run pos True have e: "exit_code n = 0" "s' = close_quiet f (close_quiet l s3)" by simp_all
    from copy_between [OF c e(1) refl refl refl, of s'] e(2) l2(3) obtain d where
      "sent s' f = d" "prefix d (stream_data (rd_q s2 l))" "\<not> wcat_stop s' \<longrightarrow> d = stream_data (rd_q s2 l)"
      by (auto simp: quiet unread)
    with True f l pos l2 show ?thesis
      by (intro exI [of _ f] exI [of _ s1] exI [of _ l] exI [of _ s2] exI [of _ l] exI [of _ s2] exI [of _ d]) simp
  next
    case False
    obtain a s3 where a: "accept_when_ready l s2 = (a, s3)" by force
    with run pos False obtain c h p where x: "a = Some (c, h, p)" by (cases a) auto
    note ac = accept_when_ready_effect [OF a [unfolded x]]
    obtain rc s4 where rf: "recv_from_client L cfg f (c, h, p) s3 = (rc, s4)" by force
    with run pos False a x have e: "rc = 0" "s' = close_quiet f (close_quiet l s4)" by simp_all
    have "c \<noteq> f" using ac l2 fo pos by auto
    then have s3: "sent s3 f = []" using ac l2 by simp
    have s': "sent s' f = sent s4 f" "wcat_stop s' = wcat_stop s4"
      using e(2) by (simp_all add: unread wcat_close_quiet_def close_loop_frame)
    from recv_from_client_file [OF rf [unfolded e(1)] _ refl] ac s3 s' obtain d where
      "fst (wcat_access_check_fd L cfg c s3)" "sent s' f = d"
      "prefix d (if tls cfg then ssl_data (ssl_rd_q s3 c) else stream_data (rd_q s3 c))"
      "\<not> wcat_stop s' \<longrightarrow> d = (if tls cfg then ssl_data (ssl_rd_q s3 c) else stream_data (rd_q s3 c))" by auto
    with False f l a x pos ac \<open>c \<noteq> f\<close> show ?thesis
      by (intro exI [of _ f] exI [of _ s1] exI [of _ l] exI [of _ s2] exI [of _ c] exI [of _ s3] exI [of _ d]) simp
  qed
qed

end
