(* ===== verification/Spec2Isabelle.thy ===== *)
theory Spec2Isabelle
  imports Wcat_Exit Wcat_Sessions Wcat_Typing Wcat_Routing Wcat_Transfer "HOL-Library.Code_Target_Nat"
begin

text \<open>
  A verification of wcat (the C program under src/), a network tool in the manner of netcat: it
  connects, listens, sends and receives files, relays between two endpoints, brokers between many
  clients and serves as a proxy, over TCP, UDP, SCTP, UNIX, VM sockets, TLS and QUIC.

  \<^bold>\<open>Parts of the program and their theories.\<close>

  \<^item> \<open>Wcat_Prelude\<close>: bytes, C limits, the string functions of the C library.
  \<^item> \<open>Wcat_Sys\<close>: the kernel and OpenSSL as the sources see them. Their answers are scripts in the
    record \<open>sys\<close>; what the calls did (bytes delivered and accepted, open descriptors, text on
    standard error) is recorded there too. Theorems quantify over the scripts, that is over every
    finite behaviour of kernel, library and peers. \<open>on_signal\<close> is the handler of signalx.c.
  \<^item> \<open>Wcat_Config\<close>, \<open>Wcat_Cli\<close>: the record \<open>wcat_config\<close> of include/cli.h and the command line
    parser of src/cli.c, option by option and check by check.
  \<^item> \<open>Wcat_Util\<close>, \<open>Wcat_Log\<close>: src/util.c (numbers, full writes, closing) and src/log.c (plain and
    JSON records, the hex dump).
  \<^item> \<open>Wcat_Access\<close>: src/access.c, the allow and deny lists. \<open>inet_pton\<close> and \<open>inet_ntop\<close> are the
    parameter \<open>inet\<close>; \<open>posix_inet\<close> is an executable instance.
  \<^item> \<open>Wcat_Socketx\<close>: src/socketx.c, the functions that make sockets, with the locale
    \<open>socket_maker\<close> for what their callers rely on.
  \<^item> \<open>Wcat_Broker\<close>, \<open>Wcat_Fanout\<close>: src/broker.c and the specification it refines: a table of
    clients that changes by Join, Leave and Say events. The locale \<open>out_queue\<close> is the contract of
    the output queue of a client.
  \<^item> \<open>Wcat_Tls\<close>: src/tls.c, opening, reading, writing and closing TLS streams.
  \<^item> \<open>Wcat_Relay\<close>: src/relay.c, the byte pump between two streams; the locale \<open>byte_stream\<close> is
    what the pump relies on, interpreted for descriptors, TLS streams and both together.
  \<^item> \<open>Wcat_Frame\<close>: what an operation leaves alone (\<open>rest_of\<close>), with one rule for every call.
  \<^item> \<open>Wcat_Proxy\<close>, \<open>Wcat_Negotiate\<close>: src/proxy.c, the SOCKS5 and HTTP CONNECT negotiations, the proxy
    server, and what was said and consumed when they succeed. The locale \<open>fd_maker\<close> is the contract
    of everything that opens a connection.
  \<^item> \<open>Wcat_Process\<close>, \<open>Wcat_Own\<close>: src/process.c, the program behind \<open>--exec\<close>, and the accounting of
    descriptors and children (\<open>owns\<close>).
  \<^item> \<open>Wcat_Filexfer\<close>, \<open>Wcat_Transfer\<close>: src/filexfer.c, sending and receiving a file, and what is in
    the file or has been sent at the end, read off the script of the source.
  \<^item> \<open>Wcat_Quic\<close>: src/quic.c in a build with QUIC: ALPN, contexts, client and listener.
  \<^item> \<open>Wcat_Main\<close>: the modes of src/main.c that serve one connection at a time: connect, listen,
    relay, and their QUIC variants.
  \<^item> \<open>Wcat_Console\<close>, \<open>Wcat_Editor\<close>, \<open>Wcat_Attached\<close>, \<open>Wcat_Multi\<close>: \<open>listen --multi\<close> of src/main.c:
    the session table and its commands, the line editor, the attached session, and the poll loop.
  \<^item> \<open>Wcat_Table\<close>, \<open>Wcat_Console_Run\<close>: the descriptors of the session table through a whole run.
    \<open>Wcat_Sessions\<close>, \<open>Wcat_Routing\<close>, \<open>Wcat_Edit\<close>, \<open>Wcat_Typing\<close>: specifications of the session
    order, input lines and labels, of whom a line is for, of the editor, and of typing, and that the
    code implements them.
  \<^item> \<open>Wcat_App\<close>, \<open>Wcat_Exit\<close>: \<open>main\<close> with its dispatch, usage text and initialisation, how it ends, what
    a usage error is, and its descriptors.

  \<^bold>\<open>How they interact.\<close> \<open>main\<close> parses the command line into a \<open>wcat_config\<close>, initialises logging,
  signals and TLS and runs one mode. Every mode makes sockets (through a proxy if asked), checks
  peers against the access lists, wraps descriptors into streams and gives two streams to the relay
  or the copy; the broker and \<open>listen --multi\<close> have poll loops of their own. All share the state
  \<open>sys\<close>, which every operation takes and returns.

  \<^bold>\<open>What the theorems show.\<close> C1 to C7: the broker delivers to every client exactly what the others
  said, in order and within its limits. C8 to C12: the relay and the copy are faithful and, for
  well-behaved descriptors, complete; and two cases in which they do not do what the documentation
  promises. C13 to C16: success of a transfer means that all the data of its source has arrived, unless
  a signal stopped it; the program as a whole closes what it opened and ends with the status 0, 1 or,
  for usage errors, 2, or by the overrun of the SOCKS5 reply buffer. C17 to C20: proxies are asked for the right host and port and
  understand it, except that a SOCKS5 reply may overrun its buffer; child processes. C21 to C23: TLS
  and QUIC connections are authenticated as configured. C24 to C30: the console of \<open>listen --multi\<close>
  releases what it took, sends lines to whom they are for and loses only a session whose connection
  fails, edits lines as specified, sends what is typed but for the words that detach, and shows what
  arrives. C31 to C34: the parser accepts exactly the valid configurations. C35
  to C37: access lists decide as documented. C38 to C40: log records, full writes and sockets.

  \<^bold>\<open>Loops.\<close> Every loop of the sources is a total function: it consumes an answer of a script, or
  input, in each round, and its termination is proved by a measure on what is left. No fuel is used.
  A script that is used up answers as \<open>Wcat_Sys\<close> says (end of file, everything accepted, or a
  failure), so a run of any length is covered by a script of that length.

  \<^bold>\<open>Conventions.\<close> Descriptors are integers, counters of sessions and bytes are words of their width,
  buffers are byte lists with the capacity of the code where it decides something. A write beyond a
  buffer is the outcome \<open>Overrun\<close>. Formatted text is given already formatted; what is printed with
  \<open>dprintf\<close> on standard error is state, what \<open>printf\<close> prints is part of the result of \<open>main\<close>.

  \<^bold>\<open>Not modelled.\<close> The branches of the preprocessor for other systems and for builds without QUIC,
  SCTP or VM sockets; the interior of OpenSSL, of the C library's resolver and of the programs
  started with \<open>--exec\<close>; file contents but for the bytes read and written; time, but for timeouts as
  answers of \<open>poll\<close> and the clock in log records; \<open>wcat_tls_cleanup\<close>, which only calls the library;
  and the test drivers under src/tests.
\<close>

section \<open>Concrete runs\<close>

text \<open>
  The states the witnesses run on: an operating system with scripted answers. \<open>ready\<close> is a \<open>poll\<close>
  that reports the given events.
\<close>

definition ready :: "(fd \<times> pflag set) list \<Rightarrow> poll_ans" where
  "ready l = PollReady (\<lambda>f. case map_of l f of None \<Rightarrow> {} | Some e \<Rightarrow> e)"

definition broker_cfg :: wcat_config where
  "broker_cfg = wcat_config_init\<lparr>mode := WCAT_MODE_BROKER, broker_max_clients := 2\<rparr>"

text \<open>A listener on descriptor 3, two clients; the first says \<open>hi\<close>, the second can be written to.\<close>

definition two_clients :: sys where
  "two_clients = sys0\<lparr>open_fds := [0, 1, 2, 3],
     acc_q := (\<lambda>_. [])(3 := [AccOk PeerOther ''h'' ''1'', AccOk PeerOther ''h'' ''2'']),
     poll_q := [ready [(3, {POLLIN})], ready [(3, {POLLIN})], ready [(4, {POLLIN})], ready [(5, {POLLOUT})]],
     rd_q := (\<lambda>_. [])(4 := [RdData ''hi''])\<rparr>"

definition one_client :: broker_client where
  "one_client = client_init\<lparr>cfd := 4, cid := 7, out := ''xab'', out_len := 3, out_off := 1\<rparr>"

text \<open>Two connected clients on descriptors 4 and 5, the second with two queued bytes.\<close>

definition two_slots :: "broker_client list" where
  "two_slots = [client_init\<lparr>cfd := 4, cid := 1\<rparr>, client_init\<lparr>cfd := 5, cid := 2, out := ''ab'', out_len := 2\<rparr>]"

definition two_open :: sys where
  "two_open = sys0\<lparr>open_fds := [0, 1, 2, 3, 4, 5]\<rparr>"

definition fifo_ops :: "queue_op list" where
  "fifo_ops = [Enqueue ''cd'', Flush, Enqueue ''ef'', Flush]"

definition fifo_sys :: sys where
  "fifo_sys = sys0\<lparr>wr_q := (\<lambda>_. [])(4 := [WrOk 1, WrErr EAGAIN, WrErr EINTR, WrOk 2, WrErr EAGAIN])\<rparr>"

text \<open>A relay between standard input and output and a socket on descriptor 4.\<close>

definition stdio_end :: wcat_stream where "stdio_end = wcat_stream_from_fd_pair 0 1 ''stdio''"

definition peer_end :: wcat_stream where "peer_end = wcat_stream_from_fd 4 ''peer''"

definition relay_sys :: sys where
  "relay_sys = sys0\<lparr>open_fds := [0, 1, 2, 4],
     poll_q := [ready [(0, {POLLIN})], ready [(4, {POLLIN})], ready [(0, {POLLIN})], ready [(4, {POLLIN})]],
     rd_q := (\<lambda>_. [])(0 := [RdData ''ping''], 4 := [RdErr EINTR, RdData ''pong'']),
     wr_q := (\<lambda>_. [])(4 := [WrOk 1, WrErr EINTR])\<rparr>"

definition copy_sys :: sys where
  "copy_sys = sys0\<lparr>rd_q := (\<lambda>_. [])(0 := [RdData ''ab'', RdData ''c'']), wr_q := (\<lambda>_. [])(4 := [WrErr EINTR, WrOk 1])\<rparr>"

text \<open>A TLS handshake in which every library call succeeds, and one whose context cannot be made.\<close>

definition tls_sys :: sys where
  "tls_sys = sys0\<lparr>open_fds := [0, 1, 2, 4], ssl_ok_q := replicate 20 True, ssl_verify_q := [None]\<rparr>"

text \<open>A command line, and a configuration with access lists.\<close>

definition listen_argv :: "string list" where
  "listen_argv = [''wirecat'', ''listen'', ''--tls'', ''--timeout'', ''5'', ''--allow'', ''10.0.0.0/8'', ''0.0.0.0'', ''443'']"

definition access_cfg :: wcat_config where
  "access_cfg = wcat_config_init\<lparr>allow_list := Some ''10.0.0.0/8'', deny_list := Some '' 10.1.2.3 ''\<rparr>"

text \<open>The whole program: a connection to the address \<open>a\<close>, whose peer says \<open>pong\<close>.\<close>

definition connecting :: sys where
  "connecting = sys0\<lparr>gai_q := [GaiOk [SaInet ''a'']], socket_q := [None], connect_q := [None], ssl_ok_q := [True],
     poll_q := [ready [(3, {POLLIN})], ready [(0, {POLLIN})], ready [(3, {POLLIN})]], rd_q := (\<lambda>_. [])(3 := [RdData ''pong''])\<rparr>"

definition connect_argv :: "string list" where
  "connect_argv = [''wirecat'', ''connect'', ''example.com'', ''80'']"

text \<open>A file of two reads is sent; a client sends one.\<close>

definition send_cfg :: wcat_config where
  "send_cfg = wcat_config_init\<lparr>mode := WCAT_MODE_SEND, file_path := Some ''f'', host := Some ''h'', port := Some ''1''\<rparr>"

definition send_sys :: sys where
  "send_sys = connecting\<lparr>open_q := [None], rd_q := (\<lambda>_. [])(3 := [RdData ''da'', RdErr EINTR, RdData ''ta''])\<rparr>"

definition recv_sys :: sys where
  "recv_sys = sys0\<lparr>open_q := [None], gai_q := [GaiOk [SaInet ''a'']], socket_q := [None],
     bind_q := [None], listen_q := [None], poll_q := [ready [(4, {POLLIN})]],
     acc_q := (\<lambda>_. [])(4 := [AccOk PeerOther ''h'' ''1'']), rd_q := (\<lambda>_. [])(5 := [RdData ''file''])\<rparr>"

text \<open>A SOCKS5 server that answers with an IPv4 address, and one that answers with a long name.\<close>

definition socks_sys :: "bytes \<Rightarrow> sys" where
  "socks_sys tail = sys0\<lparr>rd_q := (\<lambda>_. [])(4 := [RdData [CHR 0x05], RdData [CHR 0x00], RdErr EINTR,
     RdData [CHR 0x05, CHR 0x00, CHR 0x00], RdData [hd tail], RdData (tl tail)])\<rparr>"

definition ipv4_tail :: bytes where "ipv4_tail = CHR 0x01 # ''abcdef''"
definition name_tail :: bytes where "name_tail = [CHR 0x03, CHR 0x09] @ ''localhost'' @ [CHR 0x00, CHR 0x50]"

text \<open>A SOCKS5 proxy whose reply names the address \<open>localhost\<close>, and a relay to no endpoint.\<close>

definition overrun_sys :: sys where
  "overrun_sys = connecting\<lparr>rd_q := (rd_q (socks_sys name_tail))(3 := rd_q (socks_sys name_tail) 4)\<rparr>"

definition overrun_argv :: "string list" where
  "overrun_argv = [''wirecat'', ''connect'', ''--proxy'', ''socks5://p:1'', ''example.com'', ''80'']"

definition nowhere_argv :: "string list" where
  "nowhere_argv = [''wirecat'', ''relay'', ''-'', ''nowhere'']"

text \<open>Both ends of an HTTP CONNECT.\<close>

definition http_ok :: string where "http_ok = ''HTTP/1.1 200 OK'' @ crlf @ crlf"

text \<open>One byte of each read, as a socket may deliver them.\<close>

definition http_client :: sys where
  "http_client = sys0\<lparr>rd_q := (\<lambda>_. [])(4 := map (\<lambda>x. RdData [x]) http_ok)\<rparr>"

definition http_server :: sys where
  "http_server = sys0\<lparr>rd_q := (\<lambda>_. [])(5 := map (\<lambda>x. RdData [x]) (http_connect_request ''h'' ''80'' @ ''data''))\<rparr>"

text \<open>A terminal, a listener on descriptor 3 and one session on descriptor 4 that says \<open>hi\<close>.\<close>

definition multi_cfg :: wcat_config where
  "multi_cfg = wcat_config_init\<lparr>mode := WCAT_MODE_LISTEN, multi := True, broker_max_clients := 2, host := Some ''h'', port := Some ''1''\<rparr>"

definition multi_sys :: sys where
  "multi_sys = sys0\<lparr>gai_q := [GaiOk [SaInet ''a'']], socket_q := [None], bind_q := [None], listen_q := [None],
     tty := (\<lambda>f. f = 0), term_q := [True, True, True],
     acc_q := (\<lambda>_. [])(3 := [AccOk PeerOther ''p'' ''7'']), rd_q := (\<lambda>_. [])(4 := [RdData (''hi'' @ nl)]),
     poll_q := [ready [(3, {POLLIN})], ready [(4, {POLLIN})]]\<rparr>"

text \<open>Session 1 is attached on descriptor 4; three sessions, the second of which is gone.\<close>

definition on_fd :: "fd \<Rightarrow> u32 \<Rightarrow> multi_session" where
  "on_fd f i = multi_session_init\<lparr>ms_fd := f, ms_id := i, ms_host := ''p'', ms_port := ''7''\<rparr>"

definition attached_to :: console where
  "attached_to = \<lparr>sessions = [on_fd 4 1], active = 1, attached = 1\<rparr>"

definition three_sessions :: "multi_session list" where
  "three_sessions = [on_fd 4 7, multi_session_init, on_fd 5 2, on_fd 6 9]"

text \<open>A QUIC handshake in which every library call succeeds and the certificate is good.\<close>

definition quic_sys :: sys where
  "quic_sys = connecting\<lparr>ssl_ok_q := replicate 40 True, ssl_verify_q := [None]\<rparr>"

section \<open>The broker\<close>

text \<open>
  C1. Whatever the operating system answers and the clients send, the broker loop, whenever it
  ends, has done the work of a list of Join, Leave and Say events of the specification: only peers
  the access lists admit are connected, the bytes received from each client are those it said in
  these events, what has been sent to it and what is still queued for it is (in raw mode) exactly
  what the others said since it joined, in order, and the queue is within the configured limit.
\<close>

theorem broker_history:
  assumes "broker_loop L cfg l mc mb broker_init s = (rc, b, s')" and "mc \<le> WCAT_BROKER_LIMIT"
  shows "\<exists>es. events_ok (admitted L cfg) (chat cfg) es (\<lambda>_. None)
    \<and> fanouts (chat cfg) es (\<lambda>_. None) = table_of (clients b) s'
    \<and> (\<forall>j < mc. 0 \<le> cfd (clients b ! j) \<longrightarrow>
         admitted L cfg (peer_of s' (cfd (clients b ! j)))
         \<and> got s' (cfd (clients b ! j)) = spoke j es []
         \<and> length (pending (clients b ! j)) \<le> mb
         \<and> (\<not> chat cfg \<longrightarrow> sent s' (cfd (clients b ! j)) @ pending (clients b ! j) = heard j es []))"
  using assms by (rule broker_loop_history)

theorem broker_history_witness:
  "\<exists>b s'. broker_loop posix_inet broker_cfg 3 2 1024 broker_init two_clients = (1, b, s')
     \<and> map cfd (take 2 (clients b)) = [4, 5] \<and> sent s' 5 = ''hi'' \<and> got s' 4 = ''hi''
     \<and> (\<exists>es. fanouts False es (\<lambda>_. None) = table_of (clients b) s' \<and> heard 1 es [] = ''hi'')"
proof -
  let ?r = "broker_loop posix_inet broker_cfg 3 2 1024 broker_init two_clients"
  have v: "(fst ?r, map cfd (take 2 (clients (fst (snd ?r)))), cfd (clients (fst (snd ?r)) ! 1),
      pending (clients (fst (snd ?r)) ! 1), sent (snd (snd ?r)) 5, got (snd (snd ?r)) 4, chat broker_cfg)
      = (1, [4, 5], 5, [], ''hi'', ''hi'', False)"
    by code_simp
  obtain b s' where r: "?r = (1, b, s')" using v by (cases ?r) simp
  then have c: "cfd (clients b ! 1) = 5" "pending (clients b ! 1) = []" using v by simp_all
  have "(2::nat) \<le> WCAT_BROKER_LIMIT" by code_simp
  from broker_history [OF r this] obtain es where
    es: "fanouts (chat broker_cfg) es (\<lambda>_. None) = table_of (clients b) s'"
    "0 \<le> cfd (clients b ! 1) \<Longrightarrow> \<not> chat broker_cfg \<Longrightarrow>
       sent s' (cfd (clients b ! 1)) @ pending (clients b ! 1) = heard 1 es []"
    by (meson one_less_numeral_iff semiring_norm(76))
  then have "fanouts False es (\<lambda>_. None) = table_of (clients b) s'" "heard 1 es [] = ''hi''"
    using c v r by simp_all
  with r v show ?thesis by auto
qed

text \<open>
  C2. One pass of the loop keeps the invariant of the client table (descriptors distinct and open,
  queues within their arrays and the limit, nothing else opened or closed) and refines the
  specification: the table it leaves follows from the one it found by possible events.
\<close>

theorem broker_pass_refines_fanout:
  assumes "table_inv mc mb base (clients b) s" and "broker_pass L cfg l mc mb b s = (brk, b', s')"
  shows "table_inv mc mb base (clients b') s'
    \<and> follows (admitted L cfg) (chat cfg) (table_of (clients b) s) (table_of (clients b') s')"
  using simulates_pass [OF assms] by (simp_all add: simulates_def)

theorem broker_pass_refines_fanout_witness:
  "table_inv 2 1024 {0, 1, 2, 3} (clients (fst (snd (broker_pass posix_inet broker_cfg 3 2 1024 broker_init two_clients))))
     (snd (snd (broker_pass posix_inet broker_cfg 3 2 1024 broker_init two_clients)))
   \<and> open_fds (snd (snd (broker_pass posix_inet broker_cfg 3 2 1024 broker_init two_clients))) = [0, 1, 2, 3, 4]"
  (is "table_inv _ _ _ (clients (fst (snd ?r))) _ \<and> _")
proof -
  have "table_inv 2 1024 {0, 1, 2, 3} (clients broker_init) two_clients"
    using table_inv_init(1) [of 2 1024 two_clients] by (simp add: WCAT_BROKER_LIMIT_def two_clients_def)
  then have "table_inv 2 1024 {0, 1, 2, 3} (clients (fst (snd ?r))) (snd (snd ?r))"
    using broker_pass_refines_fanout [of 2 1024 "{0, 1, 2, 3}" broker_init two_clients posix_inet broker_cfg 3]
    by (metis prod.collapse)
  moreover have "open_fds (snd (snd ?r)) = [0, 1, 2, 3, 4]" by code_simp
  ultimately show ?thesis by blast
qed

text \<open>
  A whole run of the broker, from the listening socket to the cleanup, leaves exactly the
  descriptors open that were open before, on every path, and returns 0, 1 or 2.
\<close>

theorem broker_run_no_leak:
  "set (open_fds (snd (wcat_broker_run L cfg s))) = set (open_fds s)
   \<and> fst (wcat_broker_run L cfg s) \<in> {0, 1, 2}"
  using wcat_broker_run_effect [of L cfg s] by (metis prod.collapse)

text \<open>
  C3. Any sequence of \<open>queue_bytes\<close> and \<open>flush_client\<close> calls that succeed on a client is a FIFO
  queue: what has been sent, followed by what is queued, is what it was before followed by the
  messages in the order they were queued. No partial write loses, repeats or reorders a byte.
\<close>

theorem client_queue_fifo:
  assumes "client_ok mb c" and "0 \<le> cfd c"
    and "run_ops (\<lambda>c m. queue_bytes c m mb) flush_client ops c s = Some (c', s')"
  shows "sent s' (cfd c) @ pending c' = sent s (cfd c) @ pending c @ enqueued ops"
  using client_queue.run_ops_fifo [of mb c ops s c' s'] assms by simp

theorem client_queue_fifo_witness:
  "\<exists>c' s'. run_ops (\<lambda>c m. queue_bytes c m 16) flush_client fifo_ops one_client fifo_sys = Some (c', s')
     \<and> sent s' 4 = ''abc'' \<and> pending c' = ''def'' \<and> sent s' 4 @ pending c' = ''ab'' @ ''cdef''"
proof -
  let ?r = "run_ops (\<lambda>c m. queue_bytes c m 16) flush_client fifo_ops one_client fifo_sys"
  have v: "map_option (\<lambda>(c', s'). (sent s' 4, pending c')) ?r = Some (''abc'', ''def'')" by code_simp
  then obtain c' s' where r: "?r = Some (c', s')" by (cases ?r) auto
  have i: "client_ok 16 one_client" "0 \<le> cfd one_client" by code_simp+
  have "cfd one_client = 4" "pending one_client = ''ab''" "sent fifo_sys 4 = []" "enqueued fifo_ops = ''cdef''" by code_simp+
  with client_queue_fifo [OF i r] v r show ?thesis by auto
qed

text \<open>
  C4. Broadcasting a message gives it, at the end of its stream, to every connected client but the
  sender; a client is dropped instead only if its queue would exceed the limit or memory ran out.
  The sender and everything already sent stay as they are.
\<close>

theorem broadcast_delivers:
  assumes "table_inv mc mb base cs s" and "broadcast [0..<mc] i msg mb cs s = (cs', s')"
  shows "(\<forall>k < mc. k \<noteq> i \<and> 0 \<le> cfd (cs ! k) \<longrightarrow>
      table_of cs' s' k = Some ((slot_of (cs ! k) s)\<lparr>s_stream := sent s (cfd (cs ! k)) @ pending (cs ! k) @ msg\<rparr>)
      \<or> cfd (cs' ! k) = - 1 \<and> (mb < length (pending (cs ! k)) + length msg \<or> False \<in> set (alloc_q s)))
    \<and> cs' ! i = cs ! i \<and> sent s' = sent s"
proof -
  have mc: "mc \<le> length cs" using assms(1) unfolding table_inv_def by blast
  then have "\<forall>j \<in> set [0..<mc]. j < length cs" by simp
  note eff = broadcast_effect [OF assms(2,1) distinct_upt this]
  have "table_of cs' s' k = Some ((slot_of (cs ! k) s)\<lparr>s_stream := sent s (cfd (cs ! k)) @ pending (cs ! k) @ msg\<rparr>)
      \<or> cfd (cs' ! k) = - 1 \<and> (mb < length (pending (cs ! k)) + length msg \<or> False \<in> set (alloc_q s))"
    if k: "k < mc" "k \<noteq> i" "0 \<le> cfd (cs ! k)" for k
  proof (cases "table_of cs' s' k")
    case None
    have l: "k < length cs" "length cs' = length cs" using eff k(1) mc by simp_all
    have neg: "cfd (cs' ! k) < 0" using None l unfolding table_of_def by (metis leI option.distinct(1))
    have "client_ok mb (cs' ! k)" using table_inv_ok [OF conjunct1 [OF eff]] l by simp
    then have "cfd (cs' ! k) = - 1" using neg by (simp add: client_ok_def)
    moreover have "drops_justified mb msg cs s cs'" using eff by blast
    ultimately show ?thesis using neg l k(3) unfolding drops_justified_def by blast
  next
    case (Some x)
    have "table_of cs s k = Some (slot_of (cs ! k) s)" using k mc by (simp add: table_of_def)
    moreover have "delivered [0..<mc] i msg (table_of cs s) (table_of cs' s')" using eff by blast
    then have "table_of cs' s' k = map_option (\<lambda>b. b\<lparr>s_stream := s_stream b @ msg\<rparr>) (table_of cs s k)"
      using k Some unfolding delivered_def by (drule_tac x = k in spec) simp
    ultimately show ?thesis by (simp add: slot_of_def)
  qed
  moreover have "cs' ! i = cs ! i" "sent s' = sent s" using eff by blast+
  ultimately show ?thesis by blast
qed

theorem broadcast_delivers_witness:
  "table_of (fst (broadcast [0..<2] 0 ''cd'' 4 two_slots two_open)) (snd (broadcast [0..<2] 0 ''cd'' 4 two_slots two_open)) 1
     = Some ((slot_of (two_slots ! 1) two_open)\<lparr>s_stream := ''abcd''\<rparr>)
   \<and> map cfd (fst (broadcast [0..<2] 0 ''cde'' 4 two_slots two_open)) = [4, - 1]"
proof -
  let ?r = "broadcast [0..<2] 0 ''cd'' 4 two_slots two_open"
  have inv: "table_inv 2 4 {0, 1, 2, 3} two_slots two_open"
    by (auto simp: table_inv_def two_slots_def two_open_def client_ok_def client_init_def client_fds_def
        less_Suc_eq nth_Cons' sys0_def)
  have v: "cfd (fst ?r ! 1) = 5" "cfd (two_slots ! 1) = 5" "pending (two_slots ! 1) = ''ab''" "sent two_open 5 = []"
    by code_simp+
  have "table_of (fst ?r) (snd ?r) 1 = Some ((slot_of (two_slots ! 1) two_open)\<lparr>s_stream := ''abcd''\<rparr>)"
    using broadcast_delivers [OF inv, of 0 "''cd''" "fst ?r" "snd ?r"] v by (auto dest: spec [of _ 1])
  moreover have "map cfd (fst (broadcast [0..<2] 0 ''cde'' 4 two_slots two_open)) = [4, - 1]" by code_simp
  ultimately show ?thesis by blast
qed

text \<open>
  C5. Flushing empties the queue of a client whose descriptor takes what it is given (in pieces of
  any size, interrupted or not): the call returns 0 and everything queued has been sent, in order.
\<close>

theorem flush_sends_everything:
  assumes "writable (wr_q s (cfd c))" and "client_ok mb c" and "0 \<le> cfd c"
  shows "\<exists>c' s'. flush_client c s = (0, c', s') \<and> pending c' = [] \<and> sent s' (cfd c) = sent s (cfd c) @ pending c"
  using assms by (rule flush_client_complete)

theorem flush_sends_everything_witness:
  "\<exists>c' s'. flush_client one_client (sys0\<lparr>wr_q := (\<lambda>_. [])(4 := [WrErr EINTR, WrOk 1])\<rparr>) = (0, c', s')
     \<and> pending c' = [] \<and> sent s' 4 = ''ab''"
proof -
  have "writable [WrErr EINTR, WrOk 1]" by (simp add: writable_def)
  moreover have "client_ok 8 one_client" "cfd one_client = 4" "pending one_client = ''ab''" by code_simp+
  ultimately show ?thesis
    using flush_sends_everything [of "sys0\<lparr>wr_q := (\<lambda>_. [])(4 := [WrErr EINTR, WrOk 1])\<rparr>" one_client 8]
    by (auto simp: sys0_def)
qed

text \<open>
  C6. A chat message that is formatted holds no ASCII control character but newline and tab, so that no
  client can send the escape character to another (bytes from 0x80 on pass as they are), and the
  formatting does not depend on how the text was cut
  by the reads: the texts of two consecutive pieces make the text of the whole.
\<close>

theorem chat_message_clean_and_seamless:
  assumes "format_chat_message c m1 s = (Some a1, c1, s1)" and "format_chat_message c1 m2 s1 = (Some a2, c2, s2)"
    and "format_chat_message c (m1 @ m2) s = (Some a, c', s')"
  shows "list_all chat_clean a \<and> a = a1 @ a2 \<and> c' = c2"
proof -
  have "a = chat_text (cid c) (line_start c) (m1 @ m2)" "c' = c\<lparr>line_start := chat_bol (line_start c) (m1 @ m2)\<rparr>"
    using format_chat_message_effect(3) [OF assms(3)] by auto
  moreover have "a1 = chat_text (cid c) (line_start c) m1" "c1 = c\<lparr>line_start := chat_bol (line_start c) m1\<rparr>"
    using format_chat_message_effect(3) [OF assms(1)] by auto
  moreover from this have "a2 = chat_text (cid c) (chat_bol (line_start c) m1) m2"
    "c2 = c\<lparr>line_start := chat_bol (chat_bol (line_start c) m1) m2\<rparr>"
    using format_chat_message_effect(3) [OF assms(2)] by auto
  ultimately show ?thesis by (auto simp: chat_text_append chat_text_clean chat_bol_def)
qed

theorem chat_message_clean_and_seamless_witness:
  "fst (format_chat_message one_client (''a'' @ [CHR 0x0A, CHR 0x1B] @ ''b'') sys0)
     = Some (''<client7> a'' @ [CHR 0x0A] @ ''<client7> '' @ [CHR 0x5C] @ ''x1bb'')
   \<and> list_all chat_clean (''<client7> a'' @ [CHR 0x0A] @ ''<client7> '' @ [CHR 0x5C] @ ''x1bb'')"
proof -
  let ?m1 = "''a'' @ [CHR 0x0A]" and ?m2 = "[CHR 0x1B] @ ''b''"
  let ?a1 = "''<client7> a'' @ [CHR 0x0A]" and ?a2 = "''<client7> '' @ [CHR 0x5C] @ ''x1bb''"
  have p: "chat_prefix 7 = ''<client7> ''" "chat_char (CHR 0x1B) = [CHR 0x5C] @ ''x1b''" by code_simp+
  note eval = format_chat_message_def one_client_def client_init_def append_bytes_def append_cstr_def
    grow_cap.simps SIZE_MAX_def sys_alloc_def sys0_def of_char_def p
  have e1: "format_chat_message one_client ?m1 sys0 = (Some ?a1, one_client, sys0)"
    and e2: "format_chat_message one_client ?m2 sys0 = (Some ?a2, one_client\<lparr>line_start := False\<rparr>, sys0)"
    and e: "format_chat_message one_client (?m1 @ ?m2) sys0
      = (Some (?a1 @ ?a2), one_client\<lparr>line_start := False\<rparr>, sys0)"
    by (simp_all add: eval)
  from chat_message_clean_and_seamless [OF e1 e2 e] have "list_all chat_clean (?a1 @ ?a2)" by (rule conjunct1)
  with e show ?thesis by simp
qed

text \<open>
  C7. The growing buffer: an append that succeeds puts exactly the new bytes behind the old ones and
  the capacity covers them; it fails only when the length would not fit \<open>size_t\<close> or \<open>realloc\<close> fails.
\<close>

theorem append_bytes_safe:
  assumes "length (fst b) \<le> snd b" and "length (fst b) \<le> SIZE_MAX"
  shows "case fst (append_bytes b buf s) of
           Some b' \<Rightarrow> fst b' = fst b @ buf \<and> length (fst b') \<le> snd b' \<and> length (fst b') \<le> SIZE_MAX
         | None \<Rightarrow> SIZE_MAX < length (fst b) + length buf \<or> False \<in> set (alloc_q s)"
proof (cases "append_bytes b buf s")
  case (Pair r s')
  note eff = append_bytes_effect [OF Pair]
  show ?thesis
  proof (cases r)
    case None
    with Pair show ?thesis
      by (auto simp: append_bytes_def Let_def sys_alloc_def split: if_splits list.splits)
  next
    case (Some b')
    have "length (fst b @ buf) \<le> SIZE_MAX"
      using Pair Some assms(2) by (auto simp: append_bytes_def Let_def split: if_splits prod.splits)
    with eff Some Pair assms show ?thesis by simp
  qed
qed

theorem append_bytes_safe_witness:
  "fst (append_bytes (''ab'', 2) ''cd'' sys0) = Some (''abcd'', 4)
   \<and> (case fst (append_bytes (''ab'', 2) ''cd'' sys0) of
        Some b' \<Rightarrow> fst b' = ''ab'' @ ''cd'' \<and> length (fst b') \<le> snd b' \<and> length (fst b') \<le> SIZE_MAX
      | None \<Rightarrow> SIZE_MAX < 4 \<or> False \<in> set (alloc_q sys0))"
  using append_bytes_safe [of "(''ab'', 2)" "''cd''" sys0]
  by (simp add: append_bytes_def sys_alloc_def grow_cap.simps SIZE_MAX_def sys0_def)

section \<open>The relay\<close>

text \<open>
  C8. A bidirectional relay between two streams (descriptors or TLS connections) neither invents,
  drops, reorders nor mixes bytes: in each direction what has been written is a prefix of what has
  been read, and all of it when the relay returns 0. The only other result is -1.
\<close>

theorem relay_faithful:
  assumes "apart a b" and "wcat_relay_bidirectional a b opts s = (rc, r, s')"
  shows "rc \<in> {0, - 1}
    \<and> (\<exists>da da' db db'.
         got s' (stream_in a) = got s (stream_in a) @ da \<and> sent s' (stream_out b) = sent s (stream_out b) @ da'
         \<and> got s' (stream_in b) = got s (stream_in b) @ db \<and> sent s' (stream_out a) = sent s (stream_out a) @ db'
         \<and> prefix da' da \<and> prefix db' db \<and> (rc = 0 \<longrightarrow> da' = da \<and> db' = db))"
  using wcat_relay_bidirectional_faithful [OF assms] by blast

theorem relay_faithful_witness:
  "\<exists>r s'. wcat_relay_bidirectional stdio_end peer_end None relay_sys = (0, r, s')
     \<and> got s' 0 = ''ping'' \<and> sent s' 4 = ''ping'' \<and> got s' 4 = ''pong'' \<and> sent s' 1 = ''pong''"
proof -
  let ?r = "wcat_relay_bidirectional stdio_end peer_end None relay_sys"
  have v: "(fst ?r, got (snd (snd ?r)) 0, got (snd (snd ?r)) 4) = (0, ''ping'', ''pong'')" by code_simp
  obtain r s' where r: "?r = (0, r, s')" using v by (cases ?r) simp
  have a: "apart stdio_end peer_end" by code_simp
  have "stream_in stdio_end = 0" "stream_out stdio_end = 1" "stream_in peer_end = 4" "stream_out peer_end = 4"
    "sent relay_sys 1 = []" "sent relay_sys 4 = []" "got relay_sys 0 = []" "got relay_sys 4 = []" by code_simp+
  with relay_faithful [OF a r] r v show ?thesis by auto
qed

text \<open>
  C9. The one-way copy: what it writes to the destination is a prefix of what it reads from the
  source and all of it when it returns 0; no other descriptor is read or written.
\<close>

theorem copy_faithful:
  assumes "wcat_copy_stream src dst opts s = (rc, s')"
  shows "rc \<in> {0, - 1} \<and> (\<exists>d d'. got s' = (got s)(stream_in src := got s (stream_in src) @ d)
    \<and> sent s' = (sent s)(stream_out dst := sent s (stream_out dst) @ d') \<and> prefix d' d \<and> (rc = 0 \<longrightarrow> d' = d))"
  using wcat_copy_stream_faithful [OF assms] by (auto simp: moved_def)

theorem copy_faithful_witness:
  "\<exists>s'. wcat_copy_stream stdio_end peer_end None copy_sys = (0, s') \<and> got s' 0 = ''abc'' \<and> sent s' 4 = ''abc''"
proof -
  let ?r = "wcat_copy_stream stdio_end peer_end None copy_sys"
  have v: "(fst ?r, got (snd ?r) 0) = (0, ''abc'')" by code_simp
  obtain s' where r: "?r = (0, s')" using v by (cases ?r) simp
  have "stream_in stdio_end = 0" "stream_out peer_end = 4" "sent copy_sys 4 = []" "got copy_sys 0 = []" by code_simp+
  with copy_faithful [OF r] r v show ?thesis by auto
qed

text \<open>
  C10. The copy between descriptors (not TLS) terminates with everything: when the source delivers data
  and then end of file, the destination takes what it is given (in pieces, interrupted or not) and no
  signal arrives, the
  call returns 0 and the destination has received exactly the data of the source.
\<close>

theorem copy_complete:
  assumes "st_tls src = None" and "st_tls dst = None"
    and "data_only (rd_q s (raw_fd src))" and "writable (wr_q s (write_fd dst))"
    and "sig_q s = []" and "\<not> wcat_stop s"
  shows "\<exists>s'. wcat_copy_stream src dst opts s = (0, s')
    \<and> sent s' (write_fd dst) = sent s (write_fd dst) @ script_data (rd_q s (raw_fd src))"
  using assms by (rule wcat_copy_stream_complete)

theorem copy_complete_witness:
  "\<exists>s'. wcat_copy_stream stdio_end peer_end None copy_sys = (0, s') \<and> sent s' 4 = ''abc''"
proof -
  have "st_tls stdio_end = None" "st_tls peer_end = None" "raw_fd stdio_end = 0" "write_fd peer_end = 4"
    "sent copy_sys 4 = []" "script_data (rd_q copy_sys 0) = ''abc''" "sig_q copy_sys = []" "\<not> wcat_stop copy_sys"
    by code_simp+
  moreover have "data_only (rd_q copy_sys 0)" "writable (wr_q copy_sys 4)"
    by (simp_all add: copy_sys_def data_only_def writable_def)
  ultimately show ?thesis using copy_complete [of stdio_end peer_end copy_sys None] by simp
qed

text \<open>
  C11. A failed read is taken for the end of the stream: \<open>pump_once\<close> returns 0, as at end of file,
  whatever the error of a raw descriptor (interruption and \<open>EAGAIN\<close> apart) and on a fatal TLS
  error. A transfer that a reset cuts short is reported as complete.
\<close>

theorem read_error_is_end_of_file:
  assumes "st_tls src = None \<and> rd_q s (raw_fd src) = RdErr e # q \<and> e \<noteq> EINTR \<and> e \<noteq> EAGAIN
    \<or> (\<exists>t. st_tls src = Some t \<and> ssl_rd_q s (tfd t) = SslRdFatal # q')"
  shows "fst (pump_once src dst lb opts s) = 0"
  using assms pump_once_read_error pump_once_tls_error by blast

theorem read_error_is_end_of_file_witness:
  "fst (pump_once peer_end stdio_end ''a>b'' None (sys0\<lparr>rd_q := (\<lambda>_. [])(4 := [RdErr ECONNRESET])\<rparr>)) = 0"
  by (rule read_error_is_end_of_file [of _ _ ECONNRESET "[]" "[]"]) (simp add: peer_end_def wcat_stream_from_fd_def)

text \<open>
  C12. The idle timeout and TLS. A poll that reports nothing ends the relay with a warning when both
  streams are plain. When one of them is a TLS or QUIC connection the same poll only sends the loop
  round again, for every timeout of a whole second or more and for none at all; of the values that
  \<open>--timeout\<close> accepts, 0 is the only one that still ends it. The timeout that the user asks for is
  lost.
\<close>

theorem idle_timeout_only_without_tls:
  assumes "poll_q s = PollReady (\<lambda>_. {}) # q"
  shows "relay_poll af bf tmo opts r s =
      (if (has_tick (sa r) \<or> has_tick (sb r)) \<and> (tmo < 0 \<or> 50 < tmo) then (None, r, s\<lparr>poll_q := q\<rparr>)
       else (Some 0, r, wcat_log WCAT_LOG_WARN ''timeout'' ''relay timed out'' (s\<lparr>poll_q := q\<rparr>)))
    \<and> wcat_parse_timeout_ms v \<in> {- 1, 0} \<union> {1000..}"
proof -
  have "0 \<le> t \<Longrightarrow> t mod 1000 = 0 \<Longrightarrow> t = 0 \<or> 1000 \<le> t" for t :: int
    using mod_pos_pos_trivial [of t 1000] by linarith
  with wcat_parse_timeout_ms_range [of v] have "wcat_parse_timeout_ms v \<in> {- 1, 0} \<union> {1000..}" by auto
  with relay_poll_idle [OF assms] show ?thesis by (intro conjI)
qed

theorem idle_timeout_only_without_tls_witness:
  "(let plain = \<lparr>sa = stdio_end, sb = peer_end, a_active = True, b_active = True\<rparr>;
        secure = plain\<lparr>sb := wcat_stream_from_tls (tls_zero\<lparr>tfd := 4\<rparr>) ''tls''\<rparr>;
        idle = sys0\<lparr>poll_q := [PollReady (\<lambda>_. {})]\<rparr>
    in fst (relay_poll 0 4 1000 None secure idle) = None \<and> fst (relay_poll 0 4 0 None secure idle) = Some 0
       \<and> fst (relay_poll 0 4 1000 None plain idle) = Some 0)
   \<and> wcat_parse_timeout_ms (Some ''7'') \<in> {- 1, 0} \<union> {1000..}"
proof -
  have p: "poll_q (sys0\<lparr>poll_q := [PollReady (\<lambda>_. {})]\<rparr>) = PollReady (\<lambda>_. {}) # []" by simp
  note idle = idle_timeout_only_without_tls [OF p]
  show ?thesis unfolding Let_def conjunct1 [OF idle]
    using conjunct2 [OF idle] by (simp add: has_tick_def stdio_end_def peer_end_def wcat_stream_from_fd_def
        wcat_stream_from_fd_pair_def wcat_stream_from_tls_def)
qed

text \<open>
  A descriptor on which \<open>poll\<close> reports only \<open>POLLERR\<close> or \<open>POLLNVAL\<close> is neither read nor
  closed nor retired: the pass changes nothing but the script of poll answers, so that the loop
  spins for as long as the condition lasts.
\<close>

theorem error_only_poll_spins:
  assumes "poll_q s = PollReady f # q" and "\<And>x. f x \<subseteq> {POLLERR, POLLNVAL}" and "f af \<noteq> {}"
    and "a_active r" and "0 \<le> af"
  shows "relay_poll af bf tmo opts r s = (None, r, s\<lparr>poll_q := q\<rparr>)"
  using assms by (rule relay_poll_error_only)

theorem error_only_poll_spins_witness:
  "relay_poll 0 4 1000 None \<lparr>sa = stdio_end, sb = peer_end, a_active = True, b_active = True\<rparr>
     (sys0\<lparr>poll_q := [PollReady (\<lambda>x. if x = 0 then {POLLERR} else {})]\<rparr>)
   = (None, \<lparr>sa = stdio_end, sb = peer_end, a_active = True, b_active = True\<rparr>, sys0)"
  using error_only_poll_spins [of "sys0\<lparr>poll_q := [PollReady (\<lambda>x. if x = 0 then {POLLERR} else {})]\<rparr>"
      "\<lambda>x. if x = 0 then {POLLERR} else {}" "[]" 0
      "\<lparr>sa = stdio_end, sb = peer_end, a_active = True, b_active = True\<rparr>" 4 1000 None]
  by (simp add: sys0_def)

section \<open>Files and the program\<close>

text \<open>
  C13. Sending a file: when the program reports success and no signal stopped it, the connection it
  made has been given what the proxy is told (nothing without one) and then exactly the data of the
  file it opened, all of it and in order; with TLS these are the bytes given to the TLS library. A
  short write or an interruption loses nothing. After SIGINT or SIGTERM success is reported too, for
  the part that was sent by then.
\<close>

theorem send_delivers_file:
  assumes "wcat_send_file cfg s = (Ret 0, s')"
  shows "\<exists>f s1 pr sock s2 d. sys_open s = (f, s1) \<and> wcat_proxy_parse (proxy_url cfg) = Some pr
    \<and> send_connect cfg pr s1 = (Ret sock, s2) \<and> 0 \<le> f \<and> 0 \<le> sock \<and> f \<noteq> sock
    \<and> sent s' sock = (if udp cfg then [] else proxy_preamble pr (host cfg) (port cfg)) @ d
    \<and> prefix d (stream_data (rd_q s1 f)) \<and> (\<not> wcat_stop s' \<longrightarrow> d = stream_data (rd_q s1 f))"
  using assms by (rule send_file_delivers)

theorem send_delivers_file_witness:
  "\<exists>s' sock s2. wcat_send_file send_cfg send_sys = (Ret 0, s')
     \<and> send_connect send_cfg no_proxy (snd (sys_open send_sys)) = (Ret sock, s2) \<and> sent s' sock = ''data''"
proof -
  let ?r = "wcat_send_file send_cfg send_sys"
  have v: "(fst ?r, wcat_stop (snd ?r), fst (sys_open send_sys)) = (Ret 0, False, 3)" by code_simp
  have c: "udp send_cfg = False" "wcat_proxy_parse (proxy_url send_cfg) = Some no_proxy"
    "proxy_preamble no_proxy (host send_cfg) (port send_cfg) = []"
    "stream_data (rd_q (snd (sys_open send_sys)) 3) = ''data''" by code_simp+
  obtain s' where r: "?r = (Ret 0, s')" using v by (cases ?r) simp
  from send_delivers_file [OF r] obtain f s1 pr sock s2 d where
    d: "sys_open send_sys = (f, s1)" "wcat_proxy_parse (proxy_url send_cfg) = Some pr"
      "send_connect send_cfg pr s1 = (Ret sock, s2)"
      "sent s' sock = (if udp send_cfg then [] else proxy_preamble pr (host send_cfg) (port send_cfg)) @ d"
      "\<not> wcat_stop s' \<longrightarrow> d = stream_data (rd_q s1 f)" by blast
  with r v c have "pr = no_proxy" "s1 = snd (sys_open send_sys)" "f = 3" "d = ''data''" by simp_all
  with d c r show ?thesis by auto
qed

text \<open>
  C14. Receiving a file: when the program reports success and no signal stopped it, the file it opened
  holds exactly the data of the connection it accepted, the access lists having allowed its peer
  (the plaintext with TLS), or of the UDP socket it bound.
\<close>

theorem recv_stores_file:
  assumes "wcat_recv_file L cfg s = (0, s')"
  shows "\<exists>f s1 l s2 c s3 d. sys_open s = (f, s1) \<and> 0 \<le> f
    \<and> (if udp cfg then wcat_udp_bind (host cfg) (port cfg) (family cfg) s1 = (l, s2) \<and> c = l \<and> s3 = s2
       else wcat_tcp_listen (host cfg) (port cfg) (family cfg) 16 s1 = (l, s2)
         \<and> (\<exists>h p. accept_when_ready l s2 = (Some (c, h, p), s3)) \<and> fst (wcat_access_check_fd L cfg c s3))
    \<and> 0 \<le> c \<and> c \<noteq> f \<and> sent s' f = d
    \<and> prefix d (if tls cfg \<and> \<not> udp cfg then ssl_data (ssl_rd_q s3 c) else stream_data (rd_q s3 c))
    \<and> (\<not> wcat_stop s' \<longrightarrow>
         d = (if tls cfg \<and> \<not> udp cfg then ssl_data (ssl_rd_q s3 c) else stream_data (rd_q s3 c)))"
  using assms by (rule recv_file_keeps)

theorem recv_stores_file_witness:
  "\<exists>s' l s2 c h p s3. wcat_recv_file posix_inet send_cfg recv_sys = (0, s')
     \<and> wcat_tcp_listen (host send_cfg) (port send_cfg) (family send_cfg) 16 (snd (sys_open recv_sys)) = (l, s2)
     \<and> accept_when_ready l s2 = (Some (c, h, p), s3) \<and> sent s' 3 = stream_data (rd_q s3 c) \<and> sent s' 3 = ''file''"
proof -
  let ?r = "wcat_recv_file posix_inet send_cfg recv_sys"
  have v: "(fst ?r, wcat_stop (snd ?r), fst (sys_open recv_sys), sent (snd ?r) 3) = (0, False, 3, ''file'')" by code_simp
  have c: "udp send_cfg = False" "tls send_cfg = False" by code_simp+
  obtain s' where r: "?r = (0, s')" using v by (cases ?r) simp
  have ns: "\<not> wcat_stop s'" using r v by simp
  from recv_stores_file [OF r] obtain f s1 l s2 c s3 d h p where
    "sys_open recv_sys = (f, s1)"
    "wcat_tcp_listen (host send_cfg) (port send_cfg) (family send_cfg) 16 s1 = (l, s2)"
    "accept_when_ready l s2 = (Some (c, h, p), s3)" "sent s' f = stream_data (rd_q s3 c)"
    unfolding c using ns by (simp only: simp_thms if_False if_True) blast
  with r v show ?thesis by auto
qed

text \<open>
  C15. No mode of the program leaks a descriptor: for every command line without \<open>--exec\<close>, and
  whatever the operating system, the peers and the TLS library answer, \<open>main\<close> returns with exactly
  the descriptors open that were open at its start. (With \<open>--exec\<close> a connection stays open when the
  program cannot be started.)
\<close>

theorem program_closes_descriptors:
  assumes "wcat_main L sig argv s = (Ret rc, txt, s')" and "exec_path (snd (wcat_parse_args L argv)) = None"
  shows "set (open_fds s') = set (open_fds s)"
  using assms by (rule wcat_main_open_fds)

theorem program_closes_descriptors_witness:
  "\<exists>s'. wcat_main posix_inet (True, True) connect_argv connecting = (Ret 0, [], s')
     \<and> sock_peer s' 3 = Some (SaInet ''a'') \<and> sent s' 1 = ''pong'' \<and> set (open_fds s') = {0, 1, 2}"
proof -
  let ?r = "wcat_main posix_inet (True, True) connect_argv connecting"
  have v: "(fst ?r, fst (snd ?r), sock_peer (snd (snd ?r)) 3, sent (snd (snd ?r)) 1)
      = (Ret 0, [], Some (SaInet ''a''), ''pong'')" by code_simp
  have c: "exec_path (snd (wcat_parse_args posix_inet connect_argv)) = None" "set (open_fds connecting) = {0, 1, 2}" by code_simp+
  obtain s' where r: "?r = (Ret 0, [], s')" using v by (cases ?r) simp
  from program_closes_descriptors [OF r c(1)] c(2) r v show ?thesis by auto
qed

text \<open>
  C16. The end of the program, in every mode and on every path. The exit status is 0, 1 or 2; 2 means
  a usage error (a command line that is not accepted, a relay endpoint that is none, a file to be sent
  through a proxy whose URL cannot be read), and a usage error never ends with 0. The only way to end
  without a status is the overrun of the reply buffer in the negotiation with a SOCKS5 proxy that was
  asked for, in the modes \<open>connect\<close> and \<open>send\<close>: the proxy has then answered with a name or an IPv6
  address of more than ten bytes.
\<close>

theorem program_exit_status:
  "case wcat_main L sig argv s of
     (Ret rc, txt, s') \<Rightarrow> rc \<in> {0, 1, 2} \<and> (rc = 2 \<longrightarrow> usage_error L argv) \<and> (rc = 0 \<longrightarrow> \<not> usage_error L argv)
   | (Overrun, txt, s') \<Rightarrow> \<exists>cfg. wcat_parse_args L argv = (0, cfg) \<and> mode cfg \<in> {WCAT_MODE_CONNECT, WCAT_MODE_SEND}
       \<and> overrun_by_proxy cfg s'"
  by (rule wcat_main_result)

theorem program_exit_status_witness:
  "(\<exists>txt s' cfg. wcat_main posix_inet (True, True) overrun_argv overrun_sys = (Overrun, txt, s')
      \<and> wcat_parse_args posix_inet overrun_argv = (0, cfg) \<and> overrun_by_proxy cfg s')
   \<and> fst (wcat_main posix_inet (True, True) nowhere_argv connecting) = Ret 2 \<and> usage_error posix_inet nowhere_argv
   \<and> fst (wcat_main posix_inet (True, True) connect_argv connecting) = Ret 0 \<and> \<not> usage_error posix_inet connect_argv"
proof -
  have v: "fst (wcat_main posix_inet (True, True) overrun_argv overrun_sys) = Overrun"
    "fst (wcat_main posix_inet (True, True) nowhere_argv connecting) = Ret 2"
    "fst (wcat_main posix_inet (True, True) connect_argv connecting) = Ret 0" by code_simp+
  show ?thesis
    using v program_exit_status [where L = posix_inet and sig = "(True, True)" and argv = overrun_argv and s = overrun_sys]
      program_exit_status [where L = posix_inet and sig = "(True, True)" and argv = nowhere_argv and s = connecting]
      program_exit_status [where L = posix_inet and sig = "(True, True)" and argv = connect_argv and s = connecting]
    by (auto simp: prod_eq_iff split: prod.splits)
qed

section \<open>Proxies and child processes\<close>

text \<open>
  C17. The SOCKS5 negotiation, when it succeeds: the request that was sent decodes (after RFC 1928)
  to exactly the host and the port that were asked for, and of the reply exactly the bytes of its
  two messages have been consumed, whatever the reads cut them into, so that the first byte of the
  connection itself is the next one read.
\<close>

theorem socks5_request_roundtrip:
  assumes "socks5_negotiate fd h p s = (Ret 0, s')"
  shows "\<exists>req v r atyp d. sent s' = (sent s)(fd := sent s fd @ socks5_hello @ req)
    \<and> socks5_decode req = Some (h, nat (wcat_parse_port (Some p)))
    \<and> got s' = (got s)(fd := got s fd @ [CHR 0x05, CHR 0x00, v, CHR 0x00, r, atyp] @ d) \<and> reply_tail_ok atyp d"
proof -
  let ?q = "wcat_parse_port (Some p)"
  from socks5_negotiate_effect [OF assms] obtain v r atyp d where
    e: "length h \<le> 255" "1 \<le> ?q" "sent s' = (sent s)(fd := sent s fd @ socks5_hello @ socks5_request h ?q)"
      "got s' = (got s)(fd := got s fd @ [CHR 0x05, CHR 0x00, v, CHR 0x00, r, atyp] @ d)" "reply_tail_ok atyp d" by blast
  have "socks5_decode (socks5_request h ?q) = Some (h, nat ?q)"
    using e(1,2) wcat_parse_port_range [of "Some p"] by (intro socks5_decode_request) auto
  with e(3-5) show ?thesis by blast
qed

theorem socks5_request_roundtrip_witness:
  "\<exists>s' req. socks5_negotiate 4 ''example.com'' ''80'' (socks_sys ipv4_tail) = (Ret 0, s')
     \<and> sent s' 4 = socks5_hello @ req \<and> socks5_decode req = Some (''example.com'', 80)"
proof -
  let ?r = "socks5_negotiate 4 ''example.com'' ''80'' (socks_sys ipv4_tail)"
  have "fst ?r = Ret 0" by code_simp
  then obtain s' where r: "?r = (Ret 0, s')" by (cases ?r) simp
  have "nat (wcat_parse_port (Some ''80'')) = 80" "sent (socks_sys ipv4_tail) 4 = []" by code_simp+
  with socks5_request_roundtrip [OF r] obtain req where
    "sent s' = (sent (socks_sys ipv4_tail))(4 := socks5_hello @ req)" "socks5_decode req = Some (''example.com'', 80)" by auto
  with r show ?thesis by auto
qed

text \<open>
  C18. The reply of a SOCKS5 server is stored in ten bytes. For a server that answers as RFC 1928
  has it, the negotiation succeeds for an IPv4 address and for a name of at most eight bytes; every
  other answer the code accepts, a longer name or an IPv6 address, is written past the end of the
  buffer.
\<close>

theorem socks5_reply_overruns:
  assumes "writable (wr_q s fd)" and "length h \<le> 255" and "1 \<le> wcat_parse_port (Some p)"
    and "arriving (rd_q s fd) = [CHR 0x05, CHR 0x00, v, CHR 0x00, r, atyp] @ d @ later" and "complete_tail atyp d"
  shows "fst (socks5_negotiate fd h p s)
    = (if atyp = CHR 0x01 \<or> atyp = CHR 0x03 \<and> code (d ! 0) \<le> 8 then Ret 0 else Overrun)"
  using socks5_outcome [OF assms] complete_tail_fits [OF assms(5)] by auto

theorem socks5_reply_overruns_witness:
  "fst (socks5_negotiate 4 ''example.com'' ''80'' (socks_sys ipv4_tail)) = Ret 0
   \<and> fst (socks5_negotiate 4 ''example.com'' ''80'' (socks_sys name_tail)) = Overrun"
proof -
  have w: "writable (wr_q (socks_sys x) 4)" for x by (simp add: socks_sys_def sys0_def writable_def)
  have p: "length ''example.com'' \<le> 255" "1 \<le> wcat_parse_port (Some ''80'')" by code_simp+
  have a: "arriving (rd_q (socks_sys ipv4_tail) 4) = [CHR 0x05, CHR 0x00, CHR 0x05, CHR 0x00, CHR 0x00, hd ipv4_tail] @ tl ipv4_tail @ []"
    "complete_tail (hd ipv4_tail) (tl ipv4_tail)" "hd ipv4_tail = CHR 0x01" by code_simp+
  have b: "arriving (rd_q (socks_sys name_tail) 4) = [CHR 0x05, CHR 0x00, CHR 0x05, CHR 0x00, CHR 0x00, hd name_tail] @ tl name_tail @ []"
    "complete_tail (hd name_tail) (tl name_tail)" "hd name_tail = CHR 0x03" "code (tl name_tail ! 0) = 9" by code_simp+
  show ?thesis
    using socks5_reply_overruns [OF w p a(1,2)] socks5_reply_overruns [OF w p b(1,2)] a(3) b(3,4) by simp
qed

text \<open>
  C19. The HTTP CONNECT client and the proxy server agree: what the client sent when its negotiation
  succeeded, arriving at the server in any pieces and followed by anything, is read by the server up
  to the end of the header and no further, and is understood as the host and the port the client
  asked for. The host and the port hold no blank, no carriage return and no NUL, fit the server's
  buffers of 256 and 32 bytes, and the port is a valid one without a colon.
\<close>

theorem http_connect_agreement:
  assumes "http_connect_negotiate f h p s = (0, s')" and "arriving (rd_q t fd) = drop (length (sent s f)) (sent s' f) @ later"
    and "plain_text h" and "plain_text p" and "h \<noteq> []" and "length h < 256" and "length p < 32"
    and "CHR '':'' \<notin> set p" and "1 \<le> wcat_parse_port (Some p)"
  shows "\<exists>b t'. read_http_header fd 4096 [] t = (Some b, t') \<and> arriving (rd_q t' fd) = later
    \<and> parse_connect_request (c_string b) 256 32 = Some (h, p)"
proof -
  let ?q = "http_connect_request h p"
  have s: "arriving (rd_q t fd) = ?q @ later" using http_connect_effect [OF assms(1)] assms(2) by simp
  have l: "length ([] @ ?q) < 4096" "?q \<noteq> []" using assms(6,7) by (simp_all add: http_connect_request_def crlf_def)
  have e: "header_end ([] @ ?q)" using request_header_end [OF assms(3,4)] by simp
  have "CHR 0x00 \<notin> set ?q" using assms(3,4) by (auto simp: http_connect_request_def plain_text_def crlf_def)
  then have "c_string ?q = ?q" by (rule c_string_id)
  moreover obtain t' where "read_http_header fd 4096 [] t = (Some ?q, t')" "arriving (rd_q t' fd) = later"
    using read_http_header_arriving [OF e s l] by auto
  ultimately show ?thesis using parse_request [OF assms(3-9)] by auto
qed

theorem http_connect_agreement_witness:
  "\<exists>b t'. read_http_header 5 4096 [] http_server = (Some b, t') \<and> arriving (rd_q t' 5) = ''data''
     \<and> parse_connect_request (c_string b) 256 32 = Some (''h'', ''80'')"
proof -
  let ?r = "http_connect_negotiate 4 ''h'' ''80'' http_client"
  have v: "(fst ?r, sent (snd ?r) 4, sent http_client 4) = (0, http_connect_request ''h'' ''80'', [])" by code_simp
  then obtain s' where r: "?r = (0, s')" by (cases ?r) simp
  have a: "arriving (rd_q http_server 5) = http_connect_request ''h'' ''80'' @ ''data''" by code_simp
  have h: "plain_text ''h''" "plain_text ''80''" "1 \<le> wcat_parse_port (Some ''80'')" by code_simp+
  show ?thesis
    by (rule http_connect_agreement [OF r]) (use v r a h in simp_all)
qed

text \<open>
  C20. A program started for \<open>--exec\<close>, behind two pipes or a pseudo terminal: the parent holds
  exactly the new descriptors of the process, which were not open before, and one more child; and
  whatever has been done with them, \<open>wcat_process_close\<close> closes each of them once and nothing else.
\<close>

theorem process_spawn_close:
  assumes "wcat_process_spawn tt s = (0, proc, s1)"
    and "rest_of (set (process_fds proc)) s2 = rest_of (set (process_fds proc)) s1"
  shows "0 < proc_pid proc \<and> in_fd proc \<notin> set (open_fds s) \<and> out_fd proc \<notin> set (open_fds s)
    \<and> open_fds s1 = open_fds s @ process_fds proc \<and> children s1 = proc_pid proc # children s
    \<and> open_fds (snd (wcat_process_close proc s2)) = open_fds s"
  using spawn_ok [OF assms(1)] process_close_fds(1) [OF spawn_ok [OF assms(1)] assms(2)] by (simp add: spawned_def)

theorem process_spawn_close_witness:
  "\<exists>proc s1. wcat_process_spawn False (sys0\<lparr>pipe_q := [None, None], fork_q := [Inr 77]\<rparr>) = (0, proc, s1)
     \<and> process_fds proc = [4, 5] \<and> open_fds s1 = [0, 1, 2, 4, 5]
     \<and> open_fds (snd (wcat_process_close proc s1)) = [0, 1, 2]"
proof -
  let ?s = "sys0\<lparr>pipe_q := [None, None], fork_q := [Inr 77]\<rparr>"
  let ?r = "wcat_process_spawn False ?s"
  have v: "(fst ?r, process_fds (fst (snd ?r)), open_fds ?s) = (0, [4, 5], [0, 1, 2])" by code_simp
  then obtain proc s1 where r: "?r = (0, proc, s1)" by (cases ?r) simp
  from process_spawn_close [OF r refl] v r show ?thesis by simp
qed

section \<open>TLS\<close>

text \<open>
  C21. A client connection that \<open>wcat_tls_client_open\<close> opens with verification on is authenticated:
  the context verifies the peer against the given or the default certificate authorities, the
  name to check is the one asked for, TLS is at least 1.2, the stream owns the descriptor, and the
  verification of this handshake reported success.
\<close>

theorem tls_client_authenticated:
  assumes "wcat_tls_client_open fd servername True ca cert key s = (0, t, s')"
  shows "client_secure servername ca t \<and> None \<in> set (ssl_verify_q s)"
  using assms by (rule wcat_tls_client_open_secure)

theorem tls_client_authenticated_witness:
  "fst (wcat_tls_client_open 4 (Some ''h'') True None None None tls_sys) = 0
   \<and> client_secure (Some ''h'') None (fst (snd (wcat_tls_client_open 4 (Some ''h'') True None None None tls_sys)))
   \<and> fst (wcat_tls_client_open 4 (Some ''h'') True None None None (tls_sys\<lparr>ssl_verify_q := [Some ''expired'']\<rparr>)) = - 1"
proof -
  let ?r = "wcat_tls_client_open 4 (Some ''h'') True None None None tls_sys"
  have v: "fst ?r = 0" by code_simp
  then have "?r = (0, fst (snd ?r), snd (snd ?r))" by (simp add: prod_eq_iff)
  from tls_client_authenticated [OF this]
  have "client_secure (Some ''h'') None (fst (snd ?r))" by (rule conjunct1)
  moreover have "fst (wcat_tls_client_open 4 (Some ''h'') True None None None (tls_sys\<lparr>ssl_verify_q := [Some ''expired'']\<rparr>)) = - 1"
    by code_simp
  ultimately show ?thesis using v by blast
qed

text \<open>
  C22. A server connection that is opened with client certificates required has one: the context
  demands a certificate, checks it against the given authority, and the verification of this
  handshake reported success.
\<close>

theorem tls_server_authenticates_clients:
  assumes "wcat_tls_server_open fd cert key (Some ca) True s = (0, t, s')"
  shows "server_secure ca t \<and> None \<in> set (ssl_verify_q s)"
  using assms by (rule wcat_tls_server_open_secure)

theorem tls_server_authenticates_clients_witness:
  "fst (wcat_tls_server_open 4 (Some ''c'') (Some ''k'') (Some ''ca'') True tls_sys) = 0
   \<and> server_secure ''ca'' (fst (snd (wcat_tls_server_open 4 (Some ''c'') (Some ''k'') (Some ''ca'') True tls_sys)))"
proof -
  let ?r = "wcat_tls_server_open 4 (Some ''c'') (Some ''k'') (Some ''ca'') True tls_sys"
  have v: "fst ?r = 0" by code_simp
  then have "?r = (0, fst (snd ?r), snd (snd ?r))" by (simp add: prod_eq_iff)
  from tls_server_authenticates_clients [OF this] v show ?thesis by blast
qed

text \<open>
  Opening a TLS stream either succeeds with a stream that owns the (now non-blocking) socket,
  or fails with the socket closed, the stream zeroed and no other descriptor touched: on no path is
  the descriptor leaked or closed twice. This holds for the client and for the server.
\<close>

theorem tls_open_owns_or_closes:
  assumes "0 \<le> fd"
  shows "open_result fd s (wcat_tls_client_open fd sn vp ca cert key s)
    \<and> open_result fd s (wcat_tls_server_open fd cert' key' ca' rq s)"
  using wcat_tls_client_open_result [OF assms] wcat_tls_server_open_result [OF assms] by blast

theorem tls_open_owns_or_closes_witness:
  "open_result 4 tls_sys (wcat_tls_client_open 4 None False None None None tls_sys)
   \<and> open_fds (snd (snd (wcat_tls_client_open 4 None False None None None (tls_sys\<lparr>ssl_ok_q := [False]\<rparr>)))) = [0, 1, 2]"
proof -
  have "(0::fd) \<le> 4" by simp
  note tls_open_owns_or_closes [OF this, of tls_sys None False None None None None None None False]
  moreover have "open_fds (snd (snd (wcat_tls_client_open 4 None False None None None (tls_sys\<lparr>ssl_ok_q := [False]\<rparr>)))) = [0, 1, 2]"
    by code_simp
  ultimately show ?thesis by blast
qed

text \<open>
  C23. A QUIC client connection opened with verification on demands the server's certificate, checks
  it against the configured CA file (or the system's) and is refused unless the library reported a
  successful verification.
\<close>

theorem quic_client_authenticated:
  assumes "wcat_quic_client_open cfg s = (0, t, s')" and "tls_verify cfg"
  shows "(\<exists>c. tctx t = Some c \<and> ctx_verify c = SSL_VERIFY_PEER
        \<and> ctx_ca c = Some (case ca_file cfg of Some f \<Rightarrow> CaFile f | None \<Rightarrow> CaDefault))
    \<and> None \<in> set (ssl_verify_q s)"
  using assms by (rule quic_client_open_secure)

theorem quic_client_authenticated_witness:
  "\<exists>t s'. wcat_quic_client_open send_cfg quic_sys = (0, t, s') \<and> tfd t = 3
     \<and> (\<exists>c. tctx t = Some c \<and> ctx_verify c = SSL_VERIFY_PEER \<and> ctx_ca c = Some CaDefault)"
proof -
  let ?r = "wcat_quic_client_open send_cfg quic_sys"
  have v: "(fst ?r, tfd (fst (snd ?r)), tls_verify send_cfg, ca_file send_cfg) = (0, 3, True, None)" by code_simp
  then obtain t s' where r: "?r = (0, t, s')" by (cases ?r) simp
  from quic_client_authenticated [OF r] r v show ?thesis by auto
qed

section \<open>The console of the multi-session listener\<close>

text \<open>
  C24. The multi-session listener, for every sequence of clients, keys and failures: it returns 0, 1
  or 2 with exactly the descriptors and children it found, and leaves the terminal out of raw mode
  if it found it so and the terminal answers.
\<close>

theorem multi_listen_releases:
  assumes "run_multi_listen L cfg s = (rc, s')"
  shows "open_fds s' = open_fds s \<and> mset (children s') = mset (children s) \<and> rc \<in> {0, 1, 2}
    \<and> (\<not> term_raw s \<and> (\<forall>b \<in> set (term_q s). b) \<longrightarrow> \<not> term_raw s')"
  using assms by (rule run_multi_listen_owns)

theorem multi_listen_releases_witness:
  "\<exists>s'. run_multi_listen posix_inet multi_cfg multi_sys = (1, s') \<and> sent s' 1 = ''[session1 peer p:7] hi'' @ nl
     \<and> open_fds s' = [0, 1, 2] \<and> \<not> term_raw s'"
proof -
  let ?r = "run_multi_listen posix_inet multi_cfg multi_sys"
  have v: "(fst ?r, sent (snd ?r) 1) = (1, ''[session1 peer p:7] hi'' @ nl)" by code_simp
  have i: "open_fds multi_sys = [0, 1, 2]" "\<not> term_raw multi_sys" "\<forall>b \<in> set (term_q multi_sys). b"
    by (simp_all add: multi_sys_def sys0_def)
  obtain s' where r: "?r = (1, s')" using v by (cases ?r) simp
  from multi_listen_releases [OF r] i r v show ?thesis by auto
qed

text \<open>
  C25. A line of input goes to the sessions it is for and to no other: a command \<open>:send\<close> to the session
  it names, with a newline; \<open>:all\<close> and \<open>:a\<close> to every live session; any other command to nobody; and a
  line that is no command to the active session, as it is. A session the line is for has been sent every
  byte of it and stays, or its descriptor did not take every byte: then it has been sent less, its slot
  is free and its descriptor closed. \<open>:kill\<close> closes the session it names. Every other session stays and
  has been sent nothing, and a free slot stays free.
\<close>

theorem line_reaches_addressed:
  assumes "own_fds m (sessions c)"
  shows "routed m (addressed m line c) (victim m line c) c s (multi_handle_input_line m line c s)"
  using assms by (rule line_routed)

theorem line_reaches_addressed_witness:
  "\<exists>c' s'. multi_handle_input_line 4 ('':all hi'' @ nl) (attached_to\<lparr>sessions := three_sessions\<rparr>)
       (sys0\<lparr>wr_q := (\<lambda>_. [])(6 := [WrOk 1, WrErr EPIPE])\<rparr>) = (c', s')
     \<and> sent s' 4 = ''hi'' @ nl \<and> sent s' 5 = ''hi'' @ nl \<and> strict_prefix (sent s' 6) (''hi'' @ nl)
     \<and> map ms_fd (sessions c') = [4, - 1, 5, - 1] \<and> 6 \<notin> set (open_fds s')"
proof -
  let ?c = "attached_to\<lparr>sessions := three_sessions\<rparr>" and ?l = "'':all hi'' @ nl"
  define u where "u = sys0\<lparr>wr_q := (\<lambda>_. [])(6 := [WrOk 1, WrErr EPIPE])\<rparr>"
  obtain c' s' where r: "multi_handle_input_line 4 ?l ?c u = (c', s')" by force
  define ss where "ss = sessions ?c"
  have l: "live ss 0" "\<not> live ss 1" "live ss 2" "live ss 3" "ms_fd (ss ! 0) = 4" "ms_fd (ss ! 2) = 5" "ms_fd (ss ! 3) = 6"
    and f: "length ss = 4" "map ms_fd (sessions (fst (multi_handle_input_line 4 ?l ?c u))) = [4, - 1, 5, - 1]"
    unfolding ss_def u_def by code_simp+
  have a: "addressed 4 ?l ?c = ([0, 2, 3], ''hi'' @ nl)" by code_simp
  have four: "k = 0 \<or> k = 1 \<or> k = 2 \<or> k = 3" if "k < 4" for k :: nat using that by arith
  have "inj_on (\<lambda>k. ms_fd (ss ! k)) {k. k < 4 \<and> live ss k}"
    by (rule inj_onI) (use l in \<open>auto dest!: four\<close>)
  then have "own_fds 4 (sessions ?c)" unfolding ss_def [symmetric] own_fds_def using f(1) by simp
  from line_reaches_addressed [OF this, of ?l u] have ro: "routed 4 ([0, 2, 3], ''hi'' @ nl) (victim 4 ?l ?c) ?c u (c', s')"
    unfolding a r .
  have sv: "served (''hi'' @ nl) (ms_fd (ss ! k)) (ms_fd (sessions c' ! k)) u s'" if "k < 4" "k \<in> set [0, 2, 3]" "live ss k" for k
    unfolding ss_def by (rule routed_served [OF ro that(1,2)]) (use that(3) ss_def in simp)
  have fd: "map ms_fd (sessions c') = [4, - 1, 5, - 1]" using f(2) r by simp
  have "length (sessions c') = 4" using arg_cong [OF fd, of length] by simp
  then have n: "ms_fd (sessions c' ! 0) = 4" "ms_fd (sessions c' ! 2) = 5" "ms_fd (sessions c' ! 3) = - 1"
    using arg_cong [OF fd, of "\<lambda>x. x ! 0"] arg_cong [OF fd, of "\<lambda>x. x ! 2"] arg_cong [OF fd, of "\<lambda>x. x ! 3"]
    by simp_all
  have w: "sent u g = []" "writable (wr_q u 4)" "writable (wr_q u 5)" for g by (simp_all add: u_def sys0_def writable_def)
  have "sent s' 4 = ''hi'' @ nl" "sent s' 5 = ''hi'' @ nl"
    using sv [of 0] sv [of 2] l n w by (auto simp: served_def remains_def lost_def)
  moreover have "strict_prefix (sent s' 6) (''hi'' @ nl)" "6 \<notin> set (open_fds s')"
    using sv [of 3] l n w by (auto simp: served_def remains_def lost_def)
  ultimately show ?thesis using r fd unfolding u_def by auto
qed

text \<open>
  C26. The line editor implements its specification: each byte is decoded into at most one key, and
  the text, the cursor and the history change as the key says on a text with a cursor in it; the
  buffers are never exceeded and hold printable text only; and a line is handed over exactly at
  Enter, with its newline when there is room for one.
\<close>

theorem editor_implements_keys:
  assumes "ed_ok e" and "editor_byte m ch e c s = (e', c', s')" and "decode (esc_state e) ch = (n, k)"
  shows "esc_state e' = n \<and> zip_of e' = edit k (zip_of e) \<and> ed_ok e'
    \<and> (if k = KEnter then (c', s') = multi_handle_input_line m (submitted (ed_input e)) c (eprint nl s) else c' = c)"
  using assms by (rule editor_byte_refines)

theorem editor_implements_keys_witness:
  "\<exists>e' s'. editor_byte 1 CHR ''D'' (new_editor\<lparr>ed_input := ''ab'', ed_cursor := 2, esc_state := 2\<rparr>) attached_to sys0
       = (e', attached_to, s')
     \<and> z_before (zip_of e') = ''a'' \<and> z_after (zip_of e') = ''b'' \<and> ed_ok e'"
proof -
  let ?e = "new_editor\<lparr>ed_input := ''ab'', ed_cursor := 2, esc_state := 2\<rparr>"
  obtain e' c' s' where r: "editor_byte 1 CHR ''D'' ?e attached_to sys0 = (e', c', s')" using prod_cases3 by blast
  have i: "ed_ok ?e" "decode (esc_state ?e) CHR ''D'' = (0, KLeft)" "z_before (edit KLeft (zip_of ?e)) = ''a''"
    "z_after (edit KLeft (zip_of ?e)) = ''b''" by code_simp+
  from editor_implements_keys [OF i(1) r i(2)] i(3,4) r show ?thesis by auto
qed

text \<open>
  C27. What is typed into an attached session reaches the peer, carriage return as newline, when the
  connection takes what is written and the bytes hold no erasure and no \<open>Ctrl-]\<close>. Of arbitrary such
  bytes, UTF-8 and control characters too, none is lost and none is doubled: each has been sent once or
  is held back because the line may still become a word that detaches. Printable text, tabs and line
  ends arrive in exactly the order typed. (Another byte is sent ahead of a text that is held back.)
\<close>

theorem typing_reaches_peer:
  assumes "reaches k f c s" and "ty_ok t" and "attached c \<noteq> 0" and "list_all sent_char b"
    and "attached_bytes k b t c s = (t', c', s')" and "attached c' \<noteq> 0"
  shows "reaches k f c' s' \<and> ty_ok t' \<and> attached c' = attached c
    \<and> mset (sent s' f @ pending_text t') = mset (sent s f @ pending_text t @ map as_sent b)
    \<and> (list_all typed_char b \<longrightarrow> sent s' f @ pending_text t' = sent s f @ pending_text t @ map as_sent b)"
  using assms by (rule typed_is_sent)

theorem typing_reaches_peer_witness:
  "\<exists>t' c' s'. attached_bytes 0 (''ls'' @ [CHR 0x0D] @ '':b'') new_typing attached_to sys0 = (t', c', s')
     \<and> sent s' 4 = ''ls'' @ nl \<and> sent s' 4 @ pending_text t' = ''ls'' @ nl @ '':b''"
proof -
  let ?r = "attached_bytes 0 (''ls'' @ [CHR 0x0D] @ '':b'') new_typing attached_to sys0"
  have v: "(attached (fst (snd ?r)), sent (snd (snd ?r)) 4) = (1, ''ls'' @ nl)" by code_simp
  have i: "list_all sent_char (''ls'' @ [CHR 0x0D] @ '':b'')" "list_all typed_char (''ls'' @ [CHR 0x0D] @ '':b'')"
    "attached attached_to \<noteq> 0" "pending_text new_typing = []"
    "map as_sent (''ls'' @ [CHR 0x0D] @ '':b'') = ''ls'' @ nl @ '':b''" "sent sys0 4 = []" by code_simp+
  have re: "reaches 0 4 attached_to sys0" by (simp add: reaches_def attached_to_def on_fd_def sys0_def writable_def)
  have ty: "ty_ok new_typing" by code_simp
  obtain t' c' s' where r: "?r = (t', c', s')" using prod_cases3 by blast
  have a: "attached c' \<noteq> 0" "sent s' 4 = ''ls'' @ nl" using v unfolding r by simp_all
  from typing_reaches_peer [OF re ty i(3,1) r a(1)] i(2) have
    "sent s' 4 @ pending_text t' = sent sys0 4 @ pending_text new_typing @ map as_sent (''ls'' @ [CHR 0x0D] @ '':b'')" by blast
  then have "sent s' 4 @ pending_text t' = ''ls'' @ nl @ '':b''" unfolding i(4-6) by simp
  with r a(2) show ?thesis by blast
qed

text \<open>
  C28. Lines of text typed into an attached session whose connection takes what is written: after any
  number of ordinary lines, the next line detaches exactly when it is one of \<open>back\<close>, \<open>:back\<close> and
  \<open>:detach\<close>. The peer has then been sent every ordinary line, each with a newline, and nothing of the
  word that detached.
\<close>

theorem detach_words_not_sent:
  assumes "reaches k f c s" and "attached c \<noteq> 0" and "at_line_start t0" and "eol = CHR 0x0D \<or> eol = CHR 0x0A"
    and "\<forall>v \<in> set ws. list_all printable v \<and> v \<notin> set detach_words" and "list_all printable w"
    and "attached_bytes k (typed_lines eol (ws @ [w])) t0 c s = (t, c', s')"
  shows "(attached c' = 0 \<longleftrightarrow> w \<in> set detach_words)
    \<and> sent s' f = sent s f @ concat (map (\<lambda>v. v @ nl) ws) @ (if w \<in> set detach_words then [] else w @ nl)"
  using assms by (rule detaching_line)

theorem detach_words_not_sent_witness:
  "\<exists>t c' s'. attached_bytes 0 (''ls'' @ [CHR 0x0D] @ '':back'' @ [CHR 0x0D]) new_typing attached_to sys0 = (t, c', s')
     \<and> attached c' = 0 \<and> sent s' 4 = ''ls'' @ nl"
proof -
  have b: "''ls'' @ [CHR 0x0D] @ '':back'' @ [CHR 0x0D] = typed_lines CHR 0x0D ([''ls''] @ ['':back''])" by code_simp
  obtain t c' s' where r: "attached_bytes 0 (typed_lines CHR 0x0D ([''ls''] @ ['':back''])) new_typing attached_to sys0 = (t, c', s')"
    using prod_cases3 by blast
  have i: "list_all printable '':back''" "list_all printable ''ls''" "attached attached_to \<noteq> 0" "sent sys0 4 = []"
    "'':back'' \<in> set detach_words" "''ls'' \<notin> set detach_words" by code_simp+
  have re: "reaches 0 4 attached_to sys0" by (simp add: reaches_def attached_to_def on_fd_def sys0_def writable_def)
  have st: "at_line_start new_typing" by (simp add: at_line_start_def new_typing_def)
  have ws: "\<forall>v \<in> set [''ls'']. list_all printable v \<and> v \<notin> set detach_words" using i by simp
  have "CHR 0x0D = CHR 0x0D \<or> CHR 0x0D = CHR 0x0A" by simp
  from detach_words_not_sent [OF re i(3) st this ws i(1) r] have "attached c' = 0" "sent s' 4 = ''ls'' @ nl"
    using i(4,5) by simp_all
  with r show ?thesis unfolding b by blast
qed

text \<open>
  C29. The output of the sessions: every line is written with the label of its session before its
  first byte and nowhere else, wherever the reads cut the lines; a failed write leaves a prefix of
  that; and nothing fails when standard output takes what it is given and the label fits its buffer.
\<close>

theorem output_labelled_by_line:
  assumes "write_labelled y b s = (rc, y', s')"
  shows "\<exists>shown. prefix shown (labelled (session_prefix y) (ms_line_start y) b)
    \<and> sent s' = (sent s)(1 := sent s 1 @ shown) \<and> rc \<in> {0, - 1}
    \<and> (rc = 0 \<longrightarrow> shown = labelled (session_prefix y) (ms_line_start y) b
         \<and> y' = y\<lparr>ms_line_start := ends_line (ms_line_start y) b\<rparr>)
    \<and> (writable (wr_q s 1) \<and> length (session_prefix y) < 192 \<longrightarrow> rc = 0)"
  using write_labelled_effect [OF assms] by blast

theorem output_labelled_by_line_witness:
  "\<exists>y' s'. write_labelled (on_fd 4 1) (''a'' @ nl @ ''b'') sys0 = (0, y', s')
     \<and> sent s' 1 = ''[session1 peer p:7] a'' @ nl @ ''[session1 peer p:7] b'' \<and> \<not> ms_line_start y'"
proof -
  obtain rc y' s' where r: "write_labelled (on_fd 4 1) (''a'' @ nl @ ''b'') sys0 = (rc, y', s')" using prod_cases3 by blast
  have i: "session_prefix (on_fd 4 1) = ''[session1 peer p:7] ''" "ms_line_start (on_fd 4 1)" "sent sys0 1 = []"
    "ends_line True (''a'' @ nl @ ''b'') = False"
    "labelled ''[session1 peer p:7] '' True (''a'' @ nl @ ''b'') = ''[session1 peer p:7] a'' @ nl @ ''[session1 peer p:7] b''"
    "length ''[session1 peer p:7] '' < 192" by code_simp+
  have w: "writable (wr_q sys0 1)" by (simp add: sys0_def writable_def)
  from output_labelled_by_line [OF r] i w have "rc = 0 \<and> sent s' 1 = labelled ''[session1 peer p:7] '' True (''a'' @ nl @ ''b'')
      \<and> y' = (on_fd 4 1)\<lparr>ms_line_start := False\<rparr>" by auto
  with r i(5) show ?thesis by auto
qed

text \<open>
  C30. \<open>:next\<close> and \<open>:prev\<close> go round the live sessions in the order of their slots, both wrapping
  at the ends, so that each undoes the other; empty slots are skipped.
\<close>

theorem sessions_cycle:
  assumes "distinct (live_ids ss m)" and "i < length (live_ids ss m)"
  shows "multi_next_session_id ss m (live_ids ss m ! i) = live_ids ss m ! (Suc i mod length (live_ids ss m))
    \<and> multi_prev_session_id ss m (live_ids ss m ! (Suc i mod length (live_ids ss m))) = live_ids ss m ! i"
proof -
  let ?n = "length (live_ids ss m)" and ?j = "Suc i mod length (live_ids ss m)"
  have j: "?j < ?n" by (rule mod_less_divisor) (use assms(2) in auto)
  have "(?j + ?n - 1) mod ?n = i" using assms(2) by (cases "Suc i = ?n") simp_all
  with next_session [OF assms] prev_session [OF assms(1) j] show ?thesis by simp
qed

theorem sessions_cycle_witness:
  "multi_next_session_id three_sessions 4 9 = 7 \<and> multi_prev_session_id three_sessions 4 7 = 9"
proof -
  have l: "live_ids three_sessions 4 = [7, 2, 9]" by code_simp
  then have d: "distinct (live_ids three_sessions 4)" "2 < length (live_ids three_sessions 4)" by simp_all
  from sessions_cycle [OF d] show ?thesis by (simp add: l)
qed

section \<open>The command line\<close>

text \<open>
  C31. Every configuration \<open>wcat_parse_args\<close> accepts satisfies the rules the rest of the program
  relies on: the mode has the operands it needs, the port is in range, at most one transport is
  chosen, numbers are within their limits, the certificate options are consistent, the access lists
  parse.
\<close>

theorem parse_args_accepts_only_valid:
  assumes "wcat_parse_args L argv = (0, cfg)"
  shows "config_ok L cfg \<and> positional_ok cfg"
  using wcat_parse_args_ok [OF assms] wcat_parse_args_positional [OF assms] by blast

theorem parse_args_accepts_only_valid_witness:
  "fst (wcat_parse_args posix_inet listen_argv) = 0 \<and> config_ok posix_inet (snd (wcat_parse_args posix_inet listen_argv))
   \<and> timeout_ms (snd (wcat_parse_args posix_inet listen_argv)) = 5000"
proof -
  have v: "fst (wcat_parse_args posix_inet listen_argv) = 0" "timeout_ms (snd (wcat_parse_args posix_inet listen_argv)) = 5000"
    by code_simp+
  then have "wcat_parse_args posix_inet listen_argv = (0, snd (wcat_parse_args posix_inet listen_argv))"
    by (simp add: prod_eq_iff)
  from parse_args_accepts_only_valid [OF this] v show ?thesis by blast
qed

text \<open>
  C32. Printing and parsing a configuration: the command line \<open>render_config\<close> writes for a
  configuration is parsed back to that configuration exactly when the configuration is valid. So
  the parser accepts every valid configuration, and nothing of it is lost, defaulted or confused
  with another option.
\<close>

theorem parse_args_render_roundtrip:
  "wcat_parse_args L (prog # render_config cfg) = (0, cfg) \<longleftrightarrow> config_ok L cfg \<and> positional_ok cfg"
  using wcat_parse_args_render wcat_parse_args_ok wcat_parse_args_positional by blast

text \<open>
  C33. Certificate verification is on unless the command line holds the option
  \<open>--tls-insecure\<close> (as an option or as the value of one): no other argument turns it off.
\<close>

theorem verification_off_only_on_request:
  assumes "wcat_parse_args L argv = (0, cfg)" and "''--tls-insecure'' \<notin> set argv"
  shows "tls_verify cfg"
  using assms by (rule wcat_parse_args_verify)

theorem verification_off_only_on_request_witness:
  "tls_verify (snd (wcat_parse_args posix_inet listen_argv))"
proof -
  have "fst (wcat_parse_args posix_inet listen_argv) = 0" by code_simp
  then have "wcat_parse_args posix_inet listen_argv = (0, snd (wcat_parse_args posix_inet listen_argv))"
    by (simp add: prod_eq_iff)
  moreover have "''--tls-insecure'' \<notin> set listen_argv" by code_simp
  ultimately show ?thesis by (rule verification_off_only_on_request)
qed

text \<open>
  C34. Ports: a text is accepted as port n (1 to 65535) exactly when it is optional white space, an
  optional plus sign and decimal digits of value n; everything else gives -1.
\<close>

theorem parse_port_accepts:
  "(wcat_parse_port (Some t) = n \<and> n \<noteq> - 1) \<longleftrightarrow>
     1 \<le> n \<and> n \<le> 65535 \<and> (\<exists>ds. int_text t False ds \<and> int (dec_value ds) = n)"
  using wcat_parse_port_range [of "Some t"] wcat_parse_port_iff [of n t] by auto

section \<open>Access control\<close>

text \<open>
  C35. The decision on a connection is the documented one: without lists everyone is admitted; with
  a list the peer must have an internet address that no deny entry and, when there is an allow list,
  some allow entry matches. Deny entries win.
\<close>

theorem access_decision:
  "fst (wcat_access_check_fd L cfg fd s) \<longleftrightarrow>
     allow_list cfg = None \<and> deny_list cfg = None
     \<or> (\<exists>fam a. peer_addr (peer_of s fd) = Some (fam, a)
          \<and> (\<forall>l. deny_list cfg = Some l \<longrightarrow> \<not> list_matches L l fam a)
          \<and> (\<forall>l. allow_list cfg = Some l \<longrightarrow> list_matches L l fam a))"
  using wcat_access_check_fd_decision [of L cfg fd s] unfolding access_allows_def .

theorem access_decision_witness:
  "fst (wcat_access_check_fd posix_inet access_cfg 4 (sys0\<lparr>peer_of := \<lambda>_. PeerInet [10, 9, 8, 7]\<rparr>))
   \<and> \<not> fst (wcat_access_check_fd posix_inet access_cfg 4 (sys0\<lparr>peer_of := \<lambda>_. PeerInet [10, 1, 2, 3]\<rparr>))
   \<and> \<not> fst (wcat_access_check_fd posix_inet access_cfg 4 (sys0\<lparr>peer_of := \<lambda>_. PeerOther\<rparr>))"
proof -
  have "peer_addr (peer_of (sys0\<lparr>peer_of := \<lambda>_. PeerInet [10, 9, 8, 7]\<rparr>) 4) = Some (AF_INET, [10, 9, 8, 7])"
    "deny_list access_cfg = Some '' 10.1.2.3 ''" "allow_list access_cfg = Some ''10.0.0.0/8''"
    "\<not> list_matches posix_inet '' 10.1.2.3 '' AF_INET [10, 9, 8, 7]"
    "list_matches posix_inet ''10.0.0.0/8'' AF_INET [10, 9, 8, 7]" by code_simp+
  then have "fst (wcat_access_check_fd posix_inet access_cfg 4 (sys0\<lparr>peer_of := \<lambda>_. PeerInet [10, 9, 8, 7]\<rparr>))"
    unfolding access_decision by simp
  moreover have "\<not> fst (wcat_access_check_fd posix_inet access_cfg 4 (sys0\<lparr>peer_of := \<lambda>_. PeerInet [10, 1, 2, 3]\<rparr>))"
    "\<not> fst (wcat_access_check_fd posix_inet access_cfg 4 (sys0\<lparr>peer_of := \<lambda>_. PeerOther\<rparr>))" by code_simp+
  ultimately show ?thesis by blast
qed

text \<open>
  C36. Matching an address against a network compares exactly the leading bits the prefix length
  names, most significant first, for every prefix length from 0 to the length of the address.
\<close>

theorem match_net_compares_prefix:
  assumes "0 \<le> net_bits net" and "net_bits net \<le> 8 * int (length (net_addr net))"
    and "length addr = length (net_addr net)"
  shows "match_net addr net \<longleftrightarrow> (\<forall>i < nat (net_bits net). addr_bit addr i = addr_bit (net_addr net) i)"
  using match_net_same_prefix [OF assms] unfolding same_prefix_def .

theorem match_net_compares_prefix_witness:
  "match_net [10, 63, 1, 1] \<lparr>net_family = AF_INET, net_addr = [10, 32, 0, 0], net_bits = 11\<rparr>
   \<and> (\<forall>i. i < (11::nat) \<longrightarrow> addr_bit [10, 63, 1, 1] i = addr_bit [10, 32, 0, 0] i) = True
   \<and> \<not> match_net [10, 64, 1, 1] \<lparr>net_family = AF_INET, net_addr = [10, 32, 0, 0], net_bits = 11\<rparr>"
proof -
  let ?net = "\<lparr>net_family = AF_INET, net_addr = [10, 32, 0, 0], net_bits = 11\<rparr>"
  have m: "match_net [10, 63, 1, 1] ?net" "\<not> match_net [10, 64, 1, 1] ?net" by code_simp+
  moreover have "\<forall>i < (11::nat). addr_bit [10, 63, 1, 1] i = addr_bit [10, 32, 0, 0] i"
    using match_net_compares_prefix [of ?net "[10, 63, 1, 1]"] m(1) by simp
  ultimately show ?thesis by blast
qed

text \<open>
  C37. Validation and use of a list agree: in a list that \<open>wcat_access_validate_list\<close> accepts no
  entry is skipped, a peer matches the list exactly when its address matches one of the entries,
  and every entry is a network that parses.
\<close>

theorem validated_list_matches_entries:
  assumes "wcat_access_validate_list L (Some l) = 0"
  shows "(list_matches L l fam addr \<longleftrightarrow>
      (\<exists>t \<in> set (entries l). case parse_net L t of Some net \<Rightarrow> net_family net = fam \<and> match_net addr net | None \<Rightarrow> False))
    \<and> (\<forall>t \<in> set (entries l). parse_net L t \<noteq> None)"
  using list_matches_validated [OF assms, of fam addr] assms
  unfolding entry_matches_def by (auto simp: wcat_access_validate_list_def validate_entries_iff entry_ok_def)

theorem validated_list_matches_entries_witness:
  "wcat_access_validate_list posix_inet (Some ''10.0.0.0/8, 192.168.1.1'') = 0
   \<and> entries ''10.0.0.0/8, 192.168.1.1'' = [''10.0.0.0/8'', ''192.168.1.1'']
   \<and> list_matches posix_inet ''10.0.0.0/8, 192.168.1.1'' AF_INET [192, 168, 1, 1]"
proof -
  have v: "wcat_access_validate_list posix_inet (Some ''10.0.0.0/8, 192.168.1.1'') = 0"
    "entries ''10.0.0.0/8, 192.168.1.1'' = [''10.0.0.0/8'', ''192.168.1.1'']" by code_simp+
  have "case parse_net posix_inet ''192.168.1.1'' of Some net \<Rightarrow> net_family net = AF_INET \<and> match_net [192, 168, 1, 1] net
    | None \<Rightarrow> False" by code_simp
  with validated_list_matches_entries [OF v(1), of AF_INET "[192, 168, 1, 1]"] v show ?thesis by simp
qed

section \<open>Logging and utilities\<close>

text \<open>
  C38. Every JSON log record is one line: a newline at its end and no control character before it,
  whatever bytes the event and the message hold; and both can be decoded again from their escaped
  form, so that records are unambiguous.
\<close>

theorem json_log_record:
  "(\<exists>body. json_record ts level event msg = body @ [CHR 0x0A] \<and> (\<forall>x. x \<in> set body \<longrightarrow> \<not> iscntrl x))
   \<and> json_decode (json_escape event) = Some event \<and> json_decode (json_escape msg) = Some msg"
  using json_record_one_line [of ts level event msg] by (simp add: json_decode_escape Ball_def)

theorem json_log_record_witness:
  "json_decode (json_escape [CHR 0x22, CHR 0x0A, CHR 0x1B]) = Some [CHR 0x22, CHR 0x0A, CHR 0x1B]
   \<and> (\<exists>body. json_record 7 WCAT_LOG_INFO ''e'' [CHR 0x22, CHR 0x0A, CHR 0x1B] = body @ [CHR 0x0A] \<and> filter iscntrl body = [])"
  using json_log_record [of 7 WCAT_LOG_INFO "''e''" "[CHR 0x22, CHR 0x0A, CHR 0x1B]"]
  by (metis filter_False)

text \<open>
  The hex dump of a buffer, written byte by byte in one loop, is the classical one: a title,
  then one line for every 16 bytes or part of them, with the offset and the bytes of that row.
\<close>

theorem hexdump_is_row_by_row:
  "hexdump_text label buf = label @ '' '' @ dec_string (length buf) @ '' bytes'' @ [CHR 0x0A] @ concat (hexdump_lines 0 buf)
   \<and> length (hexdump_lines 0 buf) = (length buf + 15) div 16"
  using hexdump_from_lines [of 0 buf "length buf"] by (simp add: hexdump_text_def length_hexdump_lines)

text \<open>
  C39. \<open>wcat_full_write\<close>: on every behaviour of the descriptor it returns, having written a prefix
  of the buffer; the result is the number of bytes written, or -1 with something left and an error
  other than an interruption. If the descriptor takes what it is given, everything is written.
\<close>

theorem full_write_result:
  "(\<exists>k \<le> length buf. write_effect fd (take k buf) s (snd (wcat_full_write fd buf s))
      \<and> (fst (wcat_full_write fd buf s) = int k
         \<or> fst (wcat_full_write fd buf s) = - 1 \<and> k < length buf \<and> errno_of (snd (wcat_full_write fd buf s)) \<noteq> EINTR))
   \<and> (writable (wr_q s fd) \<longrightarrow> fst (wcat_full_write fd buf s) = int (length buf)
        \<and> sent (snd (wcat_full_write fd buf s)) fd = sent s fd @ buf)"
proof -
  obtain n s' where w: "wcat_full_write fd buf s = (n, s')" by force
  have "writable (wr_q s fd) \<longrightarrow> n = int (length buf) \<and> sent s' fd = sent s fd @ buf"
    using wcat_full_write_total [of s fd buf] w by (auto simp: write_effect_def)
  with wcat_full_write_effect [OF w] show ?thesis by (simp add: w)
qed

theorem full_write_result_witness:
  "fst (wcat_full_write 4 ''abc'' copy_sys) = 3 \<and> sent (snd (wcat_full_write 4 ''abc'' copy_sys)) 4 = ''abc''"
proof -
  have "writable (wr_q copy_sys 4)" "sent copy_sys 4 = []" by (simp_all add: copy_sys_def writable_def sys0_def)
  with full_write_result [of "''abc''" 4 copy_sys] show ?thesis by simp
qed

section \<open>Sockets\<close>

text \<open>
  C40. Every function that makes a socket (TCP, SCTP, UNIX, VM and UDP; connecting, listening or
  binding; all candidate addresses, partial failures and the timeout included) either returns a
  fresh blocking close-on-exec descriptor as the only new one, or -1 with nothing left open. No
  candidate that failed leaks.
\<close>

theorem socket_makers_do_not_leak:
  "new_socket s (fst (wcat_tcp_connect h p fam tmo s)) (snd (wcat_tcp_connect h p fam tmo s))
   \<and> new_socket s (fst (wcat_tcp_listen h p fam bl s)) (snd (wcat_tcp_listen h p fam bl s))
   \<and> new_socket s (fst (wcat_sctp_connect h p fam tmo s)) (snd (wcat_sctp_connect h p fam tmo s))
   \<and> new_socket s (fst (wcat_sctp_listen h p fam bl s)) (snd (wcat_sctp_listen h p fam bl s))
   \<and> new_socket s (fst (wcat_unix_connect h tmo s)) (snd (wcat_unix_connect h tmo s))
   \<and> new_socket s (fst (wcat_unix_listen h bl s)) (snd (wcat_unix_listen h bl s))
   \<and> new_socket s (fst (wcat_vsock_connect h p tmo s)) (snd (wcat_vsock_connect h p tmo s))
   \<and> new_socket s (fst (wcat_vsock_listen h p bl s)) (snd (wcat_vsock_listen h p bl s))
   \<and> new_socket s (fst (wcat_udp_connect h p fam s)) (snd (wcat_udp_connect h p fam s))
   \<and> new_socket s (fst (wcat_udp_bind h p fam s)) (snd (wcat_udp_bind h p fam s))"
  using tcp_connect.make_new tcp_listen.make_new sctp_connect.make_new sctp_listen.make_new
    unix_connect.make_new unix_listen.make_new vsock_connect.make_new vsock_listen.make_new
    udp_connect.make_new udp_bind.make_new
  by (simp add: prod_eq_iff)

text \<open>
  Accepting: an accepted connection has a fresh close-on-exec descriptor, the only new one; a
  failure opens nothing and is not an interruption, which the call retries.
\<close>

theorem accept_result:
  "case fst (wcat_accept l s) of
     None \<Rightarrow> open_fds (snd (wcat_accept l s)) = open_fds s \<and> errno_of (snd (wcat_accept l s)) \<noteq> EINTR
   | Some (fd, h, p) \<Rightarrow> 0 \<le> fd \<and> fd \<notin> set (open_fds s) \<and> open_fds (snd (wcat_accept l s)) = open_fds s @ [fd]
       \<and> fd \<in> set (cloexec (snd (wcat_accept l s)))"
  using wcat_accept_effect [of l s "fst (wcat_accept l s)" "snd (wcat_accept l s)"]
  by (auto split: option.splits)

text \<open>
  The numbers of VM socket addresses are read with \<open>strtoul\<close>, which negates in \<open>unsigned
  long\<close>: an argument is accepted exactly when it is white space, a sign and digits below 2^64 whose
  value, negated modulo 2^64 after a minus sign, is below 2^32. So -18446744073709551615 is
  accepted and means 1.
\<close>

theorem parse_u32_value:
  "(parse_u32_arg (Some t) = Some w \<longleftrightarrow>
     (\<exists>neg ds. int_text t neg ds \<and> int (dec_value ds) < 2 ^ 64
        \<and> uint w = (if neg then (- int (dec_value ds)) mod 2 ^ 64 else int (dec_value ds))))
   \<and> parse_u32_arg (Some ''-18446744073709551615'') = Some 1"
proof
  show "parse_u32_arg (Some t) = Some w \<longleftrightarrow>
     (\<exists>neg ds. int_text t neg ds \<and> int (dec_value ds) < 2 ^ 64
        \<and> uint w = (if neg then (- int (dec_value ds)) mod 2 ^ 64 else int (dec_value ds)))"
    (is "?L \<longleftrightarrow> ?R")
  proof
    assume ?L
    obtain neg u where nu: "split_sign (dropWhile isspace t) = (neg, u)" by force
    with \<open>?L\<close> have "takeWhile isdigit u \<noteq> []" "dropWhile isdigit u = []"
      by (auto simp: parse_u32_arg_def strtoul_def Let_def split: if_splits)
    with nu have "int_text t neg (takeWhile isdigit u)" by (rule int_textI)
    with \<open>?L\<close> nu show ?R
      by (intro exI [of _ neg] exI [of _ "takeWhile isdigit u"])
        (auto simp: parse_u32_arg_def strtoul_def Let_def c_limits uint_word_of_int unsigned_of_nat take_bit_nat_eq_self_iff split: if_splits)
  next
    assume ?R
    then obtain neg ds where t: "int_text t neg ds" and b: "int (dec_value ds) < 2 ^ 64"
      and w: "uint w = (if neg then (- int (dec_value ds)) mod 2 ^ 64 else int (dec_value ds))" by blast
    from t have ne: "t \<noteq> []" by (auto simp: int_text_def)
    have "strtoul t = (uint w, [], False)"
      unfolding strtoul_def Let_def int_text_parts(1) [OF t] prod.case int_text_parts(2,3) [OF t]
      using int_text_parts(4) [OF t] b w by (auto simp: c_limits)
    moreover have "uint w < 2 ^ 32" using uint_bounded [of w] by simp
    ultimately show ?L using ne by (simp add: parse_u32_arg_def)
  qed
  show "parse_u32_arg (Some ''-18446744073709551615'') = Some 1" by code_simp
qed

end
